(* ===== verification/Prelude.thy ===== *)
theory Prelude
  imports Main "HOL-Library.Word"
begin

text \<open>
  Shared vocabulary of the development: the names of the machine types of
  \<^verbatim>\<open>libgpos/include/gpos/types.h\<close>, the lemma collections of the components, and generic facts on
  words, lists and sets that several components use.
\<close>

unbundle bit_operations_syntax

subsection \<open>Machine types\<close>

text \<open>
  \<^verbatim>\<open>ULLONG\<close> is kept as a 64-bit word where its bits matter.  \<^verbatim>\<open>ULONG\<close> values used as positions, indexes
  and counters are natural numbers; where the code relies on wrap-around the reduction modulo
  \<open>2 ^ 32\<close> is written out.
\<close>

type_synonym ullong = "64 word"
type_synonym ulong = nat
type_synonym hash32 = "32 word"
type_synonym byte = "8 word"

abbreviation ulong_modulus :: nat where
  "ulong_modulus \<equiv> 2 ^ 32"

abbreviation ulong_max :: nat where
  "ulong_max \<equiv> 2 ^ 32 - 1"

subsection \<open>Lemma collections\<close>

named_theorems bv_simps \<open>effect of the bit vector operations on the set of bits\<close>
named_theorems bs_simps \<open>effect of the bit set operations on the set of members\<close>

subsection \<open>Words\<close>

lemma ullong_eq_iff: "x = y \<longleftrightarrow> (\<forall>n<64. bit x n = bit y n)" for x y :: ullong
  by (auto intro: bit_word_eqI)

lemma bit_ullong_less: "bit w n \<Longrightarrow> n < 64" for w :: ullong
  using bit_imp_le_length [of w n] by simp

subsection \<open>Lists\<close>

lemma sorted_wrt_less_list_eq:
  fixes xs ys :: "nat list"
  assumes "sorted_wrt (<) xs" and "sorted_wrt (<) ys" and "set xs = set ys"
  shows "xs = ys"
  using assms by (metis strict_sorted_equal)

lemma sorted_wrt_key_list_eq:
  fixes f :: "'a \<Rightarrow> nat"
  assumes "sorted_wrt (<) (map f xs)" and "sorted_wrt (<) (map f ys)" and "set xs = set ys"
  shows "xs = ys"
proof -
  have "map f xs = map f ys" using assms by (intro sorted_wrt_less_list_eq) simp_all
  moreover have "inj_on f (set xs \<union> set ys)"
    using assms strict_sorted_iff [of "map f xs"] by (simp add: distinct_map)
  ultimately show ?thesis by (rule map_inj_on)
qed

lemma list_all_upt: "list_all P [0..<n] \<longleftrightarrow> (\<forall>i<n. P i)"
  by (auto simp: list_all_iff)

subsection \<open>Abortable actions\<close>

text \<open>
  Callbacks and loops of the enumeration code return \<^verbatim>\<open>true\<close> to stop early.  An action maps a state to
  this flag and the new state; \<open>None\<close> stands for a recursion that ran out of fuel.  \<open>or_else\<close> is the
  pattern \<^verbatim>\<open>if (a) { return true; } return b;\<close> and \<open>for_abort\<close> a loop whose body may return true.
\<close>

type_synonym 's act = "'s \<Rightarrow> (bool \<times> 's) option"

definition skip :: "'s act" where
  "skip s = Some (False, s)"

definition or_else :: "'s act \<Rightarrow> 's act \<Rightarrow> 's act" where
  "or_else a b s = (case a s of None \<Rightarrow> None | Some (True, s') \<Rightarrow> Some (True, s') | Some (False, s') \<Rightarrow> b s')"

fun for_abort :: "('a \<Rightarrow> 's act) \<Rightarrow> 'a list \<Rightarrow> 's act" where
  "for_abort f [] = skip"
| "for_abort f (x # xs) = or_else (f x) (for_abort f xs)"

text \<open>
  The action ends from every state satisfying \<open>P False\<close>; the state it ends in satisfies \<open>P\<close> for the
  flag it returns.
\<close>

definition keeps :: "(bool \<Rightarrow> 's \<Rightarrow> bool) \<Rightarrow> 's act \<Rightarrow> bool" where
  "keeps P a \<longleftrightarrow> (\<forall>s. P False s \<longrightarrow> (\<exists>b s'. a s = Some (b, s') \<and> P b s'))"

lemma keepsI [intro]: "(\<And>s. P False s \<Longrightarrow> \<exists>b s'. a s = Some (b, s') \<and> P b s') \<Longrightarrow> keeps P a"
  by (simp add: keeps_def)

lemma keepsE:
  assumes "keeps P a" and "P False s"
  obtains b s' where "a s = Some (b, s')" "P b s'"
  using assms by (auto simp: keeps_def)

lemma keeps_skip [simp]: "keeps P skip"
  by (auto simp: keeps_def skip_def)

lemma keeps_or_else:
  assumes "keeps P a" and "keeps P b"
  shows "keeps P (or_else a b)"
proof
  fix s assume "P False s"
  with assms(1) obtain x s' where a: "a s = Some (x, s')" "P x s'" by (rule keepsE)
  show "\<exists>c t. or_else a b s = Some (c, t) \<and> P c t"
  proof (cases x)
    case True
    then show ?thesis using a by (auto simp: or_else_def)
  next
    case False
    with a(2) have "P False s'" by simp
    with assms(2) obtain y s'' where "b s' = Some (y, s'')" "P y s''" by (rule keepsE)
    then show ?thesis using a False by (auto simp: or_else_def)
  qed
qed

lemma keeps_for_abort: "(\<And>x. x \<in> set xs \<Longrightarrow> keeps P (f x)) \<Longrightarrow> keeps P (for_abort f xs)"
  by (induction xs) (simp_all add: keeps_or_else)

lemma keeps_if: "(c \<Longrightarrow> keeps P a) \<Longrightarrow> (\<not> c \<Longrightarrow> keeps P b) \<Longrightarrow> keeps P (if c then a else b)"
  by simp

end
