(* ===== verification/HyperGraph.thy ===== *)
theory HyperGraph
  imports Prelude
begin

text \<open>
  The hypergraph of \<^verbatim>\<open>libgpopt/src/xforms/CDPHyperGraph.cpp\<close>: nodes with their incident edges, directed
  edges stored in forward/reverse pairs, and the operations \<^verbatim>\<open>AddEdge\<close> and \<^verbatim>\<open>ReplaceEdge\<close>.  Bit sets are
  sets of node numbers, iterated in ascending order; \<open>SetSpec\<close> states the contract that justifies this
  and \<open>BitSetCorrect\<close> shows that \<^verbatim>\<open>CBitSet\<close> meets it.  The invariant says that the incidence lists and
  the cached simple neighborhoods of the nodes are exactly what the edge array determines.
\<close>

subsection \<open>Data\<close>

type_synonym nodes = "nat set"

text \<open>The order in which \<^verbatim>\<open>CBitSetIter\<close> visits a set.\<close>

abbreviation elems :: "nodes \<Rightarrow> nat list" where
  "elems A \<equiv> sorted_list_of_set A"

record SEdge =
  m_left :: nodes
  m_right :: nodes
  m_edge_id :: nat

record SNode =
  m_simple_neighborhood :: nodes
  m_simple_edges :: "nat list"
  m_complex_edges :: "nat list"

record CDPHyperGraph =
  m_nodes :: "SNode list"
  m_edges :: "SEdge list"

definition SEdge_new :: "nodes \<Rightarrow> nodes \<Rightarrow> nat \<Rightarrow> SEdge" where
  "SEdge_new left right edge_id = \<lparr>m_left = left, m_right = right, m_edge_id = edge_id\<rparr>"

definition SNode_new :: SNode where
  "SNode_new = \<lparr>m_simple_neighborhood = {}, m_simple_edges = [], m_complex_edges = []\<rparr>"

definition graph_new :: "nat \<Rightarrow> CDPHyperGraph" where
  "graph_new node_count = \<lparr>m_nodes = replicate node_count SNode_new, m_edges = []\<rparr>"

definition NodeCount :: "CDPHyperGraph \<Rightarrow> nat" where
  "NodeCount g = length (m_nodes g)"

definition LogicalEdgeCount :: "CDPHyperGraph \<Rightarrow> nat" where
  "LogicalEdgeCount g = length (m_edges g) div 2"

subsection \<open>Operations\<close>

definition update_node :: "nat \<Rightarrow> (SNode \<Rightarrow> SNode) \<Rightarrow> CDPHyperGraph \<Rightarrow> CDPHyperGraph" where
  "update_node n f g = g\<lparr>m_nodes := (m_nodes g)[n := f (m_nodes g ! n)]\<rparr>"

definition simple_sides :: "nodes \<Rightarrow> nodes \<Rightarrow> bool" where
  "simple_sides left right \<longleftrightarrow> card left = 1 \<and> card right = 1"

definition push_simple :: "nat \<Rightarrow> SNode \<Rightarrow> SNode" where
  "push_simple e node = node\<lparr>m_simple_edges := m_simple_edges node @ [e]\<rparr>"

definition push_complex :: "nat \<Rightarrow> SNode \<Rightarrow> SNode" where
  "push_complex e node = node\<lparr>m_complex_edges := m_complex_edges node @ [e]\<rparr>"

definition grow_neighborhood :: "nodes \<Rightarrow> SNode \<Rightarrow> SNode" where
  "grow_neighborhood A node = node\<lparr>m_simple_neighborhood := m_simple_neighborhood node \<union> A\<rparr>"

definition erase_simple :: "nat \<Rightarrow> SNode \<Rightarrow> SNode" where
  "erase_simple e node = node\<lparr>m_simple_edges := filter (\<lambda>x. x \<noteq> e) (m_simple_edges node)\<rparr>"

definition erase_complex :: "nat \<Rightarrow> SNode \<Rightarrow> SNode" where
  "erase_complex e node = node\<lparr>m_complex_edges := filter (\<lambda>x. x \<noteq> e) (m_complex_edges node)\<rparr>"

definition AttachEdgeToNodes ::
  "nat \<Rightarrow> nat \<Rightarrow> nodes \<Rightarrow> nodes \<Rightarrow> CDPHyperGraph \<Rightarrow> CDPHyperGraph" where
  "AttachEdgeToNodes forward_edge reverse_edge left right g =
     (if simple_sides left right then
        (let l = hd (elems left); r = hd (elems right)
         in update_node r (push_simple reverse_edge)
             (update_node l (push_simple forward_edge)
               (update_node r (grow_neighborhood left)
                 (update_node l (grow_neighborhood right) g))))
      else
        fold (\<lambda>n. update_node n (push_complex reverse_edge)) (elems right)
          (fold (\<lambda>n. update_node n (push_complex forward_edge)) (elems left) g))"

definition RebuildSimpleNeighborhood :: "nat \<Rightarrow> CDPHyperGraph \<Rightarrow> CDPHyperGraph" where
  "RebuildSimpleNeighborhood n g =
     update_node n (\<lambda>node. node\<lparr>m_simple_neighborhood :=
       fold (\<lambda>e A. A \<union> m_right (m_edges g ! e)) (m_simple_edges node) {}\<rparr>) g"

definition DetachEdgeFromNodes ::
  "nat \<Rightarrow> nat \<Rightarrow> nodes \<Rightarrow> nodes \<Rightarrow> CDPHyperGraph \<Rightarrow> CDPHyperGraph" where
  "DetachEdgeFromNodes forward_edge reverse_edge left right g =
     (if simple_sides left right then
        (let l = hd (elems left); r = hd (elems right)
         in RebuildSimpleNeighborhood r
             (RebuildSimpleNeighborhood l
               (update_node r (erase_simple reverse_edge)
                 (update_node l (erase_simple forward_edge) g))))
      else
        fold (\<lambda>n. update_node n (erase_complex reverse_edge)) (elems right)
          (fold (\<lambda>n. update_node n (erase_complex forward_edge)) (elems left) g))"

definition AddEdge :: "nodes \<Rightarrow> nodes \<Rightarrow> nat \<Rightarrow> CDPHyperGraph \<Rightarrow> CDPHyperGraph" where
  "AddEdge left right edge_id g =
     (let forward = length (m_edges g);
          g1 = g\<lparr>m_edges := m_edges g @ [SEdge_new left right edge_id]\<rparr>;
          reverse = length (m_edges g1);
          g2 = g1\<lparr>m_edges := m_edges g1 @ [SEdge_new right left edge_id]\<rparr>
      in AttachEdgeToNodes forward reverse left right g2)"

definition ReplaceEdge :: "nat \<Rightarrow> nodes \<Rightarrow> nodes \<Rightarrow> CDPHyperGraph \<Rightarrow> CDPHyperGraph" where
  "ReplaceEdge logical_edge left right g =
     (let forward = logical_edge * 2; reverse = forward + 1;
          edge_id = m_edge_id (m_edges g ! forward);
          g1 = DetachEdgeFromNodes forward reverse
                 (m_left (m_edges g ! forward)) (m_right (m_edges g ! forward)) g;
          g2 = g1\<lparr>m_edges := (m_edges g1)[forward := SEdge_new left right edge_id]\<rparr>;
          g3 = g2\<lparr>m_edges := (m_edges g2)[reverse := SEdge_new right left edge_id]\<rparr>
      in AttachEdgeToNodes forward reverse left right g3)"

subsection \<open>Invariant\<close>

abbreviation simple_edge :: "SEdge \<Rightarrow> bool" where
  "simple_edge e \<equiv> simple_sides (m_left e) (m_right e)"

text \<open>
  A node is indexed correctly for a set \<open>A\<close> of edge numbers when its two incidence lists hold exactly
  the edges of \<open>A\<close> that have the node on their left side, without repetition, and the cached
  neighborhood is the union of the right sides of the simple ones.
\<close>

definition node_ok :: "SEdge list \<Rightarrow> nat set \<Rightarrow> nat \<Rightarrow> SNode \<Rightarrow> bool" where
  "node_ok E A n node \<longleftrightarrow>
     distinct (m_simple_edges node) \<and>
     set (m_simple_edges node) = {e \<in> A. simple_edge (E ! e) \<and> n \<in> m_left (E ! e)} \<and>
     distinct (m_complex_edges node) \<and>
     set (m_complex_edges node) = {e \<in> A. \<not> simple_edge (E ! e) \<and> n \<in> m_left (E ! e)} \<and>
     m_simple_neighborhood node = (\<Union>e\<in>set (m_simple_edges node). m_right (E ! e))"

definition attached :: "CDPHyperGraph \<Rightarrow> nat set \<Rightarrow> bool" where
  "attached g A \<longleftrightarrow> (\<forall>n<NodeCount g. node_ok (m_edges g) A n (m_nodes g ! n))"

definition sides_ok :: "nat \<Rightarrow> nodes \<Rightarrow> nodes \<Rightarrow> bool" where
  "sides_ok N left right \<longleftrightarrow>
     left \<noteq> {} \<and> right \<noteq> {} \<and> left \<inter> right = {} \<and> left \<subseteq> {..<N} \<and> right \<subseteq> {..<N}"

definition mirrored :: "SEdge \<Rightarrow> SEdge \<Rightarrow> bool" where
  "mirrored e f \<longleftrightarrow> m_left f = m_right e \<and> m_right f = m_left e \<and> m_edge_id f = m_edge_id e"

definition edges_ok :: "nat \<Rightarrow> SEdge list \<Rightarrow> bool" where
  "edges_ok N E \<longleftrightarrow> even (length E) \<and>
     (\<forall>k<length E div 2. sides_ok N (m_left (E ! (2 * k))) (m_right (E ! (2 * k))) \<and>
        mirrored (E ! (2 * k)) (E ! (2 * k + 1)))"

definition graph_inv :: "CDPHyperGraph \<Rightarrow> bool" where
  "graph_inv g \<longleftrightarrow> edges_ok (NodeCount g) (m_edges g) \<and> attached g {..<length (m_edges g)}"

lemma sides_okD:
  assumes "sides_ok N left right"
  shows "left \<noteq> {}" "right \<noteq> {}" "left \<inter> right = {}" "left \<subseteq> {..<N}" "right \<subseteq> {..<N}"
    "finite left" "finite right"
  using assms finite_subset [of _ "{..<N}"] by (auto simp: sides_ok_def)

lemma edges_ok_sides:
  assumes "edges_ok N E" and "i < length E"
  shows "sides_ok N (m_left (E ! i)) (m_right (E ! i))"
proof -
  have "even (length E)" using assms(1) by (simp add: edges_ok_def)
  then have "i div 2 < length E div 2" using assms(2) by presburger
  then have "sides_ok N (m_left (E ! (2 * (i div 2)))) (m_right (E ! (2 * (i div 2))))"
      "mirrored (E ! (2 * (i div 2))) (E ! (2 * (i div 2) + 1))"
    using assms(1) by (auto simp: edges_ok_def)
  moreover have "i = 2 * (i div 2) \<or> i = 2 * (i div 2) + 1" by presburger
  ultimately show ?thesis by (auto simp: mirrored_def sides_ok_def)
qed

lemma simple_sides_swap: "simple_sides right left = simple_sides left right"
  by (auto simp: simple_sides_def)

lemma simple_sides_obtain:
  assumes "simple_sides left right"
  obtains l r where "left = {l}" "right = {r}" "hd (elems left) = l" "hd (elems right) = r"
  using assms by (auto simp: simple_sides_def card_1_singleton_iff)

subsection \<open>Effect on single nodes\<close>

lemma node_ok_skip: "n \<notin> m_left (E ! e) \<Longrightarrow> node_ok E (insert e A) n node = node_ok E A n node"
proof -
  assume "n \<notin> m_left (E ! e)"
  then have "{x \<in> insert e A. P x \<and> n \<in> m_left (E ! x)} = {x \<in> A. P x \<and> n \<in> m_left (E ! x)}" for P by auto
  then show ?thesis by (simp only: node_ok_def)
qed

lemma node_ok_push_simple:
  assumes "node_ok E A n node" and "e \<notin> A" and "simple_edge (E ! e)" and "n \<in> m_left (E ! e)"
  shows "node_ok E (insert e A) n (push_simple e (grow_neighborhood (m_right (E ! e)) node))"
  using assms by (auto simp: node_ok_def push_simple_def grow_neighborhood_def)

lemma node_ok_push_complex:
  assumes "node_ok E A n node" and "e \<notin> A" and "\<not> simple_edge (E ! e)" and "n \<in> m_left (E ! e)"
  shows "node_ok E (insert e A) n (push_complex e node)"
  using assms by (auto simp: node_ok_def push_complex_def)

lemma fold_union_edges: "fold (\<lambda>e A. A \<union> f e) es B = B \<union> (\<Union>e\<in>set es. f e)"
  by (induction es arbitrary: B) auto

lemma node_ok_erase_simple:
  assumes "node_ok E A n node" and "simple_edge (E ! e)"
  shows "node_ok E (A - {e}) n ((erase_simple e node)\<lparr>m_simple_neighborhood :=
    (\<Union>x\<in>set (m_simple_edges (erase_simple e node)). m_right (E ! x))\<rparr>)"
  using assms by (auto simp: node_ok_def erase_simple_def)

lemma node_ok_erase_complex:
  assumes "node_ok E A n node" and "\<not> simple_edge (E ! e)"
  shows "node_ok E (A - {e}) n (erase_complex e node)"
  using assms by (auto simp: node_ok_def erase_complex_def)

lemma node_ok_remove_skip: "n \<notin> m_left (E ! e) \<Longrightarrow> node_ok E A n node \<Longrightarrow> node_ok E (A - {e}) n node"
  using node_ok_skip [of n E e "A - {e}" node] node_ok_skip [of n E e A node]
  by (cases "e \<in> A") (simp_all add: insert_absorb)

lemma node_ok_edges_cong:
  assumes "\<And>e. e \<in> A \<Longrightarrow> E ! e = F ! e"
  shows "node_ok E A n node = node_ok F A n node"
proof -
  have "{e \<in> A. P (E ! e)} = {e \<in> A. P (F ! e)}" for P using assms by auto
  note eq = this [of "\<lambda>x. simple_edge x \<and> n \<in> m_left x"] this [of "\<lambda>x. \<not> simple_edge x \<and> n \<in> m_left x"]
  have right: "(\<Union>e\<in>set (m_simple_edges node). m_right (E ! e)) = (\<Union>e\<in>set (m_simple_edges node). m_right (F ! e))"
    if "set (m_simple_edges node) = {e \<in> A. simple_edge (F ! e) \<and> n \<in> m_left (F ! e)}"
    using assms that by (intro SUP_cong refl) auto
  show ?thesis unfolding node_ok_def eq using right by (intro conj_cong refl) simp
qed

subsection \<open>Attaching and detaching\<close>

lemma update_node_simps [simp]:
  "m_edges (update_node n f g) = m_edges g"
  "length (m_nodes (update_node n f g)) = length (m_nodes g)"
  "i < length (m_nodes g) \<Longrightarrow>
     m_nodes (update_node n f g) ! i = (if i = n then f (m_nodes g ! i) else m_nodes g ! i)"
  by (auto simp: update_node_def nth_list_update)

lemma fold_update_node [simp]:
  "m_edges (fold (\<lambda>n. update_node n f) ns g) = m_edges g"
  "length (m_nodes (fold (\<lambda>n. update_node n f) ns g)) = length (m_nodes g)"
  by (induction ns arbitrary: g) simp_all

lemma fold_update_node_nth:
  "distinct ns \<Longrightarrow> i < length (m_nodes g) \<Longrightarrow>
   m_nodes (fold (\<lambda>n. update_node n f) ns g) ! i = (if i \<in> set ns then f (m_nodes g ! i) else m_nodes g ! i)"
  by (induction ns arbitrary: g) auto

lemma rebuild_simps [simp]:
  "m_edges (RebuildSimpleNeighborhood n g) = m_edges g"
  "length (m_nodes (RebuildSimpleNeighborhood n g)) = length (m_nodes g)"
  by (simp_all add: RebuildSimpleNeighborhood_def)

lemma attach_detach_simps [simp]:
  "m_edges (AttachEdgeToNodes f r A B g) = m_edges g"
  "length (m_nodes (AttachEdgeToNodes f r A B g)) = length (m_nodes g)"
  "m_edges (DetachEdgeFromNodes f r A B g) = m_edges g"
  "length (m_nodes (DetachEdgeFromNodes f r A B g)) = length (m_nodes g)"
  by (simp_all add: AttachEdgeToNodes_def DetachEdgeFromNodes_def Let_def)

lemma attach_node:
  assumes "sides_ok (NodeCount g) left right" and "n < NodeCount g"
  shows "m_nodes (AttachEdgeToNodes f r left right g) ! n =
    (let push = (\<lambda>e R node. if simple_sides left right then push_simple e (grow_neighborhood R node)
                 else push_complex e node)
     in if n \<in> left then push f right (m_nodes g ! n)
        else if n \<in> right then push r left (m_nodes g ! n) else m_nodes g ! n)"
proof (cases "simple_sides left right")
  case True
  then obtain a b where "left = {a}" "right = {b}" "hd (elems left) = a" "hd (elems right) = b"
    by (rule simple_sides_obtain)
  then show ?thesis using assms True
    by (auto simp: AttachEdgeToNodes_def Let_def NodeCount_def sides_ok_def)
next
  case False
  then show ?thesis using assms sides_okD [OF assms(1)]
    by (auto simp: AttachEdgeToNodes_def Let_def NodeCount_def fold_update_node_nth)
qed

lemma attach_attached:
  assumes "attached g A" and "sides_ok (NodeCount g) left right"
    and "f \<notin> A" "r \<notin> A" "f \<noteq> r"
    and "m_left (m_edges g ! f) = left" "m_right (m_edges g ! f) = right"
    and "m_left (m_edges g ! r) = right" "m_right (m_edges g ! r) = left"
  shows "attached (AttachEdgeToNodes f r left right g) (insert f (insert r A))"
  unfolding attached_def
proof (intro allI impI)
  let ?E = "m_edges g" and ?g = "AttachEdgeToNodes f r left right g"
  fix n assume "n < NodeCount ?g"
  then have n: "n < NodeCount g" by (simp add: NodeCount_def)
  then have ok: "node_ok ?E A n (m_nodes g ! n)" using assms(1) by (simp add: attached_def)
  have disj: "left \<inter> right = {}" using assms(2) by (simp add: sides_ok_def)
  have simple: "simple_edge (?E ! f) = simple_sides left right" "simple_edge (?E ! r) = simple_sides left right"
    using assms(6-9) simple_sides_swap by simp_all
  note at = attach_node [OF assms(2) n, of f r]
  consider "n \<in> left" "n \<notin> right" | "n \<notin> left" "n \<in> right" | "n \<notin> left" "n \<notin> right" using disj by blast
  then have "node_ok ?E (insert f (insert r A)) n (m_nodes ?g ! n)"
  proof cases
    case 1
    then have "node_ok ?E (insert r A) n (m_nodes g ! n)" using ok assms(8) by (simp add: node_ok_skip)
    then show ?thesis
      using 1 at simple assms(3,5,6,7) node_ok_push_simple [of ?E "insert r A" n _ f] node_ok_push_complex [of ?E "insert r A" n _ f]
      by (simp add: Let_def)
  next
    case 2
    then have "node_ok ?E (insert r A) n (m_nodes ?g ! n)"
      using ok at simple assms(4,8,9) node_ok_push_simple [of ?E A n _ r] node_ok_push_complex [of ?E A n _ r]
      by (simp add: Let_def)
    then show ?thesis using 2 assms(6) by (simp add: node_ok_skip)
  next
    case 3
    then show ?thesis using ok at assms(6,8) by (simp add: node_ok_skip)
  qed
  then show "node_ok (m_edges ?g) (insert f (insert r A)) n (m_nodes ?g ! n)" by simp
qed

lemma detach_node:
  assumes "sides_ok (NodeCount g) left right" and "n < NodeCount g"
  shows "m_nodes (DetachEdgeFromNodes f r left right g) ! n =
    (let erase = (\<lambda>e node. if simple_sides left right
                  then (erase_simple e node)\<lparr>m_simple_neighborhood :=
                    (\<Union>x\<in>set (m_simple_edges (erase_simple e node)). m_right (m_edges g ! x))\<rparr>
                  else erase_complex e node)
     in if n \<in> left then erase f (m_nodes g ! n)
        else if n \<in> right then erase r (m_nodes g ! n) else m_nodes g ! n)"
proof (cases "simple_sides left right")
  case True
  then obtain a b where "left = {a}" "right = {b}" "hd (elems left) = a" "hd (elems right) = b"
    by (rule simple_sides_obtain)
  then show ?thesis using assms True
    by (auto simp: DetachEdgeFromNodes_def RebuildSimpleNeighborhood_def Let_def NodeCount_def sides_ok_def
        fold_union_edges)
next
  case False
  then show ?thesis using assms sides_okD [OF assms(1)]
    by (auto simp: DetachEdgeFromNodes_def Let_def NodeCount_def fold_update_node_nth)
qed

lemma detach_attached:
  assumes "attached g A" and "sides_ok (NodeCount g) left right"
    and "m_left (m_edges g ! f) = left" "m_right (m_edges g ! f) = right"
    and "m_left (m_edges g ! r) = right" "m_right (m_edges g ! r) = left"
  shows "attached (DetachEdgeFromNodes f r left right g) (A - {f} - {r})"
  unfolding attached_def
proof (intro allI impI)
  let ?E = "m_edges g" and ?g = "DetachEdgeFromNodes f r left right g"
  fix n assume "n < NodeCount ?g"
  then have n: "n < NodeCount g" by (simp add: NodeCount_def)
  then have ok: "node_ok ?E A n (m_nodes g ! n)" using assms(1) by (simp add: attached_def)
  have disj: "left \<inter> right = {}" using assms(2) by (simp add: sides_ok_def)
  have simple: "simple_edge (?E ! f) = simple_sides left right" "simple_edge (?E ! r) = simple_sides left right"
    using assms(3-6) simple_sides_swap by simp_all
  note at = detach_node [OF assms(2) n, of f r]
  consider "n \<in> left" "n \<notin> right" | "n \<notin> left" "n \<in> right" | "n \<notin> left" "n \<notin> right" using disj by blast
  then have "node_ok ?E (A - {f} - {r}) n (m_nodes ?g ! n)"
  proof cases
    case 1
    then have "node_ok ?E (A - {f}) n (m_nodes ?g ! n)"
      using at simple node_ok_erase_simple [OF ok, of f] node_ok_erase_complex [OF ok, of f]
      by (simp add: Let_def)
    then show ?thesis using 1 assms(5) by (simp add: node_ok_remove_skip)
  next
    case 2
    then have "node_ok ?E (A - {f}) n (m_nodes g ! n)" using ok assms(3) by (simp add: node_ok_remove_skip)
    note o = node_ok_erase_simple [OF this, of r] node_ok_erase_complex [OF this, of r]
    show ?thesis using 2 at simple o by (simp add: Let_def)
  next
    case 3
    then show ?thesis using ok at assms(3,5) by (simp add: node_ok_remove_skip)
  qed
  then show "node_ok (m_edges ?g) (A - {f} - {r}) n (m_nodes ?g ! n)" by simp
qed

subsection \<open>AddEdge and ReplaceEdge keep the invariant\<close>

lemma attached_edges_cong:
  assumes "attached g A" and "\<And>e. e \<in> A \<Longrightarrow> E ! e = m_edges g ! e"
  shows "attached (g\<lparr>m_edges := E\<rparr>) A"
  using assms node_ok_edges_cong [of A E "m_edges g"] by (auto simp: attached_def NodeCount_def)

lemma graph_new_inv: "graph_inv (graph_new n)"
  by (simp add: graph_inv_def graph_new_def edges_ok_def attached_def NodeCount_def node_ok_def SNode_new_def)

lemma AddEdge_shape:
  "m_edges (AddEdge left right edge_id g) = m_edges g @ [SEdge_new left right edge_id, SEdge_new right left edge_id]"
  "NodeCount (AddEdge left right edge_id g) = NodeCount g"
  by (simp_all add: AddEdge_def Let_def NodeCount_def)

lemma edges_ok_append:
  assumes "edges_ok N E" and "sides_ok N (m_left e) (m_right e)" and "mirrored e f"
  shows "edges_ok N (E @ [e, f])"
proof -
  have ev: "even (length E)" using assms(1) by (simp add: edges_ok_def)
  have "sides_ok N (m_left ((E @ [e, f]) ! (2 * k))) (m_right ((E @ [e, f]) ! (2 * k))) \<and>
      mirrored ((E @ [e, f]) ! (2 * k)) ((E @ [e, f]) ! (2 * k + 1))" if k: "k < Suc (length E div 2)" for k
  proof (cases "k < length E div 2")
    case True
    then have "2 * k < length E" "2 * k + 1 < length E" by simp_all
    then show ?thesis using assms(1) True by (simp add: edges_ok_def nth_append)
  next
    case False
    then have "2 * k = length E" using k ev by (auto simp: less_Suc_eq)
    then show ?thesis using assms(2,3) by (simp add: nth_append)
  qed
  then show ?thesis using ev by (auto simp: edges_ok_def)
qed

lemma AddEdge_inv:
  assumes "graph_inv g" and "sides_ok (NodeCount g) left right"
  shows "graph_inv (AddEdge left right edge_id g)"
proof -
  let ?n = "length (m_edges g)" and ?e = "SEdge_new left right edge_id" and ?f = "SEdge_new right left edge_id"
  let ?g = "g\<lparr>m_edges := m_edges g @ [?e, ?f]\<rparr>"
  have "attached ?g {..<?n}"
    using assms(1) by (intro attached_edges_cong) (auto simp: graph_inv_def nth_append)
  then have "attached (AttachEdgeToNodes ?n (Suc ?n) left right ?g) (insert ?n (insert (Suc ?n) {..<?n}))"
    using assms(2) by (intro attach_attached) (auto simp: SEdge_new_def nth_append NodeCount_def)
  moreover have "insert ?n (insert (Suc ?n) {..<?n}) = {..<Suc (Suc ?n)}" by auto
  moreover have "AddEdge left right edge_id g = AttachEdgeToNodes ?n (Suc ?n) left right ?g"
    by (simp add: AddEdge_def Let_def)
  moreover have "edges_ok (NodeCount g) (m_edges g @ [?e, ?f])"
    using assms by (intro edges_ok_append) (auto simp: graph_inv_def SEdge_new_def mirrored_def)
  ultimately show ?thesis by (simp add: graph_inv_def NodeCount_def)
qed

lemma ReplaceEdge_shape:
  "m_edges (ReplaceEdge k left right g) =
     (m_edges g)[2 * k := SEdge_new left right (m_edge_id (m_edges g ! (2 * k))),
                 2 * k + 1 := SEdge_new right left (m_edge_id (m_edges g ! (2 * k)))]"
  "NodeCount (ReplaceEdge k left right g) = NodeCount g"
  by (simp_all add: ReplaceEdge_def Let_def NodeCount_def mult.commute)

lemma edges_ok_replace:
  assumes "edges_ok N E" and "sides_ok N (m_left e) (m_right e)" and "mirrored e f" and "k < length E div 2"
  shows "edges_ok N (E[2 * k := e, 2 * k + 1 := f])"
proof -
  have k: "2 * k < length E" "2 * k + 1 < length E" using assms(4) by simp_all
  let ?E = "E[2 * k := e, 2 * k + 1 := f]"
  have "sides_ok N (m_left (?E ! (2 * j))) (m_right (?E ! (2 * j))) \<and> mirrored (?E ! (2 * j)) (?E ! (2 * j + 1))"
    if j: "j < length E div 2" for j
  proof (cases "j = k")
    case True
    then show ?thesis using k assms(2,3) by simp
  next
    case False
    then have "2 * j \<noteq> 2 * k" "2 * j \<noteq> 2 * k + 1" "2 * j + 1 \<noteq> 2 * k" "2 * j + 1 \<noteq> 2 * k + 1" by presburger+
    then show ?thesis using assms(1) j by (simp add: edges_ok_def)
  qed
  then show ?thesis using assms(1) by (simp add: edges_ok_def)
qed

lemma ReplaceEdge_inv:
  assumes "graph_inv g" and "sides_ok (NodeCount g) left right" and "k < LogicalEdgeCount g"
  shows "graph_inv (ReplaceEdge k left right g)"
proof -
  let ?E = "m_edges g" and ?f = "2 * k" and ?r = "2 * k + 1"
  let ?id = "m_edge_id (?E ! ?f)"
  let ?e = "SEdge_new left right ?id" and ?e' = "SEdge_new right left ?id"
  let ?F = "?E[?f := ?e, ?r := ?e']"
  define d where "d = DetachEdgeFromNodes ?f ?r (m_left (?E ! ?f)) (m_right (?E ! ?f)) g"
  have len: "?f < length ?E" "?r < length ?E" using assms(3) by (simp_all add: LogicalEdgeCount_def)
  have ok: "sides_ok (NodeCount g) (m_left (?E ! ?f)) (m_right (?E ! ?f))" "mirrored (?E ! ?f) (?E ! ?r)"
    using assms(1,3) by (auto simp: graph_inv_def edges_ok_def LogicalEdgeCount_def)
  have "attached d ({..<length ?E} - {?f} - {?r})"
    unfolding d_def using assms(1) ok by (intro detach_attached) (auto simp: graph_inv_def mirrored_def)
  then have "attached (d\<lparr>m_edges := ?F\<rparr>) ({..<length ?E} - {?f} - {?r})"
    by (rule attached_edges_cong) (simp add: d_def)
  then have "attached (AttachEdgeToNodes ?f ?r left right (d\<lparr>m_edges := ?F\<rparr>))
      (insert ?f (insert ?r ({..<length ?E} - {?f} - {?r})))"
    using assms(2) len by (intro attach_attached) (auto simp: d_def NodeCount_def SEdge_new_def)
  moreover have "insert ?f (insert ?r ({..<length ?E} - {?f} - {?r})) = {..<length ?E}" using len by auto
  moreover have "ReplaceEdge k left right g = AttachEdgeToNodes ?f ?r left right (d\<lparr>m_edges := ?F\<rparr>)"
    by (simp add: ReplaceEdge_def Let_def d_def mult.commute)
  moreover have "edges_ok (NodeCount g) ?F"
    using assms by (intro edges_ok_replace) (auto simp: graph_inv_def SEdge_new_def mirrored_def LogicalEdgeCount_def)
  ultimately show ?thesis by (simp add: graph_inv_def NodeCount_def d_def)
qed

text \<open>The edge array determines the index of every node, up to the order of its incidence lists.\<close>

definition same_index :: "CDPHyperGraph \<Rightarrow> CDPHyperGraph \<Rightarrow> bool" where
  "same_index g h \<longleftrightarrow> NodeCount g = NodeCount h \<and> m_edges g = m_edges h \<and>
     (\<forall>n<NodeCount g. m_simple_neighborhood (m_nodes g ! n) = m_simple_neighborhood (m_nodes h ! n) \<and>
        set (m_simple_edges (m_nodes g ! n)) = set (m_simple_edges (m_nodes h ! n)) \<and>
        set (m_complex_edges (m_nodes g ! n)) = set (m_complex_edges (m_nodes h ! n)))"

lemma same_indexI:
  assumes "graph_inv g" and "graph_inv h" and "NodeCount g = NodeCount h" and "m_edges g = m_edges h"
  shows "same_index g h"
  using assms by (simp add: same_index_def graph_inv_def attached_def node_ok_def)

lemma ReplaceEdge_back_edges:
  assumes "graph_inv g" and "k < LogicalEdgeCount g"
  shows "m_edges (ReplaceEdge k (m_left (m_edges g ! (2 * k))) (m_right (m_edges g ! (2 * k)))
     (ReplaceEdge k left right g)) = m_edges g"
proof -
  let ?E = "m_edges g"
  have len: "2 * k < length ?E" "2 * k + 1 < length ?E" using assms(2) by (simp_all add: LogicalEdgeCount_def)
  have m: "mirrored (?E ! (2 * k)) (?E ! (2 * k + 1))"
    using assms by (auto simp: graph_inv_def edges_ok_def LogicalEdgeCount_def)
  have f: "SEdge_new (m_left (?E ! (2 * k))) (m_right (?E ! (2 * k))) (m_edge_id (?E ! (2 * k))) = ?E ! (2 * k)"
    by (intro SEdge.equality) (simp_all add: SEdge_new_def)
  have r: "SEdge_new (m_right (?E ! (2 * k))) (m_left (?E ! (2 * k))) (m_edge_id (?E ! (2 * k))) = ?E ! (2 * k + 1)"
    using m by (intro SEdge.equality) (simp_all add: SEdge_new_def mirrored_def)
  have id: "m_edge_id (SEdge_new left right i) = i" for left right i by (simp add: SEdge_new_def)
  show ?thesis
    using len f r by (auto simp: ReplaceEdge_shape id list_eq_iff_nth_eq nth_list_update)
qed

subsection \<open>Properties\<close>

text \<open>
  \<^bold>\<open>C23\<close> A new graph, \<^verbatim>\<open>AddEdge\<close> and \<^verbatim>\<open>ReplaceEdge\<close> keep the index of the graph exact: the incidence lists of every
  node hold the edges with that node on their left side once each, simple and complex apart, and the
  cached simple neighborhood is the union of the right sides; edges come in mirrored pairs.
\<close>
theorem graph_operations_keep_index:
  assumes "graph_inv g" and "sides_ok (NodeCount g) left right" and "k < LogicalEdgeCount g"
  shows "graph_inv (graph_new n) \<and> graph_inv (AddEdge left right edge_id g) \<and>
    LogicalEdgeCount (AddEdge left right edge_id g) = LogicalEdgeCount g + 1 \<and>
    graph_inv (ReplaceEdge k left right g) \<and> LogicalEdgeCount (ReplaceEdge k left right g) = LogicalEdgeCount g"
  using assms graph_new_inv AddEdge_inv ReplaceEdge_inv
  by (simp add: LogicalEdgeCount_def AddEdge_shape ReplaceEdge_shape)

theorem graph_operations_keep_index_witness:
  "graph_inv (ReplaceEdge 0 {0, 1} {2} (AddEdge {0} {2} 7 (graph_new 3)))"
proof -
  have N: "NodeCount (graph_new 3) = 3" by (simp add: graph_new_def NodeCount_def)
  have "graph_inv (AddEdge {0} {2} 7 (graph_new 3))"
    using N by (intro AddEdge_inv graph_new_inv) (simp add: sides_ok_def)
  moreover have "sides_ok (NodeCount (AddEdge {0} {2} 7 (graph_new 3))) {0, 1} {2}"
    using N by (simp add: AddEdge_shape sides_ok_def)
  moreover have "0 < LogicalEdgeCount (AddEdge {0} {2} 7 (graph_new 3))"
    by (simp add: LogicalEdgeCount_def AddEdge_shape)
  ultimately show ?thesis
    using graph_operations_keep_index by blast
qed

text \<open>
  \<^bold>\<open>C24\<close> Replacing the sides of an edge and putting the old sides back restores the edge array and the
  index of every node, up to the order of the incidence lists.
\<close>
theorem ReplaceEdge_restores:
  assumes "graph_inv g" and "sides_ok (NodeCount g) left right" and "k < LogicalEdgeCount g"
  shows "same_index (ReplaceEdge k (m_left (m_edges g ! (2 * k))) (m_right (m_edges g ! (2 * k)))
    (ReplaceEdge k left right g)) g"
proof (rule same_indexI)
  have "sides_ok (NodeCount g) (m_left (m_edges g ! (2 * k))) (m_right (m_edges g ! (2 * k)))"
    using assms(1,3) by (intro edges_ok_sides) (auto simp: graph_inv_def LogicalEdgeCount_def)
  then show "graph_inv (ReplaceEdge k (m_left (m_edges g ! (2 * k))) (m_right (m_edges g ! (2 * k)))
      (ReplaceEdge k left right g))"
    using assms by (intro ReplaceEdge_inv) (simp_all add: ReplaceEdge_shape LogicalEdgeCount_def)
qed (use assms ReplaceEdge_back_edges in \<open>simp_all add: ReplaceEdge_shape(2)\<close>)

theorem ReplaceEdge_restores_witness:
  "same_index (ReplaceEdge 0 {0} {2} (ReplaceEdge 0 {0, 1} {2} (AddEdge {0} {2} 7 (graph_new 3))))
     (AddEdge {0} {2} 7 (graph_new 3))"
proof -
  let ?g = "AddEdge {0} {2} 7 (graph_new 3)"
  have N: "NodeCount (graph_new 3) = 3" "m_edges (graph_new 3) = []" by (simp_all add: graph_new_def NodeCount_def)
  have "graph_inv ?g"
    using N by (intro AddEdge_inv graph_new_inv) (simp add: sides_ok_def)
  moreover have "sides_ok (NodeCount ?g) {0, 1} {2}" "0 < LogicalEdgeCount ?g"
    using N by (simp_all add: AddEdge_shape sides_ok_def LogicalEdgeCount_def)
  moreover have "m_left (m_edges ?g ! (2 * 0)) = {0}" "m_right (m_edges ?g ! (2 * 0)) = {2}"
    by (simp_all add: AddEdge_shape N SEdge_new_def)
  ultimately show ?thesis
    using ReplaceEdge_restores by metis
qed

end
