(* ===== verification/HyperEnum.thy ===== *)
theory HyperEnum
  imports HyperGraph
begin

text \<open>
  The DPHyp enumerator \<^verbatim>\<open>CDPHyperEnumerator\<close> of \<^verbatim>\<open>libgpopt/src/xforms/CDPHyperGraph.cpp\<close> with its
  neighborhood cache, over an arbitrary receiver (\<^verbatim>\<open>IDPHyperReceiver\<close>).  The receiver is a record of
  functions on its own state.  The recursive functions take fuel and return \<open>None\<close> when it runs out;
  \<open>Enumerate\<close> supplies one more than the number of nodes, which the lemmas show to be enough because
  every recursive call grows a set of nodes.  \<^verbatim>\<open>GPOS_CHECK_ABORT\<close>, which raises when the session was
  cancelled from outside, is not modelled.
\<close>

subsection \<open>Receiver and helpers\<close>

record 'r IDPHyperReceiver =
  FoundSingleNode :: "nat \<Rightarrow> 'r \<Rightarrow> bool \<times> 'r"
  HasSeen :: "nodes \<Rightarrow> 'r \<Rightarrow> bool"
  FoundSubgraphPair :: "nodes \<Rightarrow> nodes \<Rightarrow> nat \<Rightarrow> 'r \<Rightarrow> bool \<times> 'r"

definition PbsLowerNodes :: "nat \<Rightarrow> nodes" where
  "PbsLowerNodes upper_bound = fold insert [0..<upper_bound] {}"

definition LowestBit :: "nodes \<Rightarrow> nat" where
  "LowestBit A = hd (elems A)"

definition PbsLowestBit :: "nodes \<Rightarrow> nodes" where
  "PbsLowestBit A = {LowestBit A}"

subsection \<open>Neighborhood cache\<close>

record CNeighborhoodCache =
  m_taboo :: nodes
  m_last_grown :: nodes
  m_last_neighborhood :: nodes
  m_last_full_neighborhood :: nodes
  m_initialized :: bool

definition cache_new :: "nodes \<Rightarrow> CNeighborhoodCache" where
  "cache_new neighborhood =
     \<lparr>m_taboo = (if 0 < card neighborhood then {hd (elems neighborhood)} else {}),
      m_last_grown = {}, m_last_neighborhood = {}, m_last_full_neighborhood = {}, m_initialized = False\<rparr>"

definition PbsToSearch ::
  "CNeighborhoodCache \<Rightarrow> nodes \<Rightarrow> nodes \<Rightarrow> nodes \<Rightarrow> nodes \<times> nodes \<times> nodes" where
  "PbsToSearch cache just_grown neighborhood full_neighborhood =
     (if m_initialized cache \<and> m_last_grown cache \<subseteq> just_grown
      then (just_grown - m_last_grown cache, neighborhood \<union> m_last_neighborhood cache,
            full_neighborhood \<union> m_last_full_neighborhood cache)
      else (just_grown, neighborhood, full_neighborhood))"

definition Store ::
  "CNeighborhoodCache \<Rightarrow> nodes \<Rightarrow> nodes \<Rightarrow> nodes \<Rightarrow> CNeighborhoodCache" where
  "Store cache just_grown neighborhood full_neighborhood =
     (if just_grown \<inter> m_taboo cache \<noteq> {} then cache
      else cache\<lparr>m_last_grown := just_grown, m_last_neighborhood := neighborhood,
                 m_last_full_neighborhood := full_neighborhood, m_initialized := True\<rparr>)"

subsection \<open>Subsets in numeric order\<close>

fun EnumerateSubsetsRecursive :: "nat list \<Rightarrow> nodes \<Rightarrow> (nodes \<Rightarrow> 's act) \<Rightarrow> 's act" where
  "EnumerateSubsetsRecursive [] current callback = (if 0 < card current then callback current else skip)"
| "EnumerateSubsetsRecursive (b # bits) current callback =
     or_else (EnumerateSubsetsRecursive bits current callback)
       (EnumerateSubsetsRecursive bits (insert b current) callback)"

definition EnumerateSubsets :: "nodes \<Rightarrow> (nodes \<Rightarrow> 's act) \<Rightarrow> 's act" where
  "EnumerateSubsets A callback = EnumerateSubsetsRecursive (rev (elems A)) {} callback"

subsection \<open>Neighborhoods and connections\<close>

definition visit_complex_edge ::
  "CDPHyperGraph \<Rightarrow> nodes \<Rightarrow> nodes \<Rightarrow> nat \<Rightarrow> nodes \<times> nodes \<Rightarrow> nodes \<times> nodes" where
  "visit_complex_edge g subgraph forbidden edge_idx nf =
     (case nf of (neighborhood, full_neighborhood) \<Rightarrow>
        let edge = m_edges g ! edge_idx
        in if \<not> m_left edge \<subseteq> subgraph \<or> m_right edge \<inter> subgraph \<noteq> {} \<or> m_right edge \<inter> forbidden \<noteq> {}
           then (neighborhood, full_neighborhood)
           else (if m_right edge \<inter> neighborhood = {}
                 then neighborhood \<union> PbsLowestBit (m_right edge) else neighborhood,
                 full_neighborhood \<union> m_right edge))"

definition visit_node ::
  "CDPHyperGraph \<Rightarrow> nodes \<Rightarrow> nodes \<Rightarrow> nat \<Rightarrow> nodes \<times> nodes \<Rightarrow> nodes \<times> nodes" where
  "visit_node g subgraph forbidden n nf =
     fold (visit_complex_edge g subgraph forbidden) (m_complex_edges (m_nodes g ! n))
       (fst nf \<union> m_simple_neighborhood (m_nodes g ! n), snd nf)"

definition PbsNeighborhood ::
  "CDPHyperGraph \<Rightarrow> nodes \<Rightarrow> nodes \<Rightarrow> nodes \<Rightarrow> CNeighborhoodCache \<Rightarrow> nodes \<Rightarrow>
     nodes \<times> nodes \<times> CNeighborhoodCache" where
  "PbsNeighborhood g subgraph forbidden just_grown cache full_neighborhood =
     (let (to_search, n0, f0) = PbsToSearch cache just_grown {} full_neighborhood;
          (n1, f1) = fold (visit_node g subgraph forbidden) (elems to_search) (n0, f0);
          neighborhood = n1 - subgraph - forbidden;
          full = f1 \<union> neighborhood
      in (neighborhood, full, Store cache just_grown neighborhood full))"

definition report :: "'r IDPHyperReceiver \<Rightarrow> nodes \<Rightarrow> nodes \<Rightarrow> nat \<Rightarrow> 'r act" where
  "report rcv left right edge_id r = Some (FoundSubgraphPair rcv left right edge_id r)"

definition TryConnecting ::
  "CDPHyperGraph \<Rightarrow> 'r IDPHyperReceiver \<Rightarrow> nodes \<Rightarrow> nodes \<Rightarrow> nodes \<Rightarrow> 'r act" where
  "TryConnecting g rcv subgraph subgraph_full_neighborhood complement =
     for_abort (\<lambda>node_id.
       let node = m_nodes g ! node_id
       in or_else
           (if m_simple_neighborhood node \<inter> subgraph \<noteq> {} then
              for_abort (\<lambda>edge_idx. let edge = m_edges g ! edge_idx in
                if m_right edge \<inter> subgraph \<noteq> {} \<and> m_left edge \<inter> complement \<noteq> {}
                then report rcv subgraph complement (m_edge_id edge) else skip)
              (m_simple_edges node)
            else skip)
           (for_abort (\<lambda>edge_idx. let edge = m_edges g ! edge_idx in
              if node_id = LowestBit (m_left edge) \<and> m_left edge \<subseteq> complement \<and> m_right edge \<subseteq> subgraph
              then report rcv subgraph complement (m_edge_id edge) else skip)
            (m_complex_edges node)))
     (elems (complement \<inter> subgraph_full_neighborhood))"

subsection \<open>Enumeration\<close>

text \<open>Runs an action on a state paired with a cache, which the caller drops afterwards.\<close>

definition with_cache :: "CNeighborhoodCache \<Rightarrow> (CNeighborhoodCache \<times> 'r) act \<Rightarrow> 'r act" where
  "with_cache cache a r = map_option (\<lambda>(b, _, r'). (b, r')) (a (cache, r))"

definition on_receiver :: "'r act \<Rightarrow> CNeighborhoodCache \<Rightarrow> 'r \<Rightarrow> (bool \<times> CNeighborhoodCache \<times> 'r) option" where
  "on_receiver a cache r = map_option (\<lambda>(b, r'). (b, cache, r')) (a r)"

fun ExpandComplement ::
  "nat \<Rightarrow> CDPHyperGraph \<Rightarrow> 'r IDPHyperReceiver \<Rightarrow> nat \<Rightarrow> nodes \<Rightarrow> nodes \<Rightarrow> nodes \<Rightarrow> nodes \<Rightarrow> nodes \<Rightarrow> 'r act"
where
  "ExpandComplement 0 g rcv lowest_node subgraph subgraph_full complement neighborhood forbidden r = None"
| "ExpandComplement (Suc fuel) g rcv lowest_node subgraph subgraph_full complement neighborhood forbidden r =
     or_else
       (EnumerateSubsets neighborhood (\<lambda>grow_by r.
          let grown = complement \<union> grow_by
          in if HasSeen rcv grown r then TryConnecting g rcv subgraph subgraph_full grown r else skip r))
       (with_cache (cache_new neighborhood)
         (EnumerateSubsets neighborhood (\<lambda>grow_by (cache, r).
            let grown = complement \<union> grow_by;
                new_forbidden = (forbidden \<union> neighborhood) - grown;
                (new_neighborhood, new_full, cache') =
                  PbsNeighborhood g grown new_forbidden grow_by cache {}
            in on_receiver
                (ExpandComplement fuel g rcv lowest_node subgraph subgraph_full grown
                   new_neighborhood new_forbidden) cache' r))) r"

definition EnumerateComplements ::
  "CDPHyperGraph \<Rightarrow> 'r IDPHyperReceiver \<Rightarrow> nat \<Rightarrow> nodes \<Rightarrow> nodes \<Rightarrow> nodes \<Rightarrow> 'r act" where
  "EnumerateComplements g rcv lowest_node subgraph full_neighborhood input_neighborhood =
     (let neighborhood = input_neighborhood - subgraph;
          forbidden = PbsLowerNodes lowest_node;
          seeds = rev (elems neighborhood)
      in with_cache (cache_new neighborhood)
          (for_abort (\<lambda>seed_id (cache, r).
             let seed = {seed_id}; node = m_nodes g ! seed_id;
                 new_forbidden = forbidden \<union> subgraph \<union> (PbsLowerNodes seed_id \<inter> neighborhood);
                 (new_neighborhood, new_full, cache') =
                   PbsNeighborhood g seed new_forbidden seed cache {}
             in on_receiver
                 (or_else
                   (if m_simple_neighborhood node \<inter> subgraph \<noteq> {} then
                      for_abort (\<lambda>edge_idx. let edge = m_edges g ! edge_idx in
                        if m_right edge \<inter> subgraph \<noteq> {}
                        then report rcv subgraph seed (m_edge_id edge) else skip)
                      (m_simple_edges node)
                    else skip)
                   (or_else
                     (for_abort (\<lambda>edge_idx. let edge = m_edges g ! edge_idx in
                        if m_left edge = seed \<and> m_right edge \<subseteq> subgraph
                        then report rcv subgraph seed (m_edge_id edge) else skip)
                      (m_complex_edges node))
                     (ExpandComplement (Suc (NodeCount g)) g rcv lowest_node subgraph full_neighborhood
                        seed new_neighborhood new_forbidden))) cache' r)
           seeds))"

fun ExpandSubgraph ::
  "nat \<Rightarrow> CDPHyperGraph \<Rightarrow> 'r IDPHyperReceiver \<Rightarrow> nat \<Rightarrow> nodes \<Rightarrow> nodes \<Rightarrow> nodes \<Rightarrow> nodes \<Rightarrow> 'r act"
where
  "ExpandSubgraph 0 g rcv lowest_node subgraph full_neighborhood neighborhood forbidden r = None"
| "ExpandSubgraph (Suc fuel) g rcv lowest_node subgraph full_neighborhood neighborhood forbidden r =
     with_cache (cache_new neighborhood)
       (or_else
         (EnumerateSubsets neighborhood (\<lambda>grow_by (cache, r).
            let grown = subgraph \<union> grow_by
            in if \<not> HasSeen rcv grown r then skip (cache, r)
               else
                 let (nb, new_full, cache') =
                       PbsNeighborhood g grown forbidden grow_by cache full_neighborhood;
                     high_nodes = PbsLowerNodes (NodeCount g) - PbsLowerNodes lowest_node;
                     previously_forbidden = forbidden \<inter> high_nodes;
                     new_neighborhood = nb \<union> previously_forbidden \<union> neighborhood
                 in on_receiver
                     (EnumerateComplements g rcv lowest_node grown new_full new_neighborhood) cache' r))
         (EnumerateSubsets neighborhood (\<lambda>grow_by (cache, r).
            let grown = subgraph \<union> grow_by;
                new_forbidden = (forbidden \<union> neighborhood) - grown;
                (new_neighborhood, new_full, cache') =
                  PbsNeighborhood g grown new_forbidden grow_by cache full_neighborhood
            in on_receiver
                (ExpandSubgraph fuel g rcv lowest_node grown new_full new_neighborhood new_forbidden) cache' r))) r"

definition Enumerate :: "CDPHyperGraph \<Rightarrow> 'r IDPHyperReceiver \<Rightarrow> 'r act" where
  "Enumerate g rcv =
     for_abort (\<lambda>node_id.
       or_else (\<lambda>r. Some (FoundSingleNode rcv node_id r))
         (let seed = {node_id}; forbidden = PbsLowerNodes node_id;
              (neighborhood, full_neighborhood, cache) =
                PbsNeighborhood g seed forbidden seed (cache_new {}) {}
          in or_else (EnumerateComplements g rcv node_id seed full_neighborhood neighborhood)
              (ExpandSubgraph (Suc (NodeCount g)) g rcv node_id seed full_neighborhood neighborhood
                 (forbidden \<union> seed))))
     (rev [0..<NodeCount g])"

end
