(* ===== verification/HyperEnumCorrect.thy ===== *)
theory HyperEnumCorrect
  imports HyperEnum
begin

text \<open>
  Correctness of the DPHyp enumerator: the order and completeness of the subset enumeration, bounds on
  the computed neighborhoods, termination within the given fuel, and the contract towards the
  receiver.  The contract is a locale: whatever a receiver keeps as invariant when it is told about
  valid pairs, the whole enumeration keeps.
\<close>

subsection \<open>Subset enumeration\<close>

lemma or_else_assoc: "or_else (or_else a b) c = or_else a (or_else b c)"
  by (rule ext) (auto simp: or_else_def split: option.splits bool.splits)

lemma or_else_skip [simp]: "or_else skip a = a" "or_else a skip = a"
  by (rule ext, auto simp: or_else_def skip_def split: option.splits bool.splits)+

lemma for_abort_append: "for_abort f (xs @ ys) = or_else (for_abort f xs) (for_abort f ys)"
  by (induction xs) (simp_all add: or_else_assoc)

fun subset_order :: "nat list \<Rightarrow> nodes \<Rightarrow> nodes list" where
  "subset_order [] current = (if 0 < card current then [current] else [])"
| "subset_order (b # bits) current = subset_order bits current @ subset_order bits (insert b current)"

lemma EnumerateSubsetsRecursive_order:
  "EnumerateSubsetsRecursive bits current callback = for_abort callback (subset_order bits current)"
  by (induction bits arbitrary: current) (simp_all add: for_abort_append)

lemma subset_order_set:
  "finite current \<Longrightarrow> set (subset_order bits current) = {current \<union> B | B. B \<subseteq> set bits} - {{}}"
proof (induction bits arbitrary: current)
  case (Cons b bits)
  have "{current \<union> B | B. B \<subseteq> insert b (set bits)} =
      {current \<union> B | B. B \<subseteq> set bits} \<union> {insert b current \<union> B | B. B \<subseteq> set bits}" (is "?L = ?R")
  proof
    show "?L \<subseteq> ?R"
    proof
      fix X assume "X \<in> ?L"
      then obtain B where B: "X = current \<union> B" "B \<subseteq> insert b (set bits)" by blast
      show "X \<in> ?R"
      proof (cases "b \<in> B")
        case True
        then have "X = insert b current \<union> (B - {b})" "B - {b} \<subseteq> set bits" using B by auto
        then show ?thesis by blast
      next
        case False
        then show ?thesis using B by blast
      qed
    qed
    show "?R \<subseteq> ?L" by (auto intro: exI [of _ "insert b _"])
  qed
  with Cons show ?case by auto
qed (auto simp: card_gt_0_iff)

text \<open>The number that a set of nodes denotes when it is read as a bit mask.\<close>

definition mask_of :: "nodes \<Rightarrow> nat" where
  "mask_of A = (\<Sum>i\<in>A. 2 ^ i)"

lemma mask_of_less:
  assumes "A \<subseteq> {..<n}"
  shows "mask_of A < 2 ^ n"
proof -
  have "mask_of A \<le> mask_of {..<n}" unfolding mask_of_def using assms by (intro sum_mono2) auto
  moreover have "mask_of {..<n} < 2 ^ n" by (induction n) (simp_all add: mask_of_def lessThan_Suc)
  ultimately show ?thesis by simp
qed

lemma mask_of_Un: "finite A \<Longrightarrow> finite B \<Longrightarrow> A \<inter> B = {} \<Longrightarrow> mask_of (A \<union> B) = mask_of A + mask_of B"
  by (simp add: mask_of_def sum.union_disjoint)

lemma subset_order_sorted:
  assumes "sorted_wrt (>) bits" and "finite current" and "\<forall>b\<in>set bits. \<forall>c\<in>current. b < c"
  shows "sorted_wrt (\<lambda>A B. mask_of A < mask_of B) (subset_order bits current)"
  using assms
proof (induction bits arbitrary: current)
  case (Cons b bits)
  let ?lt = "\<lambda>A B. mask_of A < mask_of B"
  have low: "set bits \<subseteq> {..<b}" using Cons.prems(1) by auto
  have cur: "b \<notin> current" "current \<inter> set bits = {}" "set bits \<inter> insert b current = {}"
    using Cons.prems low by force+
  have "?lt A B" if A: "A \<in> set (subset_order bits current)" and B: "B \<in> set (subset_order bits (insert b current))" for A B
  proof -
    obtain X Y where X: "A = current \<union> X" "X \<subseteq> set bits" and Y: "B = insert b current \<union> Y" "Y \<subseteq> set bits"
      using A B Cons.prems(2) by (auto simp: subset_order_set)
    have fin: "finite X" "finite Y" using X(2) Y(2) finite_subset by blast+
    have "mask_of A = mask_of current + mask_of X"
      unfolding X(1) using Cons.prems(2) fin cur X(2) by (intro mask_of_Un) auto
    also have "\<dots> < mask_of current + 2 ^ b" using mask_of_less [of X b] X(2) low by auto
    also have "\<dots> = mask_of (insert b current)" using Cons.prems(2) cur(1) by (simp add: mask_of_def)
    also have "\<dots> \<le> mask_of B" unfolding Y(1) mask_of_def
      using Cons.prems(2) fin by (intro sum_mono2) auto
    finally show ?thesis .
  qed
  moreover have "sorted_wrt ?lt (subset_order bits current)" "sorted_wrt ?lt (subset_order bits (insert b current))"
    using Cons by auto
  ultimately show ?case by (simp add: sorted_wrt_append)
qed simp

lemma rev_elems_sorted: "sorted_wrt (>) (rev (elems A))"
  by (simp add: sorted_wrt_rev)

lemma EnumerateSubsets_order:
  "EnumerateSubsets A callback = for_abort callback (subset_order (rev (elems A)) {})"
  by (simp add: EnumerateSubsets_def EnumerateSubsetsRecursive_order)

lemma keeps_EnumerateSubsets:
  assumes "finite A" and "\<And>B. B \<subseteq> A \<Longrightarrow> B \<noteq> {} \<Longrightarrow> keeps P (callback B)"
  shows "keeps P (EnumerateSubsets A callback)"
  unfolding EnumerateSubsets_order using assms by (intro keeps_for_abort) (auto simp: subset_order_set)

subsection \<open>Neighborhoods\<close>

lemma PbsLowerNodes_eq [simp]: "PbsLowerNodes n = {..<n}"
proof -
  have "fold insert xs A = A \<union> set xs" for xs :: "nat list" and A by (induction xs arbitrary: A) auto
  then show ?thesis by (auto simp: PbsLowerNodes_def)
qed

lemma LowestBit_Min: "finite A \<Longrightarrow> A \<noteq> {} \<Longrightarrow> LowestBit A = Min A"
  by (simp add: LowestBit_def sorted_list_of_set_nonempty)

lemma LowestBit_in: "finite A \<Longrightarrow> A \<noteq> {} \<Longrightarrow> LowestBit A \<in> A"
  by (simp add: LowestBit_Min)

lemma graph_inv_edge:
  assumes "graph_inv g" and "e < length (m_edges g)"
  shows "sides_ok (NodeCount g) (m_left (m_edges g ! e)) (m_right (m_edges g ! e))"
  using assms by (auto simp: graph_inv_def intro: edges_ok_sides)

lemma graph_inv_node:
  assumes "graph_inv g" and "n < NodeCount g"
  shows "set (m_simple_edges (m_nodes g ! n)) =
      {e. e < length (m_edges g) \<and> simple_edge (m_edges g ! e) \<and> n \<in> m_left (m_edges g ! e)}"
    and "set (m_complex_edges (m_nodes g ! n)) =
      {e. e < length (m_edges g) \<and> \<not> simple_edge (m_edges g ! e) \<and> n \<in> m_left (m_edges g ! e)}"
    and "m_simple_neighborhood (m_nodes g ! n) =
      (\<Union>e\<in>set (m_simple_edges (m_nodes g ! n)). m_right (m_edges g ! e))"
  using assms by (auto simp: graph_inv_def attached_def node_ok_def)

lemma simple_neighborhood_bound:
  assumes "graph_inv g" and "n < NodeCount g"
  shows "m_simple_neighborhood (m_nodes g ! n) \<subseteq> {..<NodeCount g}"
  using graph_inv_node [OF assms] graph_inv_edge [OF assms(1)] by (force simp: sides_ok_def)

lemma visit_complex_bound:
  assumes "graph_inv g" and "set es \<subseteq> {..<length (m_edges g)}" and "fst nf \<subseteq> {..<NodeCount g}"
  shows "fst (fold (visit_complex_edge g S F) es nf) \<subseteq> {..<NodeCount g}"
  using assms(2,3)
proof (induction es arbitrary: nf)
  case (Cons e es)
  have ok: "sides_ok (NodeCount g) (m_left (m_edges g ! e)) (m_right (m_edges g ! e))"
    using graph_inv_edge [OF assms(1)] Cons.prems(1) by simp
  have "LowestBit (m_right (m_edges g ! e)) \<in> m_right (m_edges g ! e)"
    using sides_okD [OF ok] by (intro LowestBit_in) auto
  then have "fst (visit_complex_edge g S F e nf) \<subseteq> {..<NodeCount g}"
    using Cons.prems(2) sides_okD(5) [OF ok]
    by (auto simp: visit_complex_edge_def Let_def PbsLowestBit_def case_prod_beta split: if_splits)
  then show ?case using Cons by simp
qed simp

lemma visit_nodes_bound:
  assumes "graph_inv g" and "set ns \<subseteq> {..<NodeCount g}" and "fst nf \<subseteq> {..<NodeCount g}"
  shows "fst (fold (visit_node g S F) ns nf) \<subseteq> {..<NodeCount g}"
  using assms(2,3)
proof (induction ns arbitrary: nf)
  case (Cons n ns)
  then have n: "n < NodeCount g" by simp
  have "fst (visit_node g S F n nf) \<subseteq> {..<NodeCount g}"
    unfolding visit_node_def
    using graph_inv_node(2) [OF assms(1) n] simple_neighborhood_bound [OF assms(1) n] Cons.prems(2)
    by (intro visit_complex_bound [OF assms(1)]) auto
  then show ?case using Cons by simp
qed simp

definition cache_ok :: "CDPHyperGraph \<Rightarrow> CNeighborhoodCache \<Rightarrow> bool" where
  "cache_ok g cache \<longleftrightarrow> m_last_neighborhood cache \<subseteq> {..<NodeCount g}"

lemma cache_new_ok [simp]: "cache_ok g (cache_new A)"
  by (simp add: cache_ok_def cache_new_def)

lemma PbsNeighborhood_bound:
  assumes "graph_inv g" and "cache_ok g cache" and "J \<subseteq> {..<NodeCount g}"
    and "PbsNeighborhood g S F J cache full = (nb, full', cache')"
  shows "nb \<subseteq> {..<NodeCount g}" and "nb \<inter> S = {}" and "nb \<inter> F = {}" and "cache_ok g cache'"
proof -
  obtain ts n0 f0 where ts: "PbsToSearch cache J {} full = (ts, n0, f0)" by (cases "PbsToSearch cache J {} full")
  have b: "ts \<subseteq> {..<NodeCount g}" "n0 \<subseteq> {..<NodeCount g}"
    using ts assms(2,3) by (auto simp: PbsToSearch_def cache_ok_def split: if_splits)
  obtain n1 f1 where n1: "fold (visit_node g S F) (elems ts) (n0, f0) = (n1, f1)"
    by (cases "fold (visit_node g S F) (elems ts) (n0, f0)")
  have "finite ts" using b(1) finite_subset by blast
  then have "n1 \<subseteq> {..<NodeCount g}"
    using visit_nodes_bound [OF assms(1), of "elems ts" "(n0, f0)" S F] b n1 by simp
  moreover have res: "nb = n1 - S - F" "cache' = Store cache J nb full'"
    using assms(4) by (auto simp: PbsNeighborhood_def ts n1 Let_def)
  ultimately show "nb \<subseteq> {..<NodeCount g}" "nb \<inter> S = {}" "nb \<inter> F = {}" by auto
  then show "cache_ok g cache'" using assms(2) by (simp add: res(2) Store_def cache_ok_def)
qed

subsection \<open>Lifting the invariant of a receiver to actions with a cache\<close>

lemma keeps_with_cache:
  assumes "keeps (\<lambda>b (c, r). Q c \<and> P b r) a" and "Q cache"
  shows "keeps P (with_cache cache a)"
proof
  fix r assume "P False r"
  with assms obtain b s where "a (cache, r) = Some (b, s)" "case s of (c, r) \<Rightarrow> Q c \<and> P b r"
    by (auto elim: keepsE [of _ a "(cache, r)"])
  then show "\<exists>b r'. with_cache cache a r = Some (b, r') \<and> P b r'" by (auto simp: with_cache_def)
qed

lemma on_receiver_result:
  assumes "keeps P a" and "P False r"
  shows "\<exists>b r'. on_receiver a cache r = Some (b, cache, r') \<and> P b r'"
  using keepsE [OF assms] by (metis (mono_tags, lifting) case_prod_conv on_receiver_def option.simps(9))

lemma keeps_on_receiver:
  assumes "\<And>cache. Q cache \<Longrightarrow> Q (next_cache cache) \<and> keeps P (body cache)"
  shows "keeps (\<lambda>b (c, r). Q c \<and> P b r) (\<lambda>(cache, r). on_receiver (body cache) (next_cache cache) r)"
proof
  fix s assume s: "case s of (c, r) \<Rightarrow> Q c \<and> P False r"
  obtain c r where [simp]: "s = (c, r)" by (cases s)
  obtain b r' where "on_receiver (body c) (next_cache c) r = Some (b, next_cache c, r')" "P b r'"
    using on_receiver_result [of P "body c" r "next_cache c"] assms [of c] s by auto
  then show "\<exists>b s'. (case s of (cache, r) \<Rightarrow> on_receiver (body cache) (next_cache cache) r) = Some (b, s') \<and>
      (case s' of (c, r) \<Rightarrow> Q c \<and> P b r)"
    using assms [of c] s by auto
qed

subsection \<open>The receiver contract\<close>

text \<open>
  An edge of the graph connects \<open>C\<close> to \<open>S\<close>.  A pair is valid for a graph when its sides are disjoint
  non-empty sets of nodes, connected by the reported edge, with the lowest node on the left; so every
  unordered pair is reported in one orientation only.
\<close>

definition edge_between :: "CDPHyperGraph \<Rightarrow> nodes \<Rightarrow> nodes \<Rightarrow> nat \<Rightarrow> bool" where
  "edge_between g S C edge_id \<longleftrightarrow>
     (\<exists>e<length (m_edges g). m_edge_id (m_edges g ! e) = edge_id \<and>
        m_left (m_edges g ! e) \<subseteq> C \<and> m_right (m_edges g ! e) \<subseteq> S)"

definition pair_ok :: "CDPHyperGraph \<Rightarrow> nodes \<Rightarrow> nodes \<Rightarrow> bool" where
  "pair_ok g S C \<longleftrightarrow> S \<noteq> {} \<and> C \<noteq> {} \<and> S \<inter> C = {} \<and> S \<union> C \<subseteq> {..<NodeCount g} \<and> Min S < Min C"

locale dphyper_receiver =
  fixes g :: CDPHyperGraph
    and rcv :: "'r IDPHyperReceiver"
    and ok :: "bool \<Rightarrow> 'r \<Rightarrow> bool"
  assumes single_ok: "ok False r \<Longrightarrow> n < NodeCount g \<Longrightarrow>
      ok (fst (FoundSingleNode rcv n r)) (snd (FoundSingleNode rcv n r))"
    and single_seen: "ok False r \<Longrightarrow> n < NodeCount g \<Longrightarrow> \<not> fst (FoundSingleNode rcv n r) \<Longrightarrow>
      HasSeen rcv {n} (snd (FoundSingleNode rcv n r))"
    and single_mono: "ok False r \<Longrightarrow> n < NodeCount g \<Longrightarrow> HasSeen rcv A r \<Longrightarrow> HasSeen rcv A (snd (FoundSingleNode rcv n r))"
    and pair_kept: "ok False r \<Longrightarrow> pair_ok g S C \<Longrightarrow> edge_between g S C e \<Longrightarrow> HasSeen rcv S r \<Longrightarrow> HasSeen rcv C r \<Longrightarrow>
      ok (fst (FoundSubgraphPair rcv S C e r)) (snd (FoundSubgraphPair rcv S C e r))"
    and pair_mono: "ok False r \<Longrightarrow> pair_ok g S C \<Longrightarrow> edge_between g S C e \<Longrightarrow> HasSeen rcv S r \<Longrightarrow> HasSeen rcv C r \<Longrightarrow>
      HasSeen rcv A r \<Longrightarrow> HasSeen rcv A (snd (FoundSubgraphPair rcv S C e r))"
begin

definition holds :: "nodes set \<Rightarrow> bool \<Rightarrow> 'r \<Rightarrow> bool" where
  "holds \<S> b r \<longleftrightarrow> ok b r \<and> (\<forall>A\<in>\<S>. HasSeen rcv A r)"

lemma keeps_report:
  assumes "pair_ok g S C" and "edge_between g S C e" and "S \<in> \<S>" and "C \<in> \<S>"
  shows "keeps (holds \<S>) (report rcv S C e)"
proof
  fix r assume "holds \<S> False r"
  then have "holds \<S> (fst (FoundSubgraphPair rcv S C e r)) (snd (FoundSubgraphPair rcv S C e r))"
    using assms pair_kept pair_mono by (simp add: holds_def)
  then show "\<exists>b r'. report rcv S C e r = Some (b, r') \<and> holds \<S> b r'"
    by (metis report_def surjective_pairing)
qed

lemma simple_report_edge:
  assumes "graph_inv g" and "e < length (m_edges g)" and "simple_edge (m_edges g ! e)"
    and "m_right (m_edges g ! e) \<inter> S \<noteq> {}" and "m_left (m_edges g ! e) \<inter> C \<noteq> {}"
  shows "edge_between g S C (m_edge_id (m_edges g ! e))"
  using assms(2-5) unfolding edge_between_def
  by (auto simp: simple_sides_def card_1_singleton_iff)

lemma keeps_TryConnecting:
  assumes "graph_inv g" and "pair_ok g S C" and "S \<in> \<S>" and "C \<in> \<S>"
  shows "keeps (holds \<S>) (TryConnecting g rcv S full C)"
  unfolding TryConnecting_def
proof (intro keeps_for_abort)
  have C: "C \<subseteq> {..<NodeCount g}" using assms(2) by (simp add: pair_ok_def)
  fix n assume "n \<in> set (elems (C \<inter> full))"
  then have n: "n \<in> C" "n < NodeCount g"
    using C finite_subset [OF C] by auto
  note nd = graph_inv_node [OF assms(1) n(2)]
  have 1: "keeps (holds \<S>) (let edge = m_edges g ! e in
      if m_right edge \<inter> S \<noteq> {} \<and> m_left edge \<inter> C \<noteq> {} then report rcv S C (m_edge_id edge) else skip)"
    if "e \<in> set (m_simple_edges (m_nodes g ! n))" for e
    using that nd(1) assms simple_report_edge [OF assms(1)] unfolding Let_def
    by (intro keeps_if keeps_report keeps_skip) auto
  have 2: "keeps (holds \<S>) (let edge = m_edges g ! e in
      if n = LowestBit (m_left edge) \<and> m_left edge \<subseteq> C \<and> m_right edge \<subseteq> S then report rcv S C (m_edge_id edge) else skip)"
    if "e \<in> set (m_complex_edges (m_nodes g ! n))" for e
    using that nd(2) assms unfolding Let_def
    by (intro keeps_if keeps_report keeps_skip) (auto simp: edge_between_def)
  show "keeps (holds \<S>) (let node = m_nodes g ! n in or_else
      (if m_simple_neighborhood node \<inter> S \<noteq> {} then for_abort (\<lambda>e. let edge = m_edges g ! e in
          if m_right edge \<inter> S \<noteq> {} \<and> m_left edge \<inter> C \<noteq> {} then report rcv S C (m_edge_id edge) else skip)
        (m_simple_edges node) else skip)
      (for_abort (\<lambda>e. let edge = m_edges g ! e in
          if n = LowestBit (m_left edge) \<and> m_left edge \<subseteq> C \<and> m_right edge \<subseteq> S then report rcv S C (m_edge_id edge) else skip)
        (m_complex_edges node)))"
    unfolding Let_def [of "m_nodes g ! n"]
    by (intro keeps_or_else keeps_if keeps_for_abort 1 2 keeps_skip)
qed

end

text \<open>
  The situation in which complements of \<open>S\<close> are searched: \<open>S\<close> contains its lowest node \<open>lo\<close>, and \<open>S\<close> as
  well as all single nodes from \<open>lo\<close> on have been seen.
\<close>

definition side_ok :: "CDPHyperGraph \<Rightarrow> nat \<Rightarrow> nodes \<Rightarrow> nodes set \<Rightarrow> bool" where
  "side_ok g lo S \<S> \<longleftrightarrow> lo \<in> S \<and> S \<subseteq> {lo..<NodeCount g} \<and> S \<in> \<S> \<and> (\<forall>n\<in>{lo..<NodeCount g}. {n} \<in> \<S>)"

lemma side_ok_insert: "side_ok g lo S \<S> \<Longrightarrow> side_ok g lo S (insert A \<S>)"
  by (auto simp: side_ok_def)

lemma side_ok_pair:
  assumes "side_ok g lo S \<S>" and "C \<noteq> {}" and "C \<subseteq> {lo<..<NodeCount g}" and "C \<inter> S = {}"
  shows "pair_ok g S C"
proof -
  have fin: "finite S" "finite C" using assms(1,3) finite_subset by (auto simp: side_ok_def)
  have "Min S \<le> lo" using assms(1) fin(1) by (auto simp: side_ok_def)
  moreover have "lo < Min C" using assms(2,3) fin(2) by auto
  ultimately show ?thesis using assms by (auto simp: pair_ok_def side_ok_def)
qed

text \<open>The state of a search for complements: the part found so far, where it may grow, and what it may not touch.\<close>

definition growth_ok :: "CDPHyperGraph \<Rightarrow> nat \<Rightarrow> nodes \<Rightarrow> nodes \<Rightarrow> nodes \<Rightarrow> nodes \<Rightarrow> bool" where
  "growth_ok g lo S C nb F \<longleftrightarrow> C \<noteq> {} \<and> C \<subseteq> {lo<..<NodeCount g} \<and> C \<inter> S = {} \<and>
     nb \<subseteq> {..<NodeCount g} \<and> nb \<inter> C = {} \<and> nb \<inter> F = {} \<and> {..<lo} \<subseteq> F \<and> S \<subseteq> F"

lemma growth_ok_step:
  assumes "side_ok g lo S \<S>" and "growth_ok g lo S C nb F" and "B \<subseteq> nb" and "B \<noteq> {}"
    and "nb' \<subseteq> {..<NodeCount g}" and "nb' \<inter> (C \<union> B) = {}" and "nb' \<inter> ((F \<union> nb) - (C \<union> B)) = {}"
  shows "growth_ok g lo S (C \<union> B) nb' ((F \<union> nb) - (C \<union> B))" and "card C < card (C \<union> B)"
    and "card (C \<union> B) \<le> NodeCount g" and "pair_ok g S (C \<union> B)"
proof -
  have lo: "lo \<in> S" using assms(1) by (simp add: side_ok_def)
  have B: "x \<in> {lo<..<NodeCount g}" if "x \<in> B" for x
  proof -
    have "x < NodeCount g" "x \<notin> F" using that assms(2,3) by (auto simp: growth_ok_def)
    moreover from this have "\<not> x < lo" "x \<noteq> lo" using assms(2) lo by (auto simp: growth_ok_def)
    ultimately show ?thesis by auto
  qed
  show g: "growth_ok g lo S (C \<union> B) nb' ((F \<union> nb) - (C \<union> B))"
    unfolding growth_ok_def
  proof (intro conjI)
    have C: "C \<noteq> {}" "C \<subseteq> {lo<..<NodeCount g}" "C \<inter> S = {}" "nb \<inter> F = {}" "{..<lo} \<subseteq> F" "S \<subseteq> F"
      using assms(2) by (simp_all add: growth_ok_def)
    show "C \<union> B \<noteq> {}" using C(1) by simp
    show "C \<union> B \<subseteq> {lo<..<NodeCount g}" using C(2) B by blast
    show S: "(C \<union> B) \<inter> S = {}" using C(3,4,6) assms(3) by blast
    show "{..<lo} \<subseteq> F \<union> nb - (C \<union> B)" using C(2,5) B by fastforce
    show "S \<subseteq> F \<union> nb - (C \<union> B)" using C(6) S by blast
  qed (use assms(5-7) in simp_all)
  have fin: "finite (C \<union> B)" using g finite_subset by (auto simp: growth_ok_def)
  moreover have "C \<inter> B = {}" using assms(2,3) by (auto simp: growth_ok_def)
  ultimately show "card C < card (C \<union> B)" using assms(4) by (intro psubset_card_mono) auto
  have "C \<union> B \<subseteq> {..<NodeCount g}" using g by (auto simp: growth_ok_def)
  then show "card (C \<union> B) \<le> NodeCount g" using card_mono [of "{..<NodeCount g}"] by simp
  show "pair_ok g S (C \<union> B)" using assms(1) g by (intro side_ok_pair) (auto simp: growth_ok_def)
qed

context dphyper_receiver
begin

lemma holds_weaken: "holds (insert A \<S>) b r \<Longrightarrow> holds \<S> b r"
  by (simp add: holds_def)

lemma keeps_when_seen:
  assumes "keeps (holds (insert A \<S>)) a"
  shows "keeps (holds \<S>) (\<lambda>r. if HasSeen rcv A r then a r else skip r)"
proof
  fix r assume h: "holds \<S> False r"
  show "\<exists>b r'. (if HasSeen rcv A r then a r else skip r) = Some (b, r') \<and> holds \<S> b r'"
  proof (cases "HasSeen rcv A r")
    case True
    then have "holds (insert A \<S>) False r" using h by (simp add: holds_def)
    with assms obtain b r' where "a r = Some (b, r')" "holds (insert A \<S>) b r'" by (rule keepsE)
    then show ?thesis using True holds_weaken by auto
  qed (use h in \<open>auto simp: skip_def\<close>)
qed

text \<open>The second pass of the expansion functions: the body computes a neighborhood and recurses.\<close>

lemma keeps_grow:
  assumes "finite nb"
    and "\<And>B cache. B \<subseteq> nb \<Longrightarrow> B \<noteq> {} \<Longrightarrow> cache_ok g cache \<Longrightarrow>
      cache_ok g (next_cache B cache) \<and> keeps (holds \<S>) (body B cache)"
  shows "keeps (\<lambda>b (c, r). cache_ok g c \<and> holds \<S> b r)
    (EnumerateSubsets nb (\<lambda>B (cache, r). on_receiver (body B cache) (next_cache B cache) r))"
  using assms by (intro keeps_EnumerateSubsets keeps_on_receiver) blast+

lemma keeps_ExpandComplement:
  assumes "graph_inv g" and "side_ok g lo S \<S>" and "growth_ok g lo S C nb F" and "NodeCount g < fuel + card C"
  shows "keeps (holds \<S>) (ExpandComplement fuel g rcv lo S full C nb F)"
  using assms(3,4)
proof (induction fuel arbitrary: C nb F)
  case 0
  have "C \<subseteq> {..<NodeCount g}" using 0(1) by (auto simp: growth_ok_def)
  then have "card C \<le> NodeCount g" using card_mono [of "{..<NodeCount g}" C] by simp
  with 0(2) show ?case by simp
next
  case (Suc fuel)
  let ?nf = "\<lambda>B. (F \<union> nb) - (C \<union> B)"
  let ?ph = "\<lambda>B cache. PbsNeighborhood g (C \<union> B) (?nf B) B cache {}"
  have nb: "nb \<subseteq> {..<NodeCount g}" using Suc.prems(1) by (simp add: growth_ok_def)
  have fin: "finite nb" using finite_subset [OF nb] by simp
  have step: "growth_ok g lo S (C \<union> B) (fst (?ph B cache)) (?nf B) \<and> cache_ok g (snd (snd (?ph B cache))) \<and>
      card C < card (C \<union> B) \<and> pair_ok g S (C \<union> B)"
    if B: "B \<subseteq> nb" "B \<noteq> {}" and c: "cache_ok g cache" for B cache
  proof -
    have "B \<subseteq> {..<NodeCount g}" using B(1) nb by blast
    note b = PbsNeighborhood_bound [OF assms(1) c this, of "C \<union> B" "?nf B" "{}" "fst (?ph B cache)"
        "fst (snd (?ph B cache))" "snd (snd (?ph B cache))"]
    show ?thesis using growth_ok_step [OF assms(2) Suc.prems(1) B, of "fst (?ph B cache)"] b by simp
  qed
  have "keeps (holds \<S>) (EnumerateSubsets nb (\<lambda>B r. if HasSeen rcv (C \<union> B) r
      then TryConnecting g rcv S full (C \<union> B) r else skip r))"
  proof (rule keeps_EnumerateSubsets [OF fin], rule keeps_when_seen)
    fix B assume "B \<subseteq> nb" "B \<noteq> {}"
    then show "keeps (holds (insert (C \<union> B) \<S>)) (TryConnecting g rcv S full (C \<union> B))"
      using step [of B "cache_new nb"] assms(1,2) by (intro keeps_TryConnecting) (auto simp: side_ok_def)
  qed
  moreover have "keeps (holds \<S>) (with_cache (cache_new nb) (EnumerateSubsets nb (\<lambda>B (cache, r).
      on_receiver (ExpandComplement fuel g rcv lo S full (C \<union> B) (fst (?ph B cache)) (?nf B))
        (snd (snd (?ph B cache))) r)))"
  proof (rule keeps_with_cache [of "cache_ok g"], rule keeps_grow [OF fin])
    fix B cache assume "B \<subseteq> nb" "B \<noteq> {}" "cache_ok g cache"
    note st = step [OF this]
    have "NodeCount g < fuel + card (C \<union> B)" using st Suc.prems(2) by linarith
    then show "cache_ok g (snd (snd (?ph B cache))) \<and>
        keeps (holds \<S>) (ExpandComplement fuel g rcv lo S full (C \<union> B) (fst (?ph B cache)) (?nf B))"
      using st Suc.IH by blast
  qed simp
  ultimately have "keeps (holds \<S>) (or_else (EnumerateSubsets nb (\<lambda>B r. if HasSeen rcv (C \<union> B) r
      then TryConnecting g rcv S full (C \<union> B) r else skip r))
    (with_cache (cache_new nb) (EnumerateSubsets nb (\<lambda>B (cache, r).
      on_receiver (ExpandComplement fuel g rcv lo S full (C \<union> B) (fst (?ph B cache)) (?nf B))
        (snd (snd (?ph B cache))) r))))"
    by (rule keeps_or_else)
  then show ?case by (auto simp: keeps_def Let_def case_prod_beta)
qed

end

text \<open>The first growth state of a complement: a single seed.\<close>

lemma growth_ok_seed:
  assumes "side_ok g lo S \<S>" and "seed \<in> nb" and "nb \<subseteq> {lo..<NodeCount g}" and "nb \<inter> S = {}"
    and "nb' \<subseteq> {..<NodeCount g}" and "nb' \<inter> {seed} = {}" and "nb' \<inter> ({..<lo} \<union> S \<union> ({..<seed} \<inter> nb)) = {}"
  shows "growth_ok g lo S {seed} nb' ({..<lo} \<union> S \<union> ({..<seed} \<inter> nb))" and "pair_ok g S {seed}"
proof -
  have seed: "seed \<in> {lo<..<NodeCount g}" "seed \<notin> S"
    using assms(1-4) by (auto simp: side_ok_def order_less_le)
  show "growth_ok g lo S {seed} nb' ({..<lo} \<union> S \<union> ({..<seed} \<inter> nb))"
    unfolding growth_ok_def using seed assms(5-7) by (intro conjI) auto
  show "pair_ok g S {seed}" using seed by (intro side_ok_pair [OF assms(1)]) auto
qed

context dphyper_receiver
begin

lemma keeps_EnumerateComplements:
  assumes "graph_inv g" and "side_ok g lo S \<S>" and "input \<subseteq> {lo..<NodeCount g}"
  shows "keeps (holds \<S>) (EnumerateComplements g rcv lo S full input)"
proof -
  let ?nb = "input - S"
  let ?nf = "\<lambda>seed. {..<lo} \<union> S \<union> ({..<seed} \<inter> ?nb)"
  let ?ph = "\<lambda>seed cache. PbsNeighborhood g {seed} (?nf seed) {seed} cache {}"
  let ?node = "\<lambda>seed. m_nodes g ! seed"
  let ?body = "\<lambda>seed cache. or_else
      (if m_simple_neighborhood (?node seed) \<inter> S \<noteq> {} then
         for_abort (\<lambda>e. if m_right (m_edges g ! e) \<inter> S \<noteq> {}
           then report rcv S {seed} (m_edge_id (m_edges g ! e)) else skip) (m_simple_edges (?node seed))
       else skip)
      (or_else
        (for_abort (\<lambda>e. if m_left (m_edges g ! e) = {seed} \<and> m_right (m_edges g ! e) \<subseteq> S
           then report rcv S {seed} (m_edge_id (m_edges g ! e)) else skip) (m_complex_edges (?node seed)))
        (ExpandComplement (Suc (NodeCount g)) g rcv lo S full {seed} (fst (?ph seed cache)) (?nf seed)))"
  have nb: "?nb \<subseteq> {lo..<NodeCount g}" "?nb \<inter> S = {}" using assms(3) by auto
  have fin: "finite ?nb" using finite_subset [OF nb(1)] by simp
  have body: "cache_ok g (snd (snd (?ph seed cache))) \<and> keeps (holds \<S>) (?body seed cache)"
    if seed: "seed \<in> ?nb" and c: "cache_ok g cache" for seed cache
  proof -
    have sN: "seed < NodeCount g" using seed nb by auto
    note b = PbsNeighborhood_bound [OF assms(1) c, of "{seed}" "{seed}" "?nf seed" "{}" "fst (?ph seed cache)"
        "fst (snd (?ph seed cache))" "snd (snd (?ph seed cache))"]
    have gr: "growth_ok g lo S {seed} (fst (?ph seed cache)) (?nf seed)" and pair: "pair_ok g S {seed}"
      using growth_ok_seed [OF assms(2) seed nb, of "fst (?ph seed cache)"] b sN by auto
    have mem: "S \<in> \<S>" "{seed} \<in> \<S>" using assms(2) seed nb by (auto simp: side_ok_def)
    note nd = graph_inv_node [OF assms(1) sN]
    have "keeps (holds \<S>) (?body seed cache)"
      using nd(1,2) mem pair gr simple_report_edge [OF assms(1)]
      by (intro keeps_or_else keeps_if keeps_for_abort keeps_report keeps_skip
          keeps_ExpandComplement [OF assms(1,2)]) (auto simp: edge_between_def)
    then show ?thesis using b sN by simp
  qed
  have "keeps (\<lambda>b (c, r). cache_ok g c \<and> holds \<S> b r)
      (for_abort (\<lambda>seed (cache, r). on_receiver (?body seed cache) (snd (snd (?ph seed cache))) r) (rev (elems ?nb)))"
    using body fin by (intro keeps_for_abort keeps_on_receiver) simp
  then have "keeps (holds \<S>) (with_cache (cache_new ?nb)
      (for_abort (\<lambda>seed (cache, r). on_receiver (?body seed cache) (snd (snd (?ph seed cache))) r) (rev (elems ?nb))))"
    by (rule keeps_with_cache) simp
  then show ?thesis unfolding EnumerateComplements_def Let_def case_prod_beta PbsLowerNodes_eq .
qed

end

text \<open>The situation of \<^verbatim>\<open>ExpandSubgraph\<close>: the set grows into \<open>nb\<close>, above its lowest node \<open>lo\<close>.\<close>

definition expand_ok :: "CDPHyperGraph \<Rightarrow> nat \<Rightarrow> nodes \<Rightarrow> nodes \<Rightarrow> nodes \<Rightarrow> bool" where
  "expand_ok g lo S nb F \<longleftrightarrow> lo \<in> S \<and> S \<subseteq> {lo..<NodeCount g} \<and> nb \<subseteq> {..<NodeCount g} \<and>
     nb \<inter> S = {} \<and> nb \<inter> F = {} \<and> {..<lo} \<subseteq> F"

lemma expand_ok_step:
  assumes "expand_ok g lo S nb F" and "B \<subseteq> nb" and "B \<noteq> {}"
  shows "lo \<in> S \<union> B" and "S \<union> B \<subseteq> {lo..<NodeCount g}" and "card S < card (S \<union> B)"
    and "nb \<subseteq> {lo..<NodeCount g}"
    and "{..<lo} \<subseteq> (F \<union> nb) - (S \<union> B)"
proof -
  have e: "lo \<in> S" "S \<subseteq> {lo..<NodeCount g}" "nb \<subseteq> {..<NodeCount g}" "nb \<inter> S = {}" "nb \<inter> F = {}" "{..<lo} \<subseteq> F"
    using assms(1) by (simp_all add: expand_ok_def)
  show nb: "nb \<subseteq> {lo..<NodeCount g}"
  proof
    fix x assume "x \<in> nb"
    then have "x < NodeCount g" "x \<notin> F" using e(3,5) by auto
    then show "x \<in> {lo..<NodeCount g}" using e(6) by (cases "x < lo") auto
  qed
  then show S: "S \<union> B \<subseteq> {lo..<NodeCount g}" using e(2) assms(2) by blast
  show "lo \<in> S \<union> B" using e(1) by simp
  have "finite (S \<union> B)" using finite_subset [OF S] by simp
  then show "card S < card (S \<union> B)" using assms(2,3) e(4) by (intro psubset_card_mono) auto
  have "x \<notin> S \<union> B" if "x < lo" for x using S that by (meson atLeastLessThan_iff not_le subsetD)
  then show "{..<lo} \<subseteq> (F \<union> nb) - (S \<union> B)" using e(6) by blast
qed

context dphyper_receiver
begin

abbreviation singles :: "nat \<Rightarrow> nodes set" where
  "singles lo \<equiv> {{n} | n. n \<in> {lo..<NodeCount g}}"

lemma keeps_complement_pass:
  assumes "graph_inv g" and "expand_ok g lo S nb F"
  shows "keeps (\<lambda>b (c, r). cache_ok g c \<and> holds (singles lo) b r)
    (EnumerateSubsets nb (\<lambda>B (cache, r).
       let grown = S \<union> B in
       if \<not> HasSeen rcv grown r then skip (cache, r)
       else let (n', new_full, cache') = PbsNeighborhood g grown F B cache full;
                high_nodes = PbsLowerNodes (NodeCount g) - PbsLowerNodes lo;
                previously_forbidden = F \<inter> high_nodes;
                new_neighborhood = n' \<union> previously_forbidden \<union> nb
            in on_receiver (EnumerateComplements g rcv lo grown new_full new_neighborhood) cache' r))"
    (is "keeps ?P (EnumerateSubsets nb ?callback)")
proof (rule keeps_EnumerateSubsets)
  have nb: "nb \<subseteq> {..<NodeCount g}" using assms(2) by (simp add: expand_ok_def)
  show "finite nb" using finite_subset [OF nb] by simp
  fix B assume B: "B \<subseteq> nb" "B \<noteq> {}"
  note st = expand_ok_step [OF assms(2) B]
  let ?ph = "\<lambda>cache. PbsNeighborhood g (S \<union> B) F B cache full"
  let ?new = "\<lambda>cache. fst (?ph cache) \<union> F \<inter> ({..<NodeCount g} - {..<lo}) \<union> nb"
  let ?body = "\<lambda>cache. EnumerateComplements g rcv lo (S \<union> B) (fst (snd (?ph cache))) (?new cache)"
  have body: "cache_ok g (snd (snd (?ph cache))) \<and>
      keeps (holds (singles lo)) (\<lambda>r. if HasSeen rcv (S \<union> B) r then ?body cache r else skip r)"
    if c: "cache_ok g cache" for cache
  proof -
    have "B \<subseteq> {..<NodeCount g}" using B(1) nb by blast
    note b = PbsNeighborhood_bound [OF assms(1) c this, of "S \<union> B" F full "fst (?ph cache)"
        "fst (snd (?ph cache))" "snd (snd (?ph cache))"]
    have "x \<notin> fst (?ph cache)" if "x < lo" for x
      using b(3) that assms(2) by (auto simp: expand_ok_def)
    then have "?new cache \<subseteq> {lo..<NodeCount g}" using b(1) st(4) by (auto simp: not_less [symmetric])
    moreover have "side_ok g lo (S \<union> B) (insert (S \<union> B) (singles lo))"
      using st(1,2) by (auto simp: side_ok_def)
    ultimately have "keeps (holds (insert (S \<union> B) (singles lo))) (?body cache)"
      by (intro keeps_EnumerateComplements [OF assms(1)])
    then show ?thesis using b(4) keeps_when_seen by simp
  qed
  show "keeps ?P (?callback B)"
  proof
    fix s assume s: "?P False s"
    obtain c r where [simp]: "s = (c, r)" by (cases s)
    have c: "cache_ok g c" and h: "holds (singles lo) False r" using s by simp_all
    show "\<exists>b s'. ?callback B s = Some (b, s') \<and> ?P b s'"
    proof (cases "HasSeen rcv (S \<union> B) r")
      case True
      have "keeps (holds (singles lo)) (\<lambda>r. if HasSeen rcv (S \<union> B) r then ?body c r else skip r)"
        using body [OF c] by blast
      then obtain b r' where "?body c r = Some (b, r')" "holds (singles lo) b r'"
        using h True by (auto elim!: keepsE [where s = r])
      then show ?thesis using True body [OF c] by (simp add: Let_def case_prod_beta on_receiver_def)
    qed (use c h in \<open>auto simp: skip_def\<close>)
  qed
qed

lemma keeps_ExpandSubgraph:
  assumes "graph_inv g" and "expand_ok g lo S nb F" and "NodeCount g < fuel + card S"
  shows "keeps (holds (singles lo)) (ExpandSubgraph fuel g rcv lo S full nb F)"
  using assms(2,3)
proof (induction fuel arbitrary: S full nb F)
  case 0
  have "S \<subseteq> {..<NodeCount g}" using 0(1) by (auto simp: expand_ok_def)
  then have "card S \<le> NodeCount g" using card_mono [of "{..<NodeCount g}" S] by simp
  with 0(2) show ?case by simp
next
  case (Suc fuel)
  let ?nf = "\<lambda>B. (F \<union> nb) - (S \<union> B)"
  let ?ph = "\<lambda>B cache. PbsNeighborhood g (S \<union> B) (?nf B) B cache full"
  let ?P = "\<lambda>b (c, r). cache_ok g c \<and> holds (singles lo) b r"
  have nb: "nb \<subseteq> {..<NodeCount g}" using Suc.prems(1) by (simp add: expand_ok_def)
  have fin: "finite nb" using finite_subset [OF nb] by simp
  have second: "keeps ?P (EnumerateSubsets nb (\<lambda>B (cache, r). on_receiver
      (ExpandSubgraph fuel g rcv lo (S \<union> B) (fst (snd (?ph B cache))) (fst (?ph B cache)) (?nf B))
      (snd (snd (?ph B cache))) r))"
  proof (rule keeps_grow [OF fin])
    fix B cache assume B: "B \<subseteq> nb" "B \<noteq> {}" and c: "cache_ok g cache"
    note st = expand_ok_step [OF Suc.prems(1) B]
    have "B \<subseteq> {..<NodeCount g}" using B(1) nb by blast
    note b = PbsNeighborhood_bound [OF assms(1) c this, of "S \<union> B" "?nf B" full "fst (?ph B cache)"
        "fst (snd (?ph B cache))" "snd (snd (?ph B cache))"]
    have "expand_ok g lo (S \<union> B) (fst (?ph B cache)) (?nf B)"
      unfolding expand_ok_def using st b by (intro conjI) simp_all
    moreover have "NodeCount g < fuel + card (S \<union> B)" using st(3) Suc.prems(2) by linarith
    ultimately show "cache_ok g (snd (snd (?ph B cache))) \<and> keeps (holds (singles lo))
        (ExpandSubgraph fuel g rcv lo (S \<union> B) (fst (snd (?ph B cache))) (fst (?ph B cache)) (?nf B))"
      using b(4) Suc.IH by simp
  qed
  have "keeps (holds (singles lo)) (with_cache (cache_new nb) (or_else
      (EnumerateSubsets nb (\<lambda>B (cache, r).
         let grown = S \<union> B in
         if \<not> HasSeen rcv grown r then skip (cache, r)
         else let (n', new_full, cache') = PbsNeighborhood g grown F B cache full;
                  high_nodes = PbsLowerNodes (NodeCount g) - PbsLowerNodes lo;
                  previously_forbidden = F \<inter> high_nodes;
                  new_neighborhood = n' \<union> previously_forbidden \<union> nb
              in on_receiver (EnumerateComplements g rcv lo grown new_full new_neighborhood) cache' r))
      (EnumerateSubsets nb (\<lambda>B (cache, r). on_receiver
        (ExpandSubgraph fuel g rcv lo (S \<union> B) (fst (snd (?ph B cache))) (fst (?ph B cache)) (?nf B))
        (snd (snd (?ph B cache))) r))))"
    by (rule keeps_with_cache [of "cache_ok g"],
        rule keeps_or_else [OF keeps_complement_pass [OF assms(1) Suc.prems(1)] second]) simp
  then show ?case by (auto simp: keeps_def Let_def case_prod_beta)
qed

text \<open>
  The whole enumeration ends, in a state that satisfies the receiver's invariant; if it was not
  aborted, every single node has been seen.
\<close>

lemma Enumerate_prefix:
  assumes "graph_inv g" and "k \<le> NodeCount g" and "holds (singles k) False r"
  defines "body \<equiv> \<lambda>node_id.
       or_else (\<lambda>r. Some (FoundSingleNode rcv node_id r))
         (let seed = {node_id}; forbidden = PbsLowerNodes node_id;
              (neighborhood, full_neighborhood, cache) =
                PbsNeighborhood g seed forbidden seed (cache_new {}) {}
          in or_else (EnumerateComplements g rcv node_id seed full_neighborhood neighborhood)
              (ExpandSubgraph (Suc (NodeCount g)) g rcv node_id seed full_neighborhood neighborhood
                 (forbidden \<union> seed)))"
  shows "\<exists>b r'. for_abort body (rev [0..<k]) r = Some (b, r') \<and> ok b r' \<and> (\<not> b \<longrightarrow> holds (singles 0) False r')"
  using assms(2,3)
proof (induction k arbitrary: r)
  case 0
  then show ?case by (auto simp: skip_def holds_def)
next
  case (Suc k)
  let ?ph = "PbsNeighborhood g {k} {..<k} {k} (cache_new {}) {}"
  let ?r1 = "snd (FoundSingleNode rcv k r)"
  let ?rest = "or_else (EnumerateComplements g rcv k {k} (fst (snd ?ph)) (fst ?ph))
     (ExpandSubgraph (Suc (NodeCount g)) g rcv k {k} (fst (snd ?ph)) (fst ?ph) ({..<k} \<union> {k}))"
  have k: "k < NodeCount g" using Suc.prems(1) by simp
  have r1: "ok (fst (FoundSingleNode rcv k r)) ?r1" using single_ok k Suc.prems(2) by (simp add: holds_def)
  have body: "body k r = (if fst (FoundSingleNode rcv k r) then Some (True, ?r1) else ?rest ?r1)"
    by (cases "FoundSingleNode rcv k r") (simp add: body_def or_else_def Let_def case_prod_beta)
  show ?case
  proof (cases "fst (FoundSingleNode rcv k r)")
    case True
    then show ?thesis using r1 body by (auto simp: or_else_def)
  next
    case False
    have ok: "ok False r" using Suc.prems(2) by (simp add: holds_def)
    have "HasSeen rcv {n} ?r1" if n: "n \<in> {k..<NodeCount g}" for n
    proof (cases "n = k")
      case True
      then show ?thesis using single_seen [OF ok k False] by simp
    next
      case False
      then have "HasSeen rcv {n} r" using n Suc.prems(2) by (auto simp: holds_def)
      then show ?thesis by (rule single_mono [OF ok k])
    qed
    then have h: "holds (singles k) False ?r1" using r1 False by (auto simp: holds_def)
    have b: "fst ?ph \<subseteq> {..<NodeCount g}" "fst ?ph \<inter> {k} = {}" "fst ?ph \<inter> {..<k} = {}"
      using PbsNeighborhood_bound [OF assms(1), of "cache_new {}" "{k}" "{k}" "{..<k}" "{}" "fst ?ph" "fst (snd ?ph)" "snd (snd ?ph)"] k
      by simp_all
    have "keeps (holds (singles k)) (EnumerateComplements g rcv k {k} (fst (snd ?ph)) (fst ?ph))"
      using b k by (intro keeps_EnumerateComplements [OF assms(1)]) (force simp: side_ok_def)+
    moreover have "keeps (holds (singles k)) (ExpandSubgraph (Suc (NodeCount g)) g rcv k {k} (fst (snd ?ph)) (fst ?ph) ({..<k} \<union> {k}))"
      using b k by (intro keeps_ExpandSubgraph [OF assms(1)]) (auto simp: expand_ok_def)
    ultimately have "keeps (holds (singles k)) ?rest" by (rule keeps_or_else)
    then obtain b' r2 where r2: "?rest ?r1 = Some (b', r2)" "holds (singles k) b' r2" using h by (rule keepsE)
    show ?thesis
    proof (cases b')
      case True
      then show ?thesis using r2 body False by (auto simp: or_else_def holds_def)
    next
      case False2: False
      obtain c r3 where "for_abort body (rev [0..<k]) r2 = Some (c, r3) \<and> ok c r3 \<and> (\<not> c \<longrightarrow> holds (singles 0) False r3)"
        using Suc.IH [of r2] r2(2) False2 k by auto
      then show ?thesis using r2 body False False2 by (auto simp: or_else_def)
    qed
  qed
qed

lemma Enumerate_kept:
  assumes "graph_inv g" and "ok False r"
  shows "\<exists>b r'. Enumerate g rcv r = Some (b, r') \<and> ok b r' \<and>
    (\<not> b \<longrightarrow> (\<forall>n<NodeCount g. HasSeen rcv {n} r'))"
proof -
  have "holds (singles (NodeCount g)) False r" using assms(2) by (auto simp: holds_def)
  then obtain b r' where "Enumerate g rcv r = Some (b, r')" "ok b r'" "\<not> b \<longrightarrow> holds (singles 0) False r'"
    using Enumerate_prefix [OF assms(1) order_refl] unfolding Enumerate_def by blast
  moreover have "\<forall>n<NodeCount g. HasSeen rcv {n} r'" if "holds (singles 0) False r'"
    using that by (auto simp: holds_def)
  ultimately show ?thesis by blast
qed

end

subsection \<open>Properties\<close>

text \<open>
  \<^bold>\<open>C25\<close> \<^verbatim>\<open>EnumerateSubsets\<close> calls back for every non-empty subset of the given set exactly once, in the
  ascending order of the subsets' bit masks, until the first callback asks to stop.
\<close>
theorem EnumerateSubsets_mask_order:
  assumes "finite A"
  shows "\<exists>subsets. EnumerateSubsets A callback = for_abort callback subsets \<and>
    set subsets = {B. B \<subseteq> A \<and> B \<noteq> {}} \<and> sorted_wrt (\<lambda>B C. mask_of B < mask_of C) subsets \<and> distinct subsets"
proof (intro exI conjI)
  let ?s = "subset_order (rev (elems A)) {}"
  show "EnumerateSubsets A callback = for_abort callback ?s"
    by (rule EnumerateSubsets_order)
  show "set ?s = {B. B \<subseteq> A \<and> B \<noteq> {}}"
    using assms by (auto simp: subset_order_set)
  show sorted: "sorted_wrt (\<lambda>B C. mask_of B < mask_of C) ?s"
    by (rule subset_order_sorted [OF rev_elems_sorted]) simp_all
  then have "sorted_wrt (<) (map mask_of ?s)"
    by (simp add: sorted_wrt_map)
  then show "distinct ?s"
    using strict_sorted_iff distinct_map by blast
qed

theorem EnumerateSubsets_mask_order_witness:
  "\<exists>subsets. EnumerateSubsets {1, 4} (\<lambda>B seen. Some (False, B # seen)) = for_abort (\<lambda>B seen. Some (False, B # seen)) subsets \<and>
     set subsets = {B. B \<subseteq> {1, 4} \<and> B \<noteq> {}} \<and> distinct subsets"
  using EnumerateSubsets_mask_order [of "{1, 4}" "\<lambda>B seen. Some (False, B # seen)"] by auto

end
