(* ===== verification/BitVector.thy ===== *)
theory BitVector
  imports Prelude
begin

text \<open>
  The fixed-size bit vector of \<^verbatim>\<open>libgpos/src/common/CBitVector.cpp\<close> and the hash functions of
  \<^verbatim>\<open>libgpos/src/utils.cpp\<close> it uses.  A vector of \<open>m_nbits\<close> bits is stored in \<open>m_len\<close> units of 64
  bits.  The abstraction \<open>bv_bits\<close> reads a vector as the set of its set positions; every operation
  is shown to compute the set operation it is named after.  A read or write past the end of
  \<open>m_vec\<close> is undefined behaviour in the code (guarded by \<^verbatim>\<open>GPOS_ASSERT\<close>) and an unspecified value in
  the model, so positions are hypotheses of the lemmas.
\<close>

subsection \<open>Hash functions\<close>

text \<open>
  \<^verbatim>\<open>memcpy\<close> of eight bytes into a \<^verbatim>\<open>ULLONG\<close>: the first byte is the least significant one on the
  little-endian targets the source names (x86-64 and ARMv8).
\<close>

fun load_le :: "byte list \<Rightarrow> ullong" where
  "load_le [] = 0"
| "load_le (b # bs) = ucast b + push_bit 8 (load_le bs)"

fun store_le :: "nat \<Rightarrow> ullong \<Rightarrow> byte list" where
  "store_le 0 w = []"
| "store_le (Suc n) w = ucast w # store_le n (drop_bit 8 w)"

definition FNV_OFFSET :: ullong where
  "FNV_OFFSET = 0xcbf29ce484222325"

definition FNV_PRIME :: ullong where
  "FNV_PRIME = 0x100000001b3"

text \<open>The two loops of \<^verbatim>\<open>HashByteArray\<close>: whole words while at least eight bytes are left, then bytes.\<close>

fun hash_bytes_loop :: "ullong \<Rightarrow> byte list \<Rightarrow> ullong" where
  "hash_bytes_loop h (b0 # b1 # b2 # b3 # b4 # b5 # b6 # b7 # rest) =
     hash_bytes_loop ((h XOR load_le [b0, b1, b2, b3, b4, b5, b6, b7]) * FNV_PRIME) rest"
| "hash_bytes_loop h (b # rest) = hash_bytes_loop ((h XOR ucast b) * FNV_PRIME) rest"
| "hash_bytes_loop h [] = h"

definition HashByteArray :: "byte list \<Rightarrow> hash32" where
  "HashByteArray bytes =
     (let h = hash_bytes_loop (FNV_OFFSET XOR of_nat (length bytes)) bytes
      in ucast (h XOR drop_bit 32 h))"

definition CombineHashes :: "hash32 \<Rightarrow> hash32 \<Rightarrow> hash32" where
  "CombineHashes hash1 hash2 =
     (let h0 = push_bit 32 (ucast hash1) OR (ucast hash2 :: ullong);
          h = (h0 XOR FNV_OFFSET) * FNV_PRIME
      in ucast (h XOR drop_bit 32 h))"

subsection \<open>State and operations\<close>

record CBitVector =
  m_nbits :: ulong
  m_len :: ulong
  m_vec :: "ullong list"

definition BITS_PER_UNIT :: nat where
  "BITS_PER_UNIT = 64"

definition bv_new :: "ulong \<Rightarrow> CBitVector" where
  "bv_new nbits =
     (let len = nbits div BITS_PER_UNIT;
          len' = (if len * BITS_PER_UNIT < nbits then len + 1 else len)
      in \<lparr>m_nbits = nbits, m_len = len', m_vec = replicate len' 0\<rparr>)"

definition bv_copy :: "CBitVector \<Rightarrow> CBitVector" where
  "bv_copy bv = \<lparr>m_nbits = m_nbits bv, m_len = m_len bv, m_vec = take (m_len bv) (m_vec bv)\<rparr>"

definition bv_mask :: "ulong \<Rightarrow> ullong" where
  "bv_mask pos = push_bit (pos mod BITS_PER_UNIT) 1"

definition bv_Get :: "CBitVector \<Rightarrow> ulong \<Rightarrow> bool" where
  "bv_Get bv pos = (m_vec bv ! (pos div BITS_PER_UNIT) AND bv_mask pos \<noteq> 0)"

definition bv_ExchangeSet :: "CBitVector \<Rightarrow> ulong \<Rightarrow> bool \<times> CBitVector" where
  "bv_ExchangeSet bv pos =
     (let fSet = bv_Get bv pos; idx = pos div BITS_PER_UNIT
      in (fSet, bv\<lparr>m_vec := (m_vec bv)[idx := m_vec bv ! idx OR bv_mask pos]\<rparr>))"

definition bv_ExchangeClear :: "CBitVector \<Rightarrow> ulong \<Rightarrow> bool \<times> CBitVector" where
  "bv_ExchangeClear bv ulBit =
     (let fSet = bv_Get bv ulBit; idx = ulBit div BITS_PER_UNIT
      in (fSet, bv\<lparr>m_vec := (m_vec bv)[idx := m_vec bv ! idx AND NOT (bv_mask ulBit)]\<rparr>))"

definition bv_Or :: "CBitVector \<Rightarrow> CBitVector \<Rightarrow> CBitVector" where
  "bv_Or bv vec = bv\<lparr>m_vec := map (\<lambda>i. m_vec bv ! i OR m_vec vec ! i) [0..<m_len bv]\<rparr>"

definition bv_And :: "CBitVector \<Rightarrow> CBitVector \<Rightarrow> CBitVector" where
  "bv_And bv vec = bv\<lparr>m_vec := map (\<lambda>i. m_vec bv ! i AND m_vec vec ! i) [0..<m_len bv]\<rparr>"

definition bv_ContainsAll :: "CBitVector \<Rightarrow> CBitVector \<Rightarrow> bool" where
  "bv_ContainsAll bv vec =
     list_all (\<lambda>i. (m_vec bv ! i AND m_vec vec ! i) = m_vec vec ! i) [0..<m_len bv]"

definition bv_IsDisjoint :: "CBitVector \<Rightarrow> CBitVector \<Rightarrow> bool" where
  "bv_IsDisjoint bv vec = list_all (\<lambda>i. (m_vec bv ! i AND m_vec vec ! i) = 0) [0..<m_len bv]"

definition bv_Equals :: "CBitVector \<Rightarrow> CBitVector \<Rightarrow> bool" where
  "bv_Equals bv vec = list_all (\<lambda>i. m_vec bv ! i = m_vec vec ! i) [0..<m_len bv]"

definition bv_IsEmpty :: "CBitVector \<Rightarrow> bool" where
  "bv_IsEmpty bv = list_all (\<lambda>i. m_vec bv ! i = 0) [0..<m_len bv]"

text \<open>
  The inner loop of \<^verbatim>\<open>GetNextSetBit\<close> shifts a unit right until its lowest bit is set or nothing is
  left; shifting a nonzero even unit makes it smaller.
\<close>

lemma unat_drop_bit_Suc_0_less: "w \<noteq> 0 \<Longrightarrow> unat (drop_bit (Suc 0) w) < unat (w :: ullong)"
proof -
  assume "w \<noteq> 0"
  then have "0 < unat w" by (simp add: unat_gt_0)
  moreover have "unat (drop_bit (Suc 0) w) = unat w div 2"
    by (simp add: drop_bit_Suc unat_div)
  ultimately show ?thesis by simp
qed

function scan_unit :: "ullong \<Rightarrow> ulong \<Rightarrow> ullong \<times> ulong" where
  "scan_unit ull b =
     (if ull \<noteq> 0 \<and> ull AND 1 = 0 then scan_unit (drop_bit 1 ull) (b + 1) else (ull, b))"
  by pat_completeness auto
termination
  by (relation "measure (\<lambda>(ull, b). unat ull)") (auto simp: unat_drop_bit_Suc_0_less)

declare scan_unit.simps [simp del]

function next_set_bit_loop :: "CBitVector \<Rightarrow> ulong \<Rightarrow> ulong \<Rightarrow> ulong option" where
  "next_set_bit_loop bv offset idx =
     (if idx < m_len bv then
        (let (ull, b) = scan_unit (drop_bit offset (m_vec bv ! idx)) offset
         in if ull \<noteq> 0 then Some (b + idx * BITS_PER_UNIT) else next_set_bit_loop bv 0 (idx + 1))
      else None)"
  by pat_completeness auto
termination
  by (relation "measure (\<lambda>(bv, offset, idx). m_len bv - idx)") auto

declare next_set_bit_loop.simps [simp del]

definition bv_GetNextSetBit :: "CBitVector \<Rightarrow> ulong \<Rightarrow> ulong option" where
  "bv_GetNextSetBit bv start_pos =
     next_set_bit_loop bv (start_pos mod BITS_PER_UNIT) (start_pos div BITS_PER_UNIT)"

text \<open>
  \<^verbatim>\<open>CountSetBits\<close> clears the lowest set bit of a unit until the unit is zero and counts the rounds.
\<close>

lemma unat_clear_lowest_less: "w \<noteq> 0 \<Longrightarrow> unat (w AND (w - 1)) < unat (w :: ullong)"
proof -
  assume "w \<noteq> 0"
  then have "w - 1 < w" by (simp add: word_less_sub1 word_neq_0_conv measure_unat word_less_nat_alt)
  moreover have "w AND (w - 1) \<le> w - 1" by (rule word_and_le1)
  ultimately show ?thesis by (simp add: word_less_nat_alt word_le_nat_alt)
qed

function count_unit :: "ullong \<Rightarrow> ulong \<Rightarrow> ulong" where
  "count_unit ull j = (if ull \<noteq> 0 then count_unit (ull AND (ull - 1)) (j + 1) else j)"
  by pat_completeness auto
termination
  by (relation "measure (\<lambda>(ull, j). unat ull)") (auto simp: unat_clear_lowest_less)

declare count_unit.simps [simp del]

definition bv_CountSetBits :: "CBitVector \<Rightarrow> ulong" where
  "bv_CountSetBits bv = fold (\<lambda>i nbits. nbits + count_unit (m_vec bv ! i) 0) [0..<m_len bv] 0"

definition bv_HashValue :: "CBitVector \<Rightarrow> hash32" where
  "bv_HashValue bv = HashByteArray (concat (map (store_le 8) (take (m_len bv) (m_vec bv))))"

subsection \<open>Abstraction and invariant\<close>

definition bv_bits :: "CBitVector \<Rightarrow> nat set" where
  "bv_bits bv = {p. p div 64 < length (m_vec bv) \<and> bit (m_vec bv ! (p div 64)) (p mod 64)}"

definition bv_inv :: "CBitVector \<Rightarrow> bool" where
  "bv_inv bv \<longleftrightarrow> length (m_vec bv) = m_len bv \<and> m_len bv = (m_nbits bv + 63) div 64 \<and>
     bv_bits bv \<subseteq> {..<m_nbits bv}"

lemma bv_inv_idx: "bv_inv bv \<Longrightarrow> pos < m_nbits bv \<Longrightarrow> pos div 64 < length (m_vec bv)"
  by (auto simp: bv_inv_def)

lemma bv_bits_less: "bv_inv bv \<Longrightarrow> p \<in> bv_bits bv \<Longrightarrow> p < m_nbits bv"
  by (auto simp: bv_inv_def)

lemma finite_bv_bits [simp]: "finite (bv_bits bv)"
proof (rule finite_subset)
  show "bv_bits bv \<subseteq> {..<64 * length (m_vec bv)}"
    by (auto simp: bv_bits_def)
qed simp

lemma bv_mask_bit: "bit (bv_mask pos) n \<longleftrightarrow> n = pos mod 64"
  by (auto simp: bv_mask_def BITS_PER_UNIT_def bit_simps)

lemma and_bv_mask_eq_0: "(w AND bv_mask pos = 0) \<longleftrightarrow> \<not> bit w (pos mod 64)"
proof
  assume "w AND bv_mask pos = 0"
  then have "\<not> bit (w AND bv_mask pos) (pos mod 64)" by simp
  then show "\<not> bit w (pos mod 64)" by (simp add: bit_and_iff bv_mask_bit)
next
  assume "\<not> bit w (pos mod 64)"
  then show "w AND bv_mask pos = 0"
    by (intro bit_word_eqI) (auto simp: bit_and_iff bv_mask_bit)
qed

lemma bv_Get_iff [bv_simps]:
  "bv_inv bv \<Longrightarrow> pos < m_nbits bv \<Longrightarrow> bv_Get bv pos \<longleftrightarrow> pos \<in> bv_bits bv"
  by (simp add: bv_Get_def and_bv_mask_eq_0 bv_bits_def bv_inv_idx BITS_PER_UNIT_def)

lemma div_mod_64_eq_iff: "p = q \<longleftrightarrow> p div 64 = q div 64 \<and> p mod 64 = q mod (64::nat)"
  by (metis div_mult_mod_eq)

lemma bv_bits_update_unit:
  assumes "i < length (m_vec bv)"
  shows "p \<in> bv_bits (bv\<lparr>m_vec := (m_vec bv)[i := w]\<rparr>) \<longleftrightarrow>
    (if p div 64 = i then bit w (p mod 64) else p \<in> bv_bits bv)"
  using assms by (simp add: bv_bits_def)

lemma bv_ExchangeSet_bits [bv_simps]:
  assumes "bv_inv bv" and "pos < m_nbits bv"
  shows "bv_bits (snd (bv_ExchangeSet bv pos)) = insert pos (bv_bits bv)"
proof (rule set_eqI)
  fix p :: nat
  have idx: "pos div 64 < length (m_vec bv)" using assms by (rule bv_inv_idx)
  show "p \<in> bv_bits (snd (bv_ExchangeSet bv pos)) \<longleftrightarrow> p \<in> insert pos (bv_bits bv)"
    using idx div_mod_64_eq_iff [of p pos]
    by (cases "p div 64 = pos div 64")
      (simp_all add: bv_ExchangeSet_def Let_def BITS_PER_UNIT_def bv_bits_update_unit bit_or_iff
        bv_mask_bit, auto simp: bv_bits_def)
qed

lemma bv_ExchangeClear_bits [bv_simps]:
  assumes "bv_inv bv" and "pos < m_nbits bv"
  shows "bv_bits (snd (bv_ExchangeClear bv pos)) = bv_bits bv - {pos}"
proof (rule set_eqI)
  fix p :: nat
  have idx: "pos div 64 < length (m_vec bv)" using assms by (rule bv_inv_idx)
  have "p mod 64 < 64" by simp
  then show "p \<in> bv_bits (snd (bv_ExchangeClear bv pos)) \<longleftrightarrow> p \<in> bv_bits bv - {pos}"
    using idx div_mod_64_eq_iff [of p pos]
    by (cases "p div 64 = pos div 64")
      (simp_all add: bv_ExchangeClear_def Let_def BITS_PER_UNIT_def bv_bits_update_unit bit_and_iff
        bit_not_iff bv_mask_bit, auto simp: bv_bits_def)
qed

lemma fst_bv_Exchange [simp]:
  "fst (bv_ExchangeSet bv pos) = bv_Get bv pos"
  "fst (bv_ExchangeClear bv pos) = bv_Get bv pos"
  by (simp_all add: bv_ExchangeSet_def bv_ExchangeClear_def Let_def)

lemma m_nbits_bv_ops [simp]:
  "m_nbits (snd (bv_ExchangeSet bv pos)) = m_nbits bv"
  "m_nbits (snd (bv_ExchangeClear bv pos)) = m_nbits bv"
  "m_nbits (bv_Or bv vec) = m_nbits bv"
  "m_nbits (bv_And bv vec) = m_nbits bv"
  "m_nbits (bv_new n) = n"
  "m_nbits (bv_copy bv) = m_nbits bv"
  by (simp_all add: bv_ExchangeSet_def bv_ExchangeClear_def bv_Or_def bv_And_def bv_new_def
      bv_copy_def Let_def)

lemma bv_new_bits [bv_simps]: "bv_bits (bv_new n) = {}"
  by (auto simp: bv_bits_def bv_new_def Let_def)

lemma units_needed:
  "(if n div 64 * 64 < n then n div 64 + 1 else n div 64) = (n + 63) div (64::nat)"
  by (split if_split, intro conjI impI; linarith)

lemma bv_new_inv [intro, simp]: "bv_inv (bv_new n)"
proof -
  have "m_len (bv_new n) = (n + 63) div 64"
    using units_needed [of n] by (simp add: bv_new_def Let_def BITS_PER_UNIT_def)
  then show ?thesis
    by (simp add: bv_inv_def bv_new_bits) (simp add: bv_new_def Let_def)
qed

lemma bv_copy_id: "bv_inv bv \<Longrightarrow> bv_copy bv = bv"
  by (simp add: bv_copy_def bv_inv_def)

lemma bv_inv_same_len: "bv_inv a \<Longrightarrow> bv_inv b \<Longrightarrow> m_nbits a = m_nbits b \<Longrightarrow>
    length (m_vec b) = length (m_vec a) \<and> length (m_vec a) = m_len a"
  by (simp add: bv_inv_def)

lemma bv_ExchangeSet_inv [intro, simp]:
  "bv_inv bv \<Longrightarrow> pos < m_nbits bv \<Longrightarrow> bv_inv (snd (bv_ExchangeSet bv pos))"
  by (subst bv_inv_def, subst bv_ExchangeSet_bits)
    (auto simp: bv_ExchangeSet_def Let_def bv_inv_def)

lemma bv_ExchangeClear_inv [intro, simp]:
  "bv_inv bv \<Longrightarrow> pos < m_nbits bv \<Longrightarrow> bv_inv (snd (bv_ExchangeClear bv pos))"
  by (subst bv_inv_def, subst bv_ExchangeClear_bits)
    (auto simp: bv_ExchangeClear_def Let_def bv_inv_def)

lemma bv_Or_bits [bv_simps]:
  assumes "bv_inv a" and "bv_inv b" and "m_nbits a = m_nbits b"
  shows "bv_bits (bv_Or a b) = bv_bits a \<union> bv_bits b"
  using bv_inv_same_len [OF assms] by (auto simp: bv_bits_def bv_Or_def bit_or_iff)

lemma bv_And_bits [bv_simps]:
  assumes "bv_inv a" and "bv_inv b" and "m_nbits a = m_nbits b"
  shows "bv_bits (bv_And a b) = bv_bits a \<inter> bv_bits b"
  using bv_inv_same_len [OF assms] by (auto simp: bv_bits_def bv_And_def bit_and_iff)

lemma bv_Or_inv [intro, simp]:
  "bv_inv a \<Longrightarrow> bv_inv b \<Longrightarrow> m_nbits a = m_nbits b \<Longrightarrow> bv_inv (bv_Or a b)"
  by (subst bv_inv_def, subst bv_Or_bits) (auto simp: bv_Or_def bv_inv_def)

lemma bv_And_inv [intro, simp]:
  "bv_inv a \<Longrightarrow> bv_inv b \<Longrightarrow> m_nbits a = m_nbits b \<Longrightarrow> bv_inv (bv_And a b)"
  by (subst bv_inv_def, subst bv_And_bits) (auto simp: bv_And_def bv_inv_def)

text \<open>Two vectors of one size are compared unit by unit; units agree when their bits do.\<close>

lemma unit_bits:
  assumes "i < length (m_vec bv)" and "n < 64"
  shows "bit (m_vec bv ! i) n \<longleftrightarrow> i * 64 + n \<in> bv_bits bv"
  using assms by (simp add: bv_bits_def)

lemma unit_rel_iff:
  assumes "\<And>x y. P x y \<longleftrightarrow> (\<forall>n<64. Q (bit x n) (bit y n))"
    and "length (m_vec a) = m_len a" and "length (m_vec b) = m_len a"
  shows "list_all (\<lambda>i. P (m_vec a ! i) (m_vec b ! i)) [0..<m_len a] \<longleftrightarrow>
    (\<forall>p < 64 * m_len a. Q (p \<in> bv_bits a) (p \<in> bv_bits b))"
proof
  assume L: "list_all (\<lambda>i. P (m_vec a ! i) (m_vec b ! i)) [0..<m_len a]"
  show "\<forall>p < 64 * m_len a. Q (p \<in> bv_bits a) (p \<in> bv_bits b)"
  proof (intro allI impI)
    fix p assume "p < 64 * m_len a"
    then have i: "p div 64 < m_len a" by linarith
    with L have "P (m_vec a ! (p div 64)) (m_vec b ! (p div 64))" by (simp add: list_all_upt)
    then have "Q (bit (m_vec a ! (p div 64)) (p mod 64)) (bit (m_vec b ! (p div 64)) (p mod 64))"
      unfolding assms(1) by simp
    with i assms(2,3) show "Q (p \<in> bv_bits a) (p \<in> bv_bits b)"
      by (simp add: bv_bits_def)
  qed
next
  assume R: "\<forall>p < 64 * m_len a. Q (p \<in> bv_bits a) (p \<in> bv_bits b)"
  show "list_all (\<lambda>i. P (m_vec a ! i) (m_vec b ! i)) [0..<m_len a]"
    unfolding list_all_upt assms(1)
  proof (intro allI impI)
    fix i n :: nat assume "i < m_len a" and "n < 64"
    moreover from this have "i * 64 + n < 64 * m_len a" by linarith
    ultimately have "Q (i * 64 + n \<in> bv_bits a) (i * 64 + n \<in> bv_bits b)"
      using R by blast
    with \<open>i < m_len a\<close> \<open>n < 64\<close> assms(2,3) show "Q (bit (m_vec a ! i) n) (bit (m_vec b ! i) n)"
      by (simp only: unit_bits)
  qed
qed

lemma bv_bits_units: "bv_inv bv \<Longrightarrow> p \<in> bv_bits bv \<Longrightarrow> p < 64 * m_len bv"
  by (simp add: bv_inv_def bv_bits_def) linarith

lemma bv_ContainsAll_iff [bv_simps]:
  assumes "bv_inv a" and "bv_inv b" and "m_nbits a = m_nbits b"
  shows "bv_ContainsAll a b \<longleftrightarrow> bv_bits b \<subseteq> bv_bits a"
proof -
  have "(x AND y) = y \<longleftrightarrow> (\<forall>n<64. bit y n \<longrightarrow> bit x n)" for x y :: ullong
    by (subst ullong_eq_iff) (auto simp: bit_and_iff)
  then have "bv_ContainsAll a b \<longleftrightarrow> (\<forall>p < 64 * m_len a. p \<in> bv_bits b \<longrightarrow> p \<in> bv_bits a)"
    unfolding bv_ContainsAll_def using bv_inv_same_len [OF assms]
    by (intro unit_rel_iff [where Q = "\<lambda>x y. y \<longrightarrow> x"]) auto
  moreover have "m_len a = m_len b" using assms by (simp add: bv_inv_def)
  ultimately show ?thesis using bv_bits_units [OF assms(2)] by auto
qed

lemma bv_IsDisjoint_iff [bv_simps]:
  assumes "bv_inv a" and "bv_inv b" and "m_nbits a = m_nbits b"
  shows "bv_IsDisjoint a b \<longleftrightarrow> bv_bits a \<inter> bv_bits b = {}"
proof -
  have "(x AND y) = 0 \<longleftrightarrow> (\<forall>n<64. \<not> (bit x n \<and> bit y n))" for x y :: ullong
    by (subst ullong_eq_iff) (auto simp: bit_and_iff)
  then have "bv_IsDisjoint a b \<longleftrightarrow>
      (\<forall>p < 64 * m_len a. \<not> (p \<in> bv_bits a \<and> p \<in> bv_bits b))"
    unfolding bv_IsDisjoint_def using bv_inv_same_len [OF assms]
    by (intro unit_rel_iff [where Q = "\<lambda>x y. \<not> (x \<and> y)"]) auto
  then show ?thesis using bv_bits_units [OF assms(1)] by auto
qed

lemma bv_Equals_iff [bv_simps]:
  assumes "bv_inv a" and "bv_inv b" and "m_nbits a = m_nbits b"
  shows "bv_Equals a b \<longleftrightarrow> bv_bits a = bv_bits b"
proof -
  have "x = y \<longleftrightarrow> (\<forall>n<64. bit x n = bit y n)" for x y :: ullong
    by (subst ullong_eq_iff) auto
  then have "bv_Equals a b \<longleftrightarrow> (\<forall>p < 64 * m_len a. (p \<in> bv_bits a) = (p \<in> bv_bits b))"
    unfolding bv_Equals_def using bv_inv_same_len [OF assms]
    by (intro unit_rel_iff [where Q = "(=)"]) auto
  moreover have "m_len a = m_len b" using assms by (simp add: bv_inv_def)
  ultimately show ?thesis
    using bv_bits_units [OF assms(1)] bv_bits_units [OF assms(2)] by (auto simp: set_eq_iff)
qed

lemma bv_IsEmpty_iff [bv_simps]:
  assumes "bv_inv a"
  shows "bv_IsEmpty a \<longleftrightarrow> bv_bits a = {}"
proof -
  have "x = 0 \<longleftrightarrow> (\<forall>n<64. \<not> bit x n)" for x :: ullong
    by (subst ullong_eq_iff) auto
  then have "bv_IsEmpty a \<longleftrightarrow> (\<forall>p < 64 * m_len a. \<not> p \<in> bv_bits a)"
    unfolding bv_IsEmpty_def using assms
    by (intro unit_rel_iff [where Q = "\<lambda>x y. \<not> x" and b = a]) (auto simp: bv_inv_def)
  then show ?thesis using bv_bits_units [OF assms] by auto
qed

text \<open>A vector is determined by its size and its set of bits.\<close>

lemma bv_eqI:
  assumes "bv_inv a" and "bv_inv b" and "m_nbits a = m_nbits b" and "bv_bits a = bv_bits b"
  shows "a = (b :: CBitVector)"
proof -
  have "bv_Equals a b" using assms by (simp add: bv_Equals_iff)
  then have "m_vec a = m_vec b"
    using bv_inv_same_len [OF assms(1-3)] by (auto simp: bv_Equals_def list_all_upt intro: nth_equalityI)
  moreover have "m_len a = m_len b" using assms(1-3) by (simp add: bv_inv_def)
  ultimately show ?thesis using assms(3) by (intro CBitVector.equality) simp_all
qed

subsection \<open>Population count\<close>

lemma nat_clear_lowest:
  "0 < n \<Longrightarrow> \<exists>k. bit n k \<and> {i. bit (n AND (n - 1)) i} = {i. bit n i} - {k}" for n :: nat
proof (induction n rule: less_induct)
  case (less n)
  show ?case
  proof (cases "odd n")
    case True
    then obtain m where n: "n = 2 * m + 1" by (rule oddE)
    have "bit (n AND (n - 1)) i \<longleftrightarrow> bit n i \<and> i \<noteq> 0" for i
      unfolding bit_and_iff by (cases i) (simp_all add: n bit_0 bit_Suc)
    then have "{i. bit (n AND (n - 1)) i} = {i. bit n i} - {0}" by auto
    moreover have "bit n 0" using True by (simp add: bit_0)
    ultimately show ?thesis by blast
  next
    case False
    then obtain m where n: "n = 2 * m" by (auto elim: evenE)
    with less.prems have "0 < m" "m < n" by auto
    then obtain k where k: "bit m k" "{i. bit (m AND (m - 1)) i} = {i. bit m i} - {k}"
      using less.IH by blast
    obtain m' where m': "m = Suc m'" using \<open>0 < m\<close> by (cases m) auto
    have "bit (n - 1) (Suc i) = bit (m - 1) i" for i
      by (simp add: n m' bit_Suc)
    then have "bit (n AND (n - 1)) (Suc i) = bit (m AND (m - 1)) i" for i
      unfolding bit_and_iff by (simp add: n bit_Suc)
    moreover have "bit n (Suc i) = bit m i" for i by (simp add: n bit_Suc)
    moreover have "\<not> bit n 0" using False by (simp add: bit_0)
    moreover have "bit (m AND (m - 1)) i \<longleftrightarrow> bit m i \<and> i \<noteq> k" for i
      using k(2) by (auto simp: set_eq_iff)
    ultimately have "bit (n AND (n - 1)) i \<longleftrightarrow> bit n i \<and> i \<noteq> Suc k" for i
      by (cases i) (simp_all add: bit_and_iff)
    then have "{i. bit (n AND (n - 1)) i} = {i. bit n i} - {Suc k}" by auto
    moreover have "bit n (Suc k)" using k(1) by (simp add: n bit_Suc)
    ultimately show ?thesis by blast
  qed
qed

lemma clear_lowest_bits:
  fixes w :: ullong
  assumes "w \<noteq> 0"
  shows "\<exists>k. bit w k \<and> {i. bit (w AND (w - 1)) i} = {i. bit w i} - {k}"
proof -
  have pos: "0 < unat w" using assms by (simp add: unat_gt_0)
  have u: "unat (w AND (w - 1)) = unat w AND (unat w - 1)"
    using assms by (simp add: unsigned_and_eq unat_minus_one)
  have b: "bit (unat v) i = bit v i" for v :: ullong and i
    by (auto simp: bit_unsigned_iff bit_ullong_less)
  show ?thesis
    using nat_clear_lowest [OF pos, folded u] by (simp only: b)
qed

lemma count_unit_card: "count_unit w j = j + card {n. bit w n}"
proof (induction w j rule: count_unit.induct)
  case (1 w j)
  show ?case
  proof (cases "w = 0")
    case True
    then show ?thesis by (simp add: count_unit.simps [of 0 j])
  next
    case False
    then obtain k where k: "bit w k" "{i. bit (w AND (w - 1)) i} = {i. bit w i} - {k}"
      using clear_lowest_bits by blast
    have "finite {i. bit w i}"
      by (rule finite_subset [of _ "{..<64}"]) (auto dest: bit_ullong_less)
    then have "card {i. bit w i} = Suc (card ({i. bit w i} - {k}))"
      by (rule card_Suc_Diff1 [symmetric]) (simp add: k(1))
    with False 1 k(2) show ?thesis by (simp add: count_unit.simps [of w j])
  qed
qed

lemma card_bits_prefix:
  assumes "n \<le> length (m_vec bv)"
  shows "card {p \<in> bv_bits bv. p < 64 * n} = (\<Sum>i<n. card {k. bit (m_vec bv ! i) k})"
  using assms
proof (induction n)
  case 0
  then show ?case by simp
next
  case (Suc n)
  let ?U = "(\<lambda>k. n * 64 + k) ` {k. bit (m_vec bv ! n) k}"
  have "{p \<in> bv_bits bv. p < 64 * Suc n} = {p \<in> bv_bits bv. p < 64 * n} \<union> ?U"
  proof (intro set_eqI iffI)
    fix p assume p: "p \<in> {p \<in> bv_bits bv. p < 64 * Suc n}"
    show "p \<in> {p \<in> bv_bits bv. p < 64 * n} \<union> ?U"
    proof (cases "p < 64 * n")
      case True with p show ?thesis by simp
    next
      case False
      with p have d: "p div 64 = n" by (simp, linarith)
      then have "p = n * 64 + p mod 64" by (metis div_mult_mod_eq)
      moreover have "bit (m_vec bv ! n) (p mod 64)" using p d by (simp add: bv_bits_def)
      ultimately show ?thesis by blast
    qed
  next
    fix p assume p: "p \<in> {p \<in> bv_bits bv. p < 64 * n} \<union> ?U"
    then show "p \<in> {p \<in> bv_bits bv. p < 64 * Suc n}"
    proof
      assume "p \<in> ?U"
      then obtain k where k: "p = n * 64 + k" "bit (m_vec bv ! n) k" by auto
      moreover have "k < 64" using k(2) by (rule bit_ullong_less)
      ultimately show ?thesis using Suc.prems by (simp add: bv_bits_def)
    qed simp
  qed
  moreover have "{p \<in> bv_bits bv. p < 64 * n} \<inter> ?U = {}" by auto
  moreover have "finite ?U"
    by (rule finite_imageI, rule finite_subset [of _ "{..<64}"]) (auto dest: bit_ullong_less)
  ultimately have "card {p \<in> bv_bits bv. p < 64 * Suc n} =
      card {p \<in> bv_bits bv. p < 64 * n} + card ?U"
    by (simp add: card_Un_disjoint)
  moreover have "card ?U = card {k. bit (m_vec bv ! n) k}" by (rule card_image) simp
  ultimately show ?case using Suc by simp
qed

lemma fold_add_sum: "fold (\<lambda>i acc. acc + f i) [0..<n] a = a + (\<Sum>i<n. f i :: nat)"
  by (induction n) simp_all

lemma bv_CountSetBits_card [bv_simps]:
  assumes "bv_inv bv"
  shows "bv_CountSetBits bv = card (bv_bits bv)"
proof -
  have "{p \<in> bv_bits bv. p < 64 * m_len bv} = bv_bits bv"
    using bv_bits_units [OF assms] by auto
  moreover have "length (m_vec bv) = m_len bv" using assms by (simp add: bv_inv_def)
  ultimately show ?thesis
    using card_bits_prefix [of "m_len bv" bv]
    by (simp add: bv_CountSetBits_def count_unit_card fold_add_sum)
qed

subsection \<open>Finding the next set bit\<close>

lemma and_1_eq_0: "w AND 1 = 0 \<longleftrightarrow> \<not> bit w 0" for w :: ullong
  by (simp add: and_one_eq bit_0 even_iff_mod_2_eq_zero)

lemma scan_unit_spec:
  "w \<noteq> 0 \<Longrightarrow> \<exists>k. bit w k \<and> (\<forall>n<k. \<not> bit w n) \<and> scan_unit w b = (drop_bit k w, b + k)"
proof (induction w b rule: scan_unit.induct)
  case (1 w b)
  show ?case
  proof (cases "bit w 0")
    case True
    then have "scan_unit w b = (drop_bit 0 w, b + 0)"
      by (simp add: scan_unit.simps [of w b] and_1_eq_0)
    with True show ?thesis by blast
  next
    case False
    then have even: "w AND 1 = 0" by (simp add: and_1_eq_0)
    obtain n where n: "bit w n" using 1(2) by (metis bit_eqI bit_0_eq bot_apply bot_bool_def)
    with False obtain n' where "n = Suc n'" by (cases n) auto
    with n have "bit (drop_bit 1 w) n'" by (simp add: bit_drop_bit_eq)
    then have "drop_bit 1 w \<noteq> 0" by auto
    then obtain k where k: "bit (drop_bit 1 w) k" "\<forall>n<k. \<not> bit (drop_bit 1 w) n"
        "scan_unit (drop_bit 1 w) (b + 1) = (drop_bit k (drop_bit 1 w), b + 1 + k)"
      using 1 even by blast
    have "scan_unit w b = (drop_bit (Suc k) w, b + Suc k)"
      using 1(2) even k(3) by (simp add: scan_unit.simps [of w b] drop_bit_drop_bit del: drop_bit_Suc)
    moreover have "\<forall>n<Suc k. \<not> bit w n"
      using k(2) False by (auto simp: bit_drop_bit_eq less_Suc_eq_0_disj)
    moreover have "bit w (Suc k)" using k(1) by (simp add: bit_drop_bit_eq)
    ultimately show ?thesis by blast
  qed
qed

lemma scan_unit_nonzero: "fst (scan_unit w b) \<noteq> 0 \<longleftrightarrow> w \<noteq> 0"
proof (cases "w = 0")
  case True
  then show ?thesis by (simp add: scan_unit.simps [of 0 b])
next
  case False
  then obtain k where "bit w k" "scan_unit w b = (drop_bit k w, b + k)"
    using scan_unit_spec by blast
  moreover from this have "bit (drop_bit k w) 0" by (simp add: bit_drop_bit_eq)
  ultimately show ?thesis using False by auto
qed

text \<open>
  The outer loop returns the least set position at or after the start, and reports failure exactly
  when there is none.
\<close>

definition least_from :: "nat set \<Rightarrow> nat \<Rightarrow> nat option" where
  "least_from S s = (if \<exists>p\<in>S. s \<le> p then Some (LEAST p. p \<in> S \<and> s \<le> p) else None)"

lemma least_from_SomeI:
  assumes "q \<in> S" and "s \<le> q" and "\<And>p. p \<in> S \<Longrightarrow> s \<le> p \<Longrightarrow> q \<le> p"
  shows "least_from S s = Some q"
  using assms by (auto simp: least_from_def intro: Least_equality)

lemma least_from_SomeD:
  assumes "least_from S s = Some q"
  shows "q \<in> S" and "s \<le> q" and "\<And>p. p \<in> S \<Longrightarrow> s \<le> p \<Longrightarrow> q \<le> p"
  using assms LeastI_ex [of "\<lambda>p. p \<in> S \<and> s \<le> p"] Least_le [of "\<lambda>p. p \<in> S \<and> s \<le> p"]
  by (auto simp: least_from_def split: if_splits)

lemma least_from_None: "least_from S s = None \<longleftrightarrow> (\<forall>p\<in>S. p < s)"
  by (simp add: least_from_def) (meson not_le)

lemma unit_position:
  assumes "i < length (m_vec bv)"
  shows "bit (drop_bit off (m_vec bv ! i)) k \<longleftrightarrow> off + k < 64 \<and> i * 64 + (off + k) \<in> bv_bits bv"
proof (cases "off + k < 64")
  case True
  with assms show ?thesis by (simp add: bit_drop_bit_eq unit_bits)
next
  case False
  then show ?thesis by (auto simp: bit_drop_bit_eq dest: bit_ullong_less)
qed

lemma next_set_bit_loop_spec:
  assumes "length (m_vec bv) = m_len bv" and "off < 64"
  shows "next_set_bit_loop bv off idx = least_from (bv_bits bv) (idx * 64 + off)"
  using assms
proof (induction bv off idx rule: next_set_bit_loop.induct)
  case (1 bv off idx)
  show ?case
  proof (cases "idx < m_len bv")
    case False
    then have "next_set_bit_loop bv off idx = None"
      by (simp add: next_set_bit_loop.simps [of bv off idx])
    moreover have "p < idx * 64 + off" if "p \<in> bv_bits bv" for p
      using that False 1(2) by (simp add: bv_bits_def) linarith
    then have "least_from (bv_bits bv) (idx * 64 + off) = None" by (simp add: least_from_None)
    ultimately show ?thesis by simp
  next
    case True
    then have i: "idx < length (m_vec bv)" using 1(2) by simp
    let ?u = "drop_bit off (m_vec bv ! idx)"
    have loop: "next_set_bit_loop bv off idx =
      (if ?u \<noteq> 0 then Some (snd (scan_unit ?u off) + idx * 64) else next_set_bit_loop bv 0 (idx + 1))"
      using True scan_unit_nonzero [of ?u off]
      by (simp add: next_set_bit_loop.simps [of bv off idx] BITS_PER_UNIT_def Let_def case_prod_beta)
    show ?thesis
    proof (cases "?u = 0")
      case False
      then obtain k where k: "bit ?u k" "\<forall>n<k. \<not> bit ?u n" "scan_unit ?u off = (drop_bit k ?u, off + k)"
        using scan_unit_spec by blast
      have "least_from (bv_bits bv) (idx * 64 + off) = Some (idx * 64 + (off + k))"
      proof (rule least_from_SomeI)
        show "idx * 64 + (off + k) \<in> bv_bits bv" using k(1) unit_position [OF i] by blast
        fix p assume p: "p \<in> bv_bits bv" "idx * 64 + off \<le> p"
        show "idx * 64 + (off + k) \<le> p"
        proof (rule ccontr)
          assume "\<not> idx * 64 + (off + k) \<le> p"
          moreover define n where "n = p - (idx * 64 + off)"
          moreover have "off + k < 64" using k(1) unit_position [OF i] by blast
          ultimately have "n < k" and "off + n < 64" and "p = idx * 64 + (off + n)"
            using p(2) by auto
          with p(1) k(2) unit_position [OF i] show False by blast
        qed
      qed simp
      with False k(3) loop show ?thesis by simp
    next
      case zero: True
      have "least_from (bv_bits bv) (idx * 64 + off) = least_from (bv_bits bv) ((idx + 1) * 64)"
      proof -
        have "(idx + 1) * 64 \<le> p" if "p \<in> bv_bits bv" "idx * 64 + off \<le> p" for p
        proof (rule ccontr)
          assume "\<not> (idx + 1) * 64 \<le> p"
          with that(2) have "off + (p - (idx * 64 + off)) < 64"
            "p = idx * 64 + (off + (p - (idx * 64 + off)))" by auto
          with that(1) have "bit ?u (p - (idx * 64 + off))" using unit_position [OF i] by metis
          with zero show False by simp
        qed
        moreover have "idx * 64 + off \<le> p" if "(idx + 1) * 64 \<le> p" for p
          using that 1(3) by simp
        ultimately have "p \<in> bv_bits bv \<and> idx * 64 + off \<le> p \<longleftrightarrow>
            p \<in> bv_bits bv \<and> (idx + 1) * 64 \<le> p" for p by blast
        then show ?thesis unfolding least_from_def by (simp only: Bex_def)
      qed
      moreover have "next_set_bit_loop bv 0 (idx + 1) = least_from (bv_bits bv) ((idx + 1) * 64 + 0)"
        by (rule 1(1) [OF True refl _ _ 1(2)])
          (use zero in \<open>simp_all add: scan_unit.simps [of 0] prod_eq_iff\<close>)
      ultimately show ?thesis using zero loop by simp
    qed
  qed
qed

lemma bv_GetNextSetBit_least [bv_simps]:
  assumes "bv_inv bv"
  shows "bv_GetNextSetBit bv s = least_from (bv_bits bv) s"
proof -
  have "s div 64 * 64 + s mod 64 = s" by (rule div_mult_mod_eq)
  then show ?thesis
    using assms next_set_bit_loop_spec [of bv "s mod 64" "s div 64"]
    by (simp add: bv_GetNextSetBit_def BITS_PER_UNIT_def bv_inv_def)
qed

subsection \<open>Properties\<close>

text \<open>
  \<^bold>\<open>C13\<close> \<^verbatim>\<open>GetNextSetBit\<close> returns the least set position at or after the start position and fails exactly
  when there is none, and \<^verbatim>\<open>CountSetBits\<close>, which clears the lowest bit of a unit until it is zero,
  returns the number of set positions.
\<close>

theorem bv_scan_correct:
  assumes "bv_inv bv"
  shows "(case bv_GetNextSetBit bv s of None \<Rightarrow> \<forall>p\<in>bv_bits bv. p < s
      | Some q \<Rightarrow> q \<in> bv_bits bv \<and> s \<le> q \<and> (\<forall>p\<in>bv_bits bv. s \<le> p \<longrightarrow> q \<le> p)) \<and>
    bv_CountSetBits bv = card (bv_bits bv)"
  using bv_GetNextSetBit_least [OF assms, of s] bv_CountSetBits_card [OF assms]
    least_from_SomeD [of "bv_bits bv" s] least_from_None [of "bv_bits bv" s]
  by (auto split: option.splits)

theorem bv_scan_correct_witness:
  "bv_GetNextSetBit (snd (bv_ExchangeSet (bv_new 256) 70)) 3 = Some 70 \<and>
   bv_CountSetBits (snd (bv_ExchangeSet (bv_new 256) 70)) = 1"
proof -
  have "bv_inv (snd (bv_ExchangeSet (bv_new 256) 70))" "bv_bits (snd (bv_ExchangeSet (bv_new 256) 70)) = {70}"
    by (simp_all add: bv_simps m_nbits_bv_ops)
  with bv_scan_correct [of "snd (bv_ExchangeSet (bv_new 256) 70)" 3] show ?thesis
    by (simp split: option.splits)
qed

end
