(* ===== verification/BitSet.thy ===== *)
theory BitSet
  imports BitVector
begin

text \<open>
  The sparse bit set of \<^verbatim>\<open>libgpos/src/common/CBitSet.cpp\<close>: a list of bit vectors (links), each with
  the offset of its first position, kept in increasing order of offsets, and the iterator of
  \<^verbatim>\<open>libgpos/src/common/CBitSetIter.cpp\<close>.  A pointer to a link is the link's index in the list, with
  \<open>None\<close> for the null pointer; the cursors that the operations carry from one link to the next are
  kept.  The abstraction \<open>bs_set\<close> is the set of members; \<open>bs_inv\<close> is the representation invariant,
  which includes that no link is empty and that \<open>m_size\<close> counts the members.  \<open>m_size\<close> is a natural
  number: the 32-bit counter of the code holds every size except that of the set of all
  \<open>2 ^ 32\<close> positions.
\<close>

subsection \<open>State\<close>

record CBitSetLink =
  m_offset :: ulong
  m_bv :: CBitVector

record CBitSet =
  m_bsllist :: "CBitSetLink list"
  m_vector_size :: ulong
  m_size :: ulong

definition link_new :: "ulong \<Rightarrow> ulong \<Rightarrow> CBitSetLink" where
  "link_new offset vector_size = \<lparr>m_offset = offset, m_bv = bv_new vector_size\<rparr>"

definition link_copy :: "CBitSetLink \<Rightarrow> CBitSetLink" where
  "link_copy bsl = \<lparr>m_offset = m_offset bsl, m_bv = bv_copy (m_bv bsl)\<rparr>"

subsection \<open>Operations\<close>

function find_link_loop :: "CBitSetLink list \<Rightarrow> ulong \<Rightarrow> nat option \<Rightarrow> nat \<Rightarrow> nat option" where
  "find_link_loop links offset found cursor =
     (if length links \<le> cursor \<or> offset < m_offset (links ! cursor) then found
      else find_link_loop links offset (Some cursor) (Suc cursor))"
  by pat_completeness auto
termination
  by (relation "measure (\<lambda>(links, offset, found, cursor). length links - cursor)") auto

declare find_link_loop.simps [simp del]

definition FindLinkByOffset :: "CBitSetLink list \<Rightarrow> ulong \<Rightarrow> nat option \<Rightarrow> nat option" where
  "FindLinkByOffset links offset bsl =
     (case bsl of None \<Rightarrow> find_link_loop links offset None 0
      | Some i \<Rightarrow> find_link_loop links offset (Some i) i)"

definition RecomputeSize :: "CBitSet \<Rightarrow> CBitSet" where
  "RecomputeSize bs =
     bs\<lparr>m_size := fold (\<lambda>bsl sz. sz + bv_CountSetBits (m_bv bsl)) (m_bsllist bs) 0\<rparr>"

definition bs_Clear :: "CBitSet \<Rightarrow> CBitSet" where
  "bs_Clear bs = RecomputeSize (bs\<lparr>m_bsllist := []\<rparr>)"

definition ComputeOffset :: "CBitSet \<Rightarrow> ulong \<Rightarrow> ulong" where
  "ComputeOffset bs ul = (ul div m_vector_size bs) * m_vector_size bs"

definition bs_new :: "ulong \<Rightarrow> CBitSet" where
  "bs_new vector_size = \<lparr>m_bsllist = [], m_vector_size = vector_size, m_size = 0\<rparr>"

definition found_at :: "CBitSetLink list \<Rightarrow> ulong \<Rightarrow> nat option \<Rightarrow> bool" where
  "found_at links offset bsl = (bsl \<noteq> None \<and> m_offset (links ! the bsl) = offset)"

definition bs_Get :: "CBitSet \<Rightarrow> ulong \<Rightarrow> bool" where
  "bs_Get bs pos =
     (let offset = ComputeOffset bs pos; bsl = FindLinkByOffset (m_bsllist bs) offset None
      in if found_at (m_bsllist bs) offset bsl
         then bv_Get (m_bv (m_bsllist bs ! the bsl)) (pos - offset) else False)"

definition insert_link :: "CBitSetLink \<Rightarrow> nat option \<Rightarrow> CBitSetLink list \<Rightarrow> CBitSetLink list" where
  "insert_link new bsl links =
     (case bsl of None \<Rightarrow> new # links
      | Some i \<Rightarrow> take (Suc i) links @ new # drop (Suc i) links)"

definition bs_ExchangeSet :: "CBitSet \<Rightarrow> ulong \<Rightarrow> bool \<times> CBitSet" where
  "bs_ExchangeSet bs pos =
     (let offset = ComputeOffset bs pos;
          bsl = FindLinkByOffset (m_bsllist bs) offset None;
          (links, i) =
            (if found_at (m_bsllist bs) offset bsl then (m_bsllist bs, the bsl)
             else (insert_link (link_new offset (m_vector_size bs)) bsl (m_bsllist bs),
                   case bsl of None \<Rightarrow> 0 | Some i \<Rightarrow> Suc i));
          (b, vec) = bv_ExchangeSet (m_bv (links ! i)) (pos - offset)
      in (b, bs\<lparr>m_bsllist := links[i := (links ! i)\<lparr>m_bv := vec\<rparr>],
                m_size := (if b then m_size bs else m_size bs + 1)\<rparr>))"

definition bs_ExchangeClear :: "CBitSet \<Rightarrow> ulong \<Rightarrow> bool \<times> CBitSet" where
  "bs_ExchangeClear bs pos =
     (let offset = ComputeOffset bs pos; links = m_bsllist bs;
          bsl = FindLinkByOffset links offset None
      in if found_at links offset bsl then
           (let i = the bsl; (b, vec) = bv_ExchangeClear (m_bv (links ! i)) (pos - offset);
                links' = (if bv_IsEmpty vec then take i links @ drop (Suc i) links
                          else links[i := (links ! i)\<lparr>m_bv := vec\<rparr>])
            in (b, bs\<lparr>m_bsllist := links', m_size := (if b then m_size bs - 1 else m_size bs)\<rparr>))
         else (False, bs))"

text \<open>The three sweeps of \<^verbatim>\<open>Union\<close>: copy the other set's missing links, insert them, or the vectors.\<close>

fun union_missing :: "CBitSetLink list \<Rightarrow> nat option \<Rightarrow> CBitSetLink list \<Rightarrow> CBitSetLink list" where
  "union_missing links bsl [] = []"
| "union_missing links bsl (other # others) =
     (let bsl' = FindLinkByOffset links (m_offset other) bsl
      in if found_at links (m_offset other) bsl' then union_missing links bsl' others
         else link_copy other # union_missing links bsl' others)"

fun insert_links :: "CBitSetLink list \<Rightarrow> nat option \<Rightarrow> CBitSetLink list \<Rightarrow> CBitSetLink list" where
  "insert_links links bsl [] = links"
| "insert_links links bsl (new # news) =
     (let bsl' = FindLinkByOffset links (m_offset new) bsl
      in insert_links (insert_link new bsl' links) bsl' news)"

fun or_links :: "CBitSetLink list \<Rightarrow> nat option \<Rightarrow> CBitSetLink list \<Rightarrow> CBitSetLink list" where
  "or_links others bsl_other [] = []"
| "or_links others bsl_other (bsl # links) =
     (let bsl_other' = FindLinkByOffset others (m_offset bsl) bsl_other
      in (if found_at others (m_offset bsl) bsl_other'
          then bsl\<lparr>m_bv := bv_Or (m_bv bsl) (m_bv (others ! the bsl_other'))\<rparr> else bsl)
         # or_links others bsl_other' links)"

definition bs_Union :: "CBitSet \<Rightarrow> CBitSet \<Rightarrow> CBitSet" where
  "bs_Union bs pbsOther =
     (let links = m_bsllist bs; others = m_bsllist pbsOther;
          links' = insert_links links None (union_missing links None others)
      in RecomputeSize (bs\<lparr>m_bsllist := or_links others None links'\<rparr>))"

definition bs_copy :: "CBitSet \<Rightarrow> CBitSet" where
  "bs_copy bs = bs_Union (bs_new (m_vector_size bs)) bs"

fun and_links :: "CBitSetLink list \<Rightarrow> nat option \<Rightarrow> CBitSetLink list \<Rightarrow> CBitSetLink list" where
  "and_links others bsl_other [] = []"
| "and_links others bsl_other (bsl # links) =
     (let bsl_other' = FindLinkByOffset others (m_offset bsl) bsl_other
      in if found_at others (m_offset bsl) bsl_other' then
           (let vec = bv_And (m_bv bsl) (m_bv (others ! the bsl_other'))
            in (if bv_IsEmpty vec then [] else [bsl\<lparr>m_bv := vec\<rparr>])
               @ and_links others bsl_other' links)
         else and_links others bsl_other' links)"

definition bs_Intersection :: "CBitSet \<Rightarrow> CBitSet option \<Rightarrow> CBitSet" where
  "bs_Intersection bs pbsOther =
     (case pbsOther of None \<Rightarrow> bs
      | Some other \<Rightarrow>
          RecomputeSize (bs\<lparr>m_bsllist := and_links (m_bsllist other) None (m_bsllist bs)\<rparr>))"

fun contains_links :: "CBitSetLink list \<Rightarrow> nat option \<Rightarrow> CBitSetLink list \<Rightarrow> bool" where
  "contains_links links bsl [] = True"
| "contains_links links bsl (other # others) =
     (let bsl' = FindLinkByOffset links (m_offset other) bsl
      in if \<not> found_at links (m_offset other) bsl' \<or>
            \<not> bv_ContainsAll (m_bv (links ! the bsl')) (m_bv other)
         then False else contains_links links bsl' others)"

definition bs_ContainsAll :: "CBitSet \<Rightarrow> CBitSet \<Rightarrow> bool" where
  "bs_ContainsAll this bs =
     (if m_size this < m_size bs then False
      else contains_links (m_bsllist this) None (m_bsllist bs))"

fun equal_links :: "CBitSetLink list \<Rightarrow> CBitSetLink list \<Rightarrow> bool" where
  "equal_links [] others = (others = [])"
| "equal_links (bsl # links) [] = False"
| "equal_links (bsl # links) (other # others) =
     (if m_offset bsl \<noteq> m_offset other \<or> \<not> bv_Equals (m_bv bsl) (m_bv other) then False
      else equal_links links others)"

text \<open>
  The pointer comparison at the start of \<^verbatim>\<open>Equals\<close> only saves work: objects are values here, and
  comparing a set with itself by its links succeeds.
\<close>

definition bs_Equals :: "CBitSet \<Rightarrow> CBitSet \<Rightarrow> bool" where
  "bs_Equals this bs =
     (if m_size this \<noteq> m_size bs then False
      else equal_links (m_bsllist this) (m_bsllist bs))"

fun disjoint_links :: "CBitSetLink list \<Rightarrow> nat option \<Rightarrow> CBitSetLink list \<Rightarrow> bool" where
  "disjoint_links links bsl [] = True"
| "disjoint_links links bsl (other # others) =
     (let bsl' = FindLinkByOffset links (m_offset other) bsl
      in if found_at links (m_offset other) bsl' \<and>
            \<not> bv_IsDisjoint (m_bv (links ! the bsl')) (m_bv other)
         then False else disjoint_links links bsl' others)"

definition bs_IsDisjoint :: "CBitSet \<Rightarrow> CBitSet \<Rightarrow> bool" where
  "bs_IsDisjoint this bs = disjoint_links (m_bsllist this) None (m_bsllist bs)"

definition bs_HashValue :: "CBitSet \<Rightarrow> hash32" where
  "bs_HashValue bs = fold (\<lambda>bsl ulHash. CombineHashes ulHash (bv_HashValue (m_bv bsl))) (m_bsllist bs) 0"

subsection \<open>Iterator\<close>

record CBitSetIter =
  m_cursor :: ulong
  m_bsl :: "nat option"
  m_active :: bool

definition iter_new :: CBitSetIter where
  "iter_new = \<lparr>m_cursor = ulong_max, m_bsl = None, m_active = True\<rparr>"

text \<open>
  The loop of \<^verbatim>\<open>Advance\<close>.  The cursor starts at \<^verbatim>\<open>(ULONG) -1\<close>, so \<^verbatim>\<open>m_cursor + 1\<close> wraps around to
  position 0 of a link; the sum is therefore taken modulo \<open>2 ^ 32\<close>.
\<close>

function advance_loop :: "CBitSet \<Rightarrow> ulong \<Rightarrow> nat \<Rightarrow> ulong \<times> nat option" where
  "advance_loop bs cursor i =
     (if i < length (m_bsllist bs) then
        (let start = (cursor + 1) mod ulong_modulus;
             nxt = (if start \<le> m_vector_size bs
                    then bv_GetNextSetBit (m_bv (m_bsllist bs ! i)) start else None)
         in case nxt of Some p \<Rightarrow> (p, Some i) | None \<Rightarrow> advance_loop bs ulong_max (Suc i))
      else (cursor, None))"
  by pat_completeness auto
termination
  by (relation "measure (\<lambda>(bs, cursor, i). length (m_bsllist bs) - i)") auto

declare advance_loop.simps [simp del]

definition iter_Advance :: "CBitSet \<Rightarrow> CBitSetIter \<Rightarrow> bool \<times> CBitSetIter" where
  "iter_Advance bs it =
     (let start = (case m_bsl it of None \<Rightarrow> 0 | Some i \<Rightarrow> i);
          (cursor, bsl) = advance_loop bs (m_cursor it) start;
          active = (bsl \<noteq> None)
      in (active, \<lparr>m_cursor = cursor, m_bsl = bsl, m_active = active\<rparr>))"

definition iter_Bit :: "CBitSet \<Rightarrow> CBitSetIter \<Rightarrow> ulong" where
  "iter_Bit bs it = m_offset (m_bsllist bs ! the (m_bsl it)) + m_cursor it"

text \<open>
  \<^verbatim>\<open>while (iter.Advance()) collect(iter.Bit())\<close>, the way every client uses an iterator.  The fuel is
  one more than the number of positions the links can hold, which \<open>iter_elements_sorted\<close> shows to
  be enough.
\<close>

fun iter_drain :: "nat \<Rightarrow> CBitSet \<Rightarrow> CBitSetIter \<Rightarrow> ulong list" where
  "iter_drain 0 bs it = []"
| "iter_drain (Suc fuel) bs it =
     (case iter_Advance bs it of (active, it') \<Rightarrow>
        if active then iter_Bit bs it' # iter_drain fuel bs it' else [])"

definition iter_elements :: "CBitSet \<Rightarrow> ulong list" where
  "iter_elements bs =
     iter_drain (Suc (length (m_bsllist bs) * m_vector_size bs)) bs iter_new"

definition bs_Difference :: "CBitSet \<Rightarrow> CBitSet \<Rightarrow> CBitSet" where
  "bs_Difference bs pbs =
     (if bs_IsDisjoint bs pbs then bs
      else fold (\<lambda>b s. snd (bs_ExchangeClear s b)) (iter_elements pbs) bs)"

end
