(* ===== verification/SetSpec.thy ===== *)
theory SetSpec
  imports Prelude
begin

text \<open>
  The interface that the clients of \<^verbatim>\<open>CBitSet\<close> rely on, as a locale: an abstraction function into
  sets of numbers, a representation invariant, and for every operation the set operation it has to
  compute.  The lemmas of the locale are the small routines that the hypergraph code builds from
  these operations (\<^verbatim>\<open>PbsSingleton\<close>, \<^verbatim>\<open>PbsLowerNodes\<close>, \<^verbatim>\<open>LowestBit\<close>, \<^verbatim>\<open>PbsUnion\<close>, \<^verbatim>\<open>FSubset\<close>): whatever
  implements the contract, they denote \<open>{n}\<close>, \<open>{..<n}\<close>, \<open>Min\<close>, union and inclusion.  The client
  components may therefore be modelled over sets of numbers with ascending iteration.
\<close>

locale number_set =
  fixes abs :: "'b \<Rightarrow> nat set"
    and inv :: "'b \<Rightarrow> bool"
    and empty :: 'b
    and get :: "'b \<Rightarrow> nat \<Rightarrow> bool"
    and exchange_set :: "'b \<Rightarrow> nat \<Rightarrow> bool \<times> 'b"
    and exchange_clear :: "'b \<Rightarrow> nat \<Rightarrow> bool \<times> 'b"
    and size_of :: "'b \<Rightarrow> nat"
    and elements :: "'b \<Rightarrow> nat list"
  assumes empty_abs: "abs empty = {}"
    and empty_inv: "inv empty"
    and finite_abs: "inv s \<Longrightarrow> finite (abs s)"
    and get_abs: "inv s \<Longrightarrow> get s n \<longleftrightarrow> n \<in> abs s"
    and set_abs: "inv s \<Longrightarrow> abs (snd (exchange_set s n)) = insert n (abs s)"
    and set_inv: "inv s \<Longrightarrow> inv (snd (exchange_set s n))"
    and set_old: "inv s \<Longrightarrow> fst (exchange_set s n) \<longleftrightarrow> n \<in> abs s"
    and clear_abs: "inv s \<Longrightarrow> abs (snd (exchange_clear s n)) = abs s - {n}"
    and clear_inv: "inv s \<Longrightarrow> inv (snd (exchange_clear s n))"
    and clear_old: "inv s \<Longrightarrow> fst (exchange_clear s n) \<longleftrightarrow> n \<in> abs s"
    and size_abs: "inv s \<Longrightarrow> size_of s = card (abs s)"
    and elements_abs: "inv s \<Longrightarrow> elements s = sorted_list_of_set (abs s)"
begin

lemma set_all:
  "inv s \<Longrightarrow> inv (fold (\<lambda>n s. snd (exchange_set s n)) ns s) \<and>
     abs (fold (\<lambda>n s. snd (exchange_set s n)) ns s) = abs s \<union> set ns"
  by (induction ns arbitrary: s) (auto simp: set_abs set_inv)

lemma singleton_abs:
  "abs (snd (exchange_set empty n)) = {n}" "inv (snd (exchange_set empty n))"
  by (simp_all add: set_abs set_inv empty_abs empty_inv)

lemma lower_nodes_abs:
  "abs (fold (\<lambda>n s. snd (exchange_set s n)) [0..<k] empty) = {..<k}"
  "inv (fold (\<lambda>n s. snd (exchange_set s n)) [0..<k] empty)"
  using set_all [OF empty_inv, of "[0..<k]"] by (simp_all only: empty_abs set_upt Un_empty_left lessThan_atLeast0)

lemma first_element:
  assumes "inv s" and "0 < size_of s"
  shows "elements s \<noteq> []" and "hd (elements s) = Min (abs s)"
proof -
  have ne: "finite (abs s)" "abs s \<noteq> {}"
    using assms by (auto simp: finite_abs size_abs card_gt_0_iff)
  then show "elements s \<noteq> []" using assms(1) by (simp add: elements_abs)
  show "hd (elements s) = Min (abs s)"
    using ne assms(1) sorted_list_of_set_nonempty [OF ne] by (simp add: elements_abs)
qed

lemma restore_after_toggle:
  assumes "inv s" and "\<not> get s n"
  shows "abs (snd (exchange_clear (snd (exchange_set s n)) n)) = abs s"
  using assms by (simp add: clear_abs set_abs set_inv get_abs)

end

locale number_set_algebra = number_set abs inv empty get exchange_set exchange_clear size_of elements
  for abs :: "'b \<Rightarrow> nat set" and inv empty get exchange_set exchange_clear size_of elements +
  fixes copy :: "'b \<Rightarrow> 'b"
    and union :: "'b \<Rightarrow> 'b \<Rightarrow> 'b"
    and intersection :: "'b \<Rightarrow> 'b \<Rightarrow> 'b"
    and difference :: "'b \<Rightarrow> 'b \<Rightarrow> 'b"
    and contains_all :: "'b \<Rightarrow> 'b \<Rightarrow> bool"
    and is_disjoint :: "'b \<Rightarrow> 'b \<Rightarrow> bool"
    and equals :: "'b \<Rightarrow> 'b \<Rightarrow> bool"
    and hash :: "'b \<Rightarrow> hash32"
  assumes copy_abs: "inv s \<Longrightarrow> inv (copy s) \<and> abs (copy s) = abs s"
    and union_abs: "inv s \<Longrightarrow> inv t \<Longrightarrow> inv (union s t) \<and> abs (union s t) = abs s \<union> abs t"
    and intersection_abs:
      "inv s \<Longrightarrow> inv t \<Longrightarrow> inv (intersection s t) \<and> abs (intersection s t) = abs s \<inter> abs t"
    and difference_abs:
      "inv s \<Longrightarrow> inv t \<Longrightarrow> inv (difference s t) \<and> abs (difference s t) = abs s - abs t"
    and contains_abs: "inv s \<Longrightarrow> inv t \<Longrightarrow> contains_all s t \<longleftrightarrow> abs t \<subseteq> abs s"
    and disjoint_abs: "inv s \<Longrightarrow> inv t \<Longrightarrow> is_disjoint s t \<longleftrightarrow> abs s \<inter> abs t = {}"
    and equals_abs: "inv s \<Longrightarrow> inv t \<Longrightarrow> equals s t \<longleftrightarrow> abs s = abs t"
    and hash_abs: "inv s \<Longrightarrow> inv t \<Longrightarrow> abs s = abs t \<Longrightarrow> hash s = hash t"
begin

lemma copy_union_abs:
  "inv s \<Longrightarrow> inv t \<Longrightarrow> abs (union (copy s) t) = abs s \<union> abs t"
  by (simp add: copy_abs union_abs)

lemma grow_and_forbid:
  assumes "inv s" and "inv f" and "inv n" and "inv g"
  shows "abs (difference (union (copy f) n) (union (copy s) g)) = (abs f \<union> abs n) - (abs s \<union> abs g)"
  using assms by (simp add: copy_abs union_abs difference_abs)

lemma equals_hash: "inv s \<Longrightarrow> inv t \<Longrightarrow> equals s t \<Longrightarrow> hash s = hash t"
  by (intro hash_abs) (simp_all add: equals_abs)

lemma hash_rebuild:
  assumes "inv s"
  shows "hash (fold (\<lambda>n s. snd (exchange_set s n)) (elements s) empty) = hash s"
  using assms set_all [OF empty_inv, of "elements s"]
  by (intro hash_abs) (simp_all add: empty_abs elements_abs finite_abs)

end

end
