(* ===== verification/BitSetCorrect.thy ===== *)
theory BitSetCorrect
  imports BitSet SetSpec
begin

text \<open>
  Correctness of the sparse bit set: the representation invariant is kept by every operation and
  every operation computes the set operation it is named after.  The link sweeps are first shown to
  depend only on the lookup of a link by its offset (\<open>link_at\<close>), independently of the cursor that
  the code carries along.
\<close>

subsection \<open>Abstraction and invariant\<close>

definition links_set :: "CBitSetLink list \<Rightarrow> nat set" where
  "links_set ls = (\<Union>l\<in>set ls. (\<lambda>k. m_offset l + k) ` bv_bits (m_bv l))"

definition link_ok :: "nat \<Rightarrow> CBitSetLink \<Rightarrow> bool" where
  "link_ok vs l \<longleftrightarrow> vs dvd m_offset l \<and> bv_inv (m_bv l) \<and> m_nbits (m_bv l) = vs"

definition links_ok :: "nat \<Rightarrow> CBitSetLink list \<Rightarrow> bool" where
  "links_ok vs ls \<longleftrightarrow> sorted_wrt (<) (map m_offset ls) \<and> (\<forall>l\<in>set ls. link_ok vs l)"

definition bs_set :: "CBitSet \<Rightarrow> nat set" where
  "bs_set bs = links_set (m_bsllist bs)"

definition bs_inv :: "CBitSet \<Rightarrow> bool" where
  "bs_inv bs \<longleftrightarrow> 0 < m_vector_size bs \<and> m_vector_size bs < ulong_modulus \<and>
     links_ok (m_vector_size bs) (m_bsllist bs) \<and>
     (\<forall>l\<in>set (m_bsllist bs). bv_bits (m_bv l) \<noteq> {}) \<and> m_size bs = card (bs_set bs)"

definition link_at :: "CBitSetLink list \<Rightarrow> nat \<Rightarrow> CBitVector option" where
  "link_at ls off = map_of (map (\<lambda>l. (m_offset l, m_bv l)) ls) off"

lemma link_at_simps [simp]:
  "link_at [] off = None"
  "link_at (l # ls) off = (if m_offset l = off then Some (m_bv l) else link_at ls off)"
  by (simp_all add: link_at_def)

lemma link_at_append [simp]:
  "link_at (xs @ ys) off = (case link_at xs off of None \<Rightarrow> link_at ys off | Some v \<Rightarrow> Some v)"
  by (induction xs) auto

lemma link_at_None_iff: "link_at ls off = None \<longleftrightarrow> off \<notin> m_offset ` set ls"
  by (induction ls) auto

lemma link_at_SomeD: "link_at ls off = Some v \<Longrightarrow> \<exists>l\<in>set ls. m_offset l = off \<and> m_bv l = v"
  by (induction ls) (auto split: if_splits)

lemma link_at_SomeI:
  "sorted_wrt (<) (map m_offset ls) \<Longrightarrow> l \<in> set ls \<Longrightarrow> link_at ls (m_offset l) = Some (m_bv l)"
  by (induction ls) auto

lemma links_ok_Cons:
  "links_ok vs (l # ls) \<longleftrightarrow> link_ok vs l \<and> (\<forall>k\<in>set ls. m_offset l < m_offset k) \<and> links_ok vs ls"
  by (auto simp: links_ok_def)

lemma links_ok_Nil [simp]: "links_ok vs []"
  by (simp add: links_ok_def)

lemma offset_of_member:
  assumes "link_ok vs l" and "k \<in> bv_bits (m_bv l)"
  shows "(m_offset l + k) div vs * vs = m_offset l" and "(m_offset l + k) mod vs = k"
proof -
  have "k < vs" using assms bv_bits_less by (auto simp: link_ok_def)
  moreover obtain q where "m_offset l = vs * q" using assms(1) by (auto simp: link_ok_def)
  ultimately show "(m_offset l + k) div vs * vs = m_offset l" and "(m_offset l + k) mod vs = k"
    by simp_all
qed

lemma links_set_iff:
  assumes "links_ok vs ls"
  shows "p \<in> links_set ls \<longleftrightarrow> (\<exists>v. link_at ls (p div vs * vs) = Some v \<and> p mod vs \<in> bv_bits v)"
proof
  assume "p \<in> links_set ls"
  then obtain l k where l: "l \<in> set ls" "p = m_offset l + k" "k \<in> bv_bits (m_bv l)"
    by (auto simp: links_set_def)
  with assms have "link_ok vs l" by (auto simp: links_ok_def)
  with l offset_of_member [of vs l k] link_at_SomeI [of ls l] assms
  show "\<exists>v. link_at ls (p div vs * vs) = Some v \<and> p mod vs \<in> bv_bits v"
    by (auto simp: links_ok_def)
next
  assume "\<exists>v. link_at ls (p div vs * vs) = Some v \<and> p mod vs \<in> bv_bits v"
  then obtain l where l: "l \<in> set ls" "m_offset l = p div vs * vs" "p mod vs \<in> bv_bits (m_bv l)"
    by (auto dest: link_at_SomeD)
  then have "p \<in> (\<lambda>k. m_offset l + k) ` bv_bits (m_bv l)"
    by (intro image_eqI [where x = "p mod vs"]) simp_all
  with l(1) show "p \<in> links_set ls" by (auto simp: links_set_def)
qed

lemma links_set_simps [simp]:
  "links_set [] = {}"
  "links_set (l # ls) = (\<lambda>k. m_offset l + k) ` bv_bits (m_bv l) \<union> links_set ls"
  by (simp_all add: links_set_def)

lemma finite_links_set [simp]: "finite (links_set ls)"
  by (simp add: links_set_def)

lemma finite_bs_set [simp]: "finite (bs_set bs)"
  by (simp add: bs_set_def)

lemma link_disjoint_rest:
  assumes "links_ok vs (l # ls)"
  shows "(\<lambda>k. m_offset l + k) ` bv_bits (m_bv l) \<inter> links_set ls = {}"
proof -
  have "m_offset l + k \<notin> links_set ls" if "k \<in> bv_bits (m_bv l)" for k
  proof
    assume "m_offset l + k \<in> links_set ls"
    then obtain v where "link_at ls ((m_offset l + k) div vs * vs) = Some v"
      using assms links_set_iff [of vs ls] by (auto simp: links_ok_Cons)
    moreover have "(m_offset l + k) div vs * vs = m_offset l"
      using assms that offset_of_member by (auto simp: links_ok_Cons)
    ultimately show False using assms by (auto simp: links_ok_Cons dest!: link_at_SomeD)
  qed
  then show ?thesis by auto
qed

lemma card_links_set:
  "links_ok vs ls \<Longrightarrow> card (links_set ls) = (\<Sum>l\<leftarrow>ls. card (bv_bits (m_bv l)))"
proof (induction ls)
  case (Cons l ls)
  have "card ((\<lambda>k. m_offset l + k) ` bv_bits (m_bv l)) = card (bv_bits (m_bv l))"
    by (rule card_image) simp
  with Cons link_disjoint_rest [OF Cons.prems] show ?case
    by (simp add: card_Un_disjoint links_ok_Cons)
qed simp

lemma RecomputeSize_card:
  assumes "links_ok vs (m_bsllist bs)"
  shows "m_size (RecomputeSize bs) = card (bs_set bs)"
proof -
  have "fold (\<lambda>bsl sz. sz + bv_CountSetBits (m_bv bsl)) ls a = a + (\<Sum>l\<leftarrow>ls. card (bv_bits (m_bv l)))"
    if "links_ok vs ls" for ls a
    using that by (induction ls arbitrary: a) (auto simp: links_ok_Cons link_ok_def bv_simps)
  with assms show ?thesis by (simp add: RecomputeSize_def bs_set_def card_links_set)
qed

lemma RecomputeSize_fields [simp]:
  "m_bsllist (RecomputeSize bs) = m_bsllist bs"
  "m_vector_size (RecomputeSize bs) = m_vector_size bs"
  "bs_set (RecomputeSize bs) = bs_set bs"
  by (simp_all add: RecomputeSize_def bs_set_def)

lemma bs_inv_RecomputeSize:
  assumes "0 < m_vector_size bs" and "m_vector_size bs < ulong_modulus"
    and "links_ok (m_vector_size bs) (m_bsllist bs)"
    and "\<forall>l\<in>set (m_bsllist bs). bv_bits (m_bv l) \<noteq> {}"
  shows "bs_inv (RecomputeSize bs)"
  using assms RecomputeSize_card by (simp add: bs_inv_def)

subsection \<open>Finding a link\<close>

definition cursor_ok :: "CBitSetLink list \<Rightarrow> nat \<Rightarrow> nat option \<Rightarrow> bool" where
  "cursor_ok ls off c = (case c of None \<Rightarrow> True | Some i \<Rightarrow> i < length ls \<and> m_offset (ls ! i) \<le> off)"

abbreviation upto_offset :: "CBitSetLink list \<Rightarrow> nat \<Rightarrow> CBitSetLink list" where
  "upto_offset ls off \<equiv> takeWhile (\<lambda>l. m_offset l \<le> off) ls"

lemma find_link_loop_eq:
  assumes "cursor \<le> length (upto_offset ls off)"
  shows "find_link_loop ls off found cursor =
    (if length (upto_offset ls off) = cursor then found
     else Some (length (upto_offset ls off) - 1))"
  using assms
proof (induction ls off found cursor rule: find_link_loop.induct)
  case (1 ls off found cursor)
  let ?n = "length (upto_offset ls off)"
  have n: "?n \<le> length ls" by (rule length_takeWhile_le)
  show ?case
  proof (cases "?n = cursor")
    case True
    then have "length ls \<le> cursor \<or> off < m_offset (ls ! cursor)"
      using nth_length_takeWhile [of "\<lambda>l. m_offset l \<le> off" ls] n by fastforce
    with True show ?thesis by (simp add: find_link_loop.simps [of ls off found cursor])
  next
    case False
    with 1(2) have lt: "cursor < ?n" by simp
    then have "m_offset (ls ! cursor) \<le> off"
      using set_takeWhileD [OF nth_mem [OF lt]] by (simp only: takeWhile_nth [OF lt])
    with lt n have step: "find_link_loop ls off found cursor = find_link_loop ls off (Some cursor) (Suc cursor)"
      by (simp add: find_link_loop.simps [of ls off found cursor])
    have "find_link_loop ls off (Some cursor) (Suc cursor) =
        (if ?n = Suc cursor then Some cursor else Some (?n - 1))"
      using 1(1) lt n \<open>m_offset (ls ! cursor) \<le> off\<close> by simp
    with step lt show ?thesis by auto
  qed
qed

text \<open>On a sorted list the result does not depend on a valid starting cursor.\<close>

lemma FindLinkByOffset_eq:
  assumes "sorted_wrt (<) (map m_offset ls)" and "cursor_ok ls off c"
  shows "FindLinkByOffset ls off c =
    (if upto_offset ls off = [] then None else Some (length (upto_offset ls off) - 1))"
proof (cases c)
  case None
  then show ?thesis by (simp add: FindLinkByOffset_def find_link_loop_eq)
next
  case (Some i)
  with assms(2) have i: "i < length ls" "m_offset (ls ! i) \<le> off" by (auto simp: cursor_ok_def)
  have "m_offset (ls ! j) \<le> off" if "j \<le> i" for j
    using that i sorted_wrt_nth_less [OF assms(1), of j i] by (cases "j = i") auto
  then have "i < length (upto_offset ls off)"
    using i(1) by (meson length_takeWhile_less_P_nth less_Suc_eq_le Suc_le_lessD Suc_leI)
  with Some show ?thesis by (auto simp: FindLinkByOffset_def find_link_loop_eq)
qed

lemma cursor_ok_None [simp]: "cursor_ok ls off None"
  by (simp add: cursor_ok_def)

lemma cursor_ok_mono: "cursor_ok ls off c \<Longrightarrow> off \<le> off' \<Longrightarrow> cursor_ok ls off' c"
  by (auto simp: cursor_ok_def split: option.splits)

lemma upto_offset_index:
  assumes "sorted_wrt (<) (map m_offset ls)" and "i < length ls"
  shows "upto_offset ls (m_offset (ls ! i)) = take (Suc i) ls"
proof (rule takeWhile_eq_take_P_nth)
  fix j assume "j < Suc i" and "j < length ls"
  then show "m_offset (ls ! j) \<le> m_offset (ls ! i)"
    using assms sorted_wrt_nth_less [OF assms(1), of j i] by (cases "j = i") auto
next
  assume "Suc i < length ls"
  then show "\<not> m_offset (ls ! Suc i) \<le> m_offset (ls ! i)"
    using sorted_wrt_nth_less [OF assms(1), of i "Suc i"] by simp
qed

lemma upto_offset_last:
  assumes "upto_offset ls off \<noteq> []"
  shows "length (upto_offset ls off) - 1 < length ls"
    and "m_offset (ls ! (length (upto_offset ls off) - 1)) \<le> off"
proof -
  let ?i = "length (upto_offset ls off) - 1"
  have i: "?i < length (upto_offset ls off)" using assms by simp
  then show "?i < length ls" using length_takeWhile_le [of "\<lambda>l. m_offset l \<le> off" ls] by linarith
  show "m_offset (ls ! ?i) \<le> off"
    using set_takeWhileD [OF nth_mem [OF i]] by (simp only: takeWhile_nth [OF i])
qed

lemma find_cursor_ok:
  assumes "sorted_wrt (<) (map m_offset ls)" and "cursor_ok ls off c"
  shows "cursor_ok ls off (FindLinkByOffset ls off c)"
  using upto_offset_last [of off ls] by (simp add: FindLinkByOffset_eq [OF assms] cursor_ok_def)

text \<open>The two facts the sweeps rest on: a match is found exactly when there is a link, and it is that link.\<close>

lemma found_at_link:
  assumes "sorted_wrt (<) (map m_offset ls)" and "cursor_ok ls off c"
    and "found_at ls off (FindLinkByOffset ls off c)"
  shows "the (FindLinkByOffset ls off c) < length ls"
    and "link_at ls off = Some (m_bv (ls ! the (FindLinkByOffset ls off c)))"
proof -
  let ?i = "the (FindLinkByOffset ls off c)"
  show i: "?i < length ls"
    using assms(3) upto_offset_last [of off ls]
    by (auto simp: FindLinkByOffset_eq [OF assms(1,2)] found_at_def split: if_splits)
  then have "ls ! ?i \<in> set ls" by simp
  from link_at_SomeI [OF assms(1) this] assms(3)
  show "link_at ls off = Some (m_bv (ls ! ?i))" by (simp add: found_at_def)
qed

lemma found_at_iff:
  assumes "sorted_wrt (<) (map m_offset ls)" and "cursor_ok ls off c"
  shows "found_at ls off (FindLinkByOffset ls off c) \<longleftrightarrow> link_at ls off \<noteq> None"
proof
  assume "found_at ls off (FindLinkByOffset ls off c)"
  from found_at_link(2) [OF assms this] show "link_at ls off \<noteq> None" by simp
next
  assume "link_at ls off \<noteq> None"
  then obtain i where i: "i < length ls" "m_offset (ls ! i) = off"
    by (auto simp: link_at_None_iff in_set_conv_nth)
  then have "upto_offset ls off = take (Suc i) ls" using upto_offset_index [OF assms(1)] by blast
  with i show "found_at ls off (FindLinkByOffset ls off c)"
    by (auto simp: FindLinkByOffset_eq [OF assms] found_at_def)
qed

lemma insert_link_eq:
  assumes "sorted_wrt (<) (map m_offset ls)" and "cursor_ok ls off c"
  shows "insert_link new (FindLinkByOffset ls off c) ls =
    upto_offset ls off @ new # dropWhile (\<lambda>l. m_offset l \<le> off) ls"
proof (cases "upto_offset ls off = []")
  case True
  then have "dropWhile (\<lambda>l. m_offset l \<le> off) ls = ls" by (simp add: dropWhile_eq_drop)
  with True show ?thesis by (simp add: FindLinkByOffset_eq [OF assms] insert_link_def)
next
  case False
  then have "Suc (length (upto_offset ls off) - 1) = length (upto_offset ls off)" by simp
  with False show ?thesis
    by (simp add: FindLinkByOffset_eq [OF assms] insert_link_def dropWhile_eq_drop flip: takeWhile_eq_take)
qed

lemma sorted_insert_link:
  assumes "sorted_wrt (<) (map m_offset ls)" and "link_at ls (m_offset new) = None"
  shows "sorted_wrt (<) (map m_offset
    (upto_offset ls (m_offset new) @ new # dropWhile (\<lambda>l. m_offset l \<le> m_offset new) ls))"
  using assms
proof (induction ls)
  case (Cons l ls)
  have "m_offset new < m_offset l" if "\<not> m_offset l \<le> m_offset new" using that by simp
  with Cons show ?case by (auto split: if_splits dest: set_takeWhileD set_dropWhileD)
qed simp

lemma link_at_insert_link:
  "link_at ls (m_offset new) = None \<Longrightarrow>
   link_at (upto_offset ls (m_offset new) @ new # dropWhile (\<lambda>l. m_offset l \<le> m_offset new) ls) off =
     (if off = m_offset new then Some (m_bv new) else link_at ls off)"
  by (induction ls) (auto split: if_splits option.splits)

lemma set_insert_link:
  "set (upto_offset ls off @ new # dropWhile (\<lambda>l. m_offset l \<le> off) ls) = insert new (set ls)"
  by (metis (no_types, lifting) Un_insert_right list.simps(15) set_append takeWhile_dropWhile_id)

lemma links_ok_insert_link:
  assumes "links_ok vs ls" and "link_at ls (m_offset new) = None" and "link_ok vs new"
  shows "links_ok vs (upto_offset ls (m_offset new) @ new # dropWhile (\<lambda>l. m_offset l \<le> m_offset new) ls)"
  using assms sorted_insert_link [of ls new] by (simp add: links_ok_def set_insert_link del: set_append map_append)

lemma link_at_update:
  assumes "sorted_wrt (<) (map m_offset ls)" and "i < length ls"
  shows "link_at (ls[i := (ls ! i)\<lparr>m_bv := v\<rparr>]) off =
    (if off = m_offset (ls ! i) then Some v else link_at ls off)"
  using assms
proof (induction ls arbitrary: i)
  case (Cons l ls)
  then show ?case by (cases i) (auto dest: nth_mem)
qed simp

lemma links_ok_update:
  assumes "links_ok vs ls" and "i < length ls" and "bv_inv v" and "m_nbits v = vs"
  shows "links_ok vs (ls[i := (ls ! i)\<lparr>m_bv := v\<rparr>])"
proof -
  have "map m_offset (ls[i := (ls ! i)\<lparr>m_bv := v\<rparr>]) = map m_offset ls"
    using assms(2) by (simp add: map_update list_update_same_conv)
  with assms show ?thesis
    by (auto simp: links_ok_def link_ok_def dest!: set_update_subset_insert [THEN subsetD] nth_mem)
qed

lemma links_set_put:
  assumes "links_ok vs ls" and "links_ok vs ls'" and "0 < vs"
    and "\<And>off. link_at ls' off = (if off = p div vs * vs then w else link_at ls off)"
  shows "q \<in> links_set ls' \<longleftrightarrow>
    (if q div vs = p div vs then \<exists>v. w = Some v \<and> q mod vs \<in> bv_bits v else q \<in> links_set ls)"
  using assms by (simp add: links_set_iff)

lemma link_at_ok:
  "links_ok vs ls \<Longrightarrow> link_at ls off = Some v \<Longrightarrow> bv_inv v \<and> m_nbits v = vs"
  by (auto simp: links_ok_def link_ok_def dest!: link_at_SomeD)

lemma eq_div_mod_iff: "q = p \<longleftrightarrow> q div vs = p div vs \<and> q mod vs = p mod (vs::nat)"
  by (metis div_mult_mod_eq)

lemma bs_invD:
  assumes "bs_inv bs"
  shows "0 < m_vector_size bs" and "m_vector_size bs < ulong_modulus"
    and "links_ok (m_vector_size bs) (m_bsllist bs)"
    and "sorted_wrt (<) (map m_offset (m_bsllist bs))"
    and "l \<in> set (m_bsllist bs) \<Longrightarrow> bv_bits (m_bv l) \<noteq> {}"
    and "m_size bs = card (bs_set bs)"
  using assms by (auto simp: bs_inv_def links_ok_def)

subsection \<open>Single-element operations\<close>

lemma bs_new_inv [simp]: "0 < n \<Longrightarrow> n < ulong_modulus \<Longrightarrow> bs_inv (bs_new n)"
  by (simp add: bs_inv_def bs_new_def bs_set_def)

lemma bs_new_set [simp]: "bs_set (bs_new n) = {}"
  by (simp add: bs_new_def bs_set_def)

lemma bs_Get_iff [bs_simps]:
  assumes "bs_inv bs"
  shows "bs_Get bs p \<longleftrightarrow> p \<in> bs_set bs"
proof -
  let ?vs = "m_vector_size bs" and ?ls = "m_bsllist bs"
  let ?off = "p div ?vs * ?vs"
  let ?f = "FindLinkByOffset ?ls ?off None"
  note inv = bs_invD [OF assms]
  have found: "found_at ?ls ?off ?f \<longleftrightarrow> link_at ?ls ?off \<noteq> None"
    by (rule found_at_iff [OF inv(4)]) simp
  have m: "p - ?off = p mod ?vs" by (simp add: minus_div_mult_eq_mod)
  show ?thesis
  proof (cases "found_at ?ls ?off ?f")
    case True
    note l = found_at_link [OF inv(4) cursor_ok_None True]
    have "bv_inv (m_bv (?ls ! the ?f)) \<and> m_nbits (m_bv (?ls ! the ?f)) = ?vs"
      using link_at_ok [OF inv(3) l(2)] .
    with True l(2) inv(1) m show ?thesis
      by (simp add: bs_Get_def ComputeOffset_def Let_def bv_simps bs_set_def links_set_iff [OF inv(3)])
  next
    case False
    with found show ?thesis
      by (simp add: bs_Get_def ComputeOffset_def Let_def bs_set_def links_set_iff [OF inv(3)])
  qed
qed

text \<open>
  The link that \<^verbatim>\<open>ExchangeSet\<close> writes to: the one found, or a fresh one at its sorted place.
\<close>

lemma ExchangeSet_target:
  assumes "bs_inv bs" and "off = p div m_vector_size bs * m_vector_size bs"
    and "bsl = FindLinkByOffset (m_bsllist bs) off None"
    and "(links, i) =
            (if found_at (m_bsllist bs) off bsl then (m_bsllist bs, the bsl)
             else (insert_link (link_new off (m_vector_size bs)) bsl (m_bsllist bs),
                   case bsl of None \<Rightarrow> 0 | Some i \<Rightarrow> Suc i))"
  shows "links_ok (m_vector_size bs) links" and "i < length links" and "m_offset (links ! i) = off"
    and "bv_bits (m_bv (links ! i)) = {k. k < m_vector_size bs \<and> off + k \<in> bs_set bs}"
    and "\<And>x. x \<noteq> off \<Longrightarrow> link_at links x = link_at (m_bsllist bs) x"
    and "\<And>l. l \<in> set links \<Longrightarrow> m_offset l \<noteq> off \<Longrightarrow> bv_bits (m_bv l) \<noteq> {}"
proof -
  let ?vs = "m_vector_size bs" and ?ls = "m_bsllist bs"
  note inv = bs_invD [OF assms(1)]
  have mem: "off + k \<in> bs_set bs \<longleftrightarrow> (\<exists>v. link_at ?ls off = Some v \<and> k \<in> bv_bits v)" if "k < ?vs" for k
    using that inv(1) by (simp add: bs_set_def links_set_iff [OF inv(3)] assms(2))
  have "links_ok ?vs links \<and> i < length links \<and> m_offset (links ! i) = off \<and>
    bv_bits (m_bv (links ! i)) = {k. k < ?vs \<and> off + k \<in> bs_set bs} \<and>
    (\<forall>x. x \<noteq> off \<longrightarrow> link_at links x = link_at ?ls x) \<and>
    (\<forall>l\<in>set links. m_offset l \<noteq> off \<longrightarrow> bv_bits (m_bv l) \<noteq> {})"
  proof (cases "found_at ?ls off bsl")
    case True
    note l = found_at_link [OF inv(4) cursor_ok_None True [unfolded assms(3)], folded assms(3)]
    have e: "links = ?ls" "i = the bsl" using assms(4) True by simp_all
    have ok: "bv_inv (m_bv (?ls ! the bsl))" "m_nbits (m_bv (?ls ! the bsl)) = ?vs"
      using link_at_ok [OF inv(3) l(2)] by simp_all
    have "k < ?vs" if "k \<in> bv_bits (m_bv (?ls ! the bsl))" for k
      using bv_bits_less [OF ok(1) that] ok(2) by simp
    then have "bv_bits (m_bv (?ls ! the bsl)) = {k. k < ?vs \<and> off + k \<in> bs_set bs}"
      using mem l(2) by (intro set_eqI) (metis mem_Collect_eq option.inject)
    with l(1) True inv(3,5) show ?thesis unfolding e by (simp add: found_at_def)
  next
    case False
    let ?new = "link_new off ?vs"
    have none: "link_at ?ls off = None"
      using False found_at_iff [OF inv(4) cursor_ok_None] by (simp add: assms(3))
    have new: "link_ok ?vs ?new" "m_offset ?new = off" "bv_bits (m_bv ?new) = {}"
      by (simp_all add: link_ok_def link_new_def assms(2) bv_simps)
    have links: "links = upto_offset ?ls off @ ?new # dropWhile (\<lambda>l. m_offset l \<le> off) ?ls"
      using assms(4) False insert_link_eq [OF inv(4) cursor_ok_None] by (simp add: assms(3))
    have i: "i = length (upto_offset ?ls off)"
      using assms(4) False FindLinkByOffset_eq [OF inv(4) cursor_ok_None, of off]
      by (auto simp: assms(3) split: if_splits)
    have "links_ok ?vs links"
      unfolding links using links_ok_insert_link [OF inv(3), of ?new] none new by simp
    moreover have "link_at links x = link_at ?ls x" if "x \<noteq> off" for x
      unfolding links using link_at_insert_link [of ?ls ?new x] none new(2) that by simp
    moreover have "bv_bits (m_bv l) \<noteq> {}" if "l \<in> set links" "m_offset l \<noteq> off" for l
      using that inv(5) new(2) unfolding links set_insert_link by blast
    moreover have "i < length links" "links ! i = ?new"
      unfolding links i by (simp_all add: nth_append)
    moreover have "{k. k < ?vs \<and> off + k \<in> bs_set bs} = {}" using mem none by simp
    ultimately show ?thesis using new by simp
  qed
  then show "links_ok (m_vector_size bs) links" and "i < length links" and "m_offset (links ! i) = off"
    and "bv_bits (m_bv (links ! i)) = {k. k < m_vector_size bs \<and> off + k \<in> bs_set bs}"
    and "\<And>x. x \<noteq> off \<Longrightarrow> link_at links x = link_at (m_bsllist bs) x"
    and "\<And>l. l \<in> set links \<Longrightarrow> m_offset l \<noteq> off \<Longrightarrow> bv_bits (m_bv l) \<noteq> {}"
    by blast+
qed

lemma bs_ExchangeSet_correct:
  assumes "bs_inv bs"
  shows "fst (bs_ExchangeSet bs p) \<longleftrightarrow> p \<in> bs_set bs"
    and "bs_set (snd (bs_ExchangeSet bs p)) = insert p (bs_set bs)"
    and "bs_inv (snd (bs_ExchangeSet bs p))"
    and "m_vector_size (snd (bs_ExchangeSet bs p)) = m_vector_size bs"
proof -
  let ?vs = "m_vector_size bs" and ?ls = "m_bsllist bs"
  define off where "off = p div ?vs * ?vs"
  define bsl where "bsl = FindLinkByOffset ?ls off None"
  obtain links i where li: "(links, i) =
            (if found_at ?ls off bsl then (?ls, the bsl)
             else (insert_link (link_new off ?vs) bsl ?ls, case bsl of None \<Rightarrow> 0 | Some i \<Rightarrow> Suc i))"
    by (metis surj_pair)
  note inv = bs_invD [OF assms]
  note t = ExchangeSet_target [OF assms off_def bsl_def li]
  define vec where "vec = snd (bv_ExchangeSet (m_bv (links ! i)) (p - off))"
  let ?b = "bv_Get (m_bv (links ! i)) (p - off)"
  let ?links' = "links[i := (links ! i)\<lparr>m_bv := vec\<rparr>]"
  have r: "bs_ExchangeSet bs p = (?b, bs\<lparr>m_bsllist := ?links',
      m_size := (if ?b then m_size bs else m_size bs + 1)\<rparr>)"
    unfolding bs_ExchangeSet_def ComputeOffset_def Let_def off_def [symmetric] bsl_def [symmetric]
      li [symmetric]
    by (simp add: vec_def case_prod_beta)
  have m: "p - off = p mod ?vs" "p mod ?vs < ?vs" "off + p mod ?vs = p"
    using inv(1) by (simp_all add: off_def minus_div_mult_eq_mod)
  have "link_ok ?vs (links ! i)" using t(1,2) by (simp add: links_ok_def)
  then have bv: "bv_inv (m_bv (links ! i))" "m_nbits (m_bv (links ! i)) = ?vs"
    by (simp_all add: link_ok_def)
  have b: "?b \<longleftrightarrow> p \<in> bs_set bs" using bv m t(4) by (simp add: bv_simps)
  have vec: "bv_inv vec" "m_nbits vec = ?vs" "bv_bits vec = insert (p mod ?vs) (bv_bits (m_bv (links ! i)))"
    using bv m by (simp_all add: vec_def bv_simps)
  have ok: "links_ok ?vs ?links'" by (rule links_ok_update [OF t(1,2) vec(1,2)])
  have at: "link_at ?links' x = (if x = p div ?vs * ?vs then Some vec else link_at ?ls x)" for x
    using t(1) link_at_update [OF _ t(2), of vec x] t(3,5) by (simp add: links_ok_def off_def)
  have set: "links_set ?links' = insert p (bs_set bs)"
  proof (rule set_eqI)
    fix q
    note put = links_set_put [OF inv(3) ok inv(1) at, of q]
    show "q \<in> links_set ?links' \<longleftrightarrow> q \<in> insert p (bs_set bs)"
    proof (cases "q div ?vs = p div ?vs")
      case True
      then have "off + q mod ?vs = q" unfolding off_def by (metis div_mult_mod_eq)
      with put True have "q \<in> links_set ?links' \<longleftrightarrow> q mod ?vs = p mod ?vs \<or> q \<in> bs_set bs"
        using vec(3) t(4) inv(1) by simp
      with True eq_div_mod_iff [of q p ?vs] show ?thesis by simp
    next
      case False
      then have "q \<noteq> p" by blast
      with put False show ?thesis by (simp add: bs_set_def)
    qed
  qed
  show "fst (bs_ExchangeSet bs p) \<longleftrightarrow> p \<in> bs_set bs" using r b by simp
  show "bs_set (snd (bs_ExchangeSet bs p)) = insert p (bs_set bs)" using r set by (simp add: bs_set_def)
  show "m_vector_size (snd (bs_ExchangeSet bs p)) = ?vs" using r by simp
  have "bv_bits (m_bv l) \<noteq> {}" if mem: "l \<in> set ?links'" for l
  proof -
    obtain j where j: "j < length links" "l = ?links' ! j"
      using mem by (metis in_set_conv_nth length_list_update)
    have "m_offset (links ! j) \<noteq> off" if "j \<noteq> i"
      using t(1,2,3) j(1) that sorted_wrt_nth_less [of "(<)" "map m_offset links"]
      by (metis length_map links_ok_def linorder_neqE_nat nth_map order_less_irrefl)
    with j t(6) [of "links ! j"] vec(3) show ?thesis by (cases "j = i") auto
  qed
  with r set ok b inv(1,2,6) show "bs_inv (snd (bs_ExchangeSet bs p))"
    by (simp add: bs_inv_def bs_set_def insert_absorb)
qed

lemma link_at_remove:
  assumes "sorted_wrt (<) (map m_offset ls)" and "i < length ls"
  shows "link_at (take i ls @ drop (Suc i) ls) x = (if x = m_offset (ls ! i) then None else link_at ls x)"
  using assms
proof (induction ls arbitrary: i)
  case (Cons l ls)
  show ?case
  proof (cases i)
    case 0
    with Cons.prems have "link_at ls (m_offset l) = None" by (auto simp: link_at_None_iff)
    with 0 show ?thesis by auto
  next
    case (Suc j)
    with Cons.prems have "m_offset l < m_offset (ls ! j)" by simp
    with Suc Cons.prems Cons.IH [of j] show ?thesis by (auto simp del: link_at_append)
  qed
qed simp

lemma set_take_drop_Suc: "set (take i xs @ drop (Suc i) xs) \<subseteq> set xs"
  by (auto dest: in_set_takeD in_set_dropD)

lemma links_ok_remove:
  assumes "links_ok vs ls"
  shows "links_ok vs (take i ls @ drop (Suc i) ls)"
proof -
  have "sorted_wrt (<) (map m_offset ls)" using assms by (simp add: links_ok_def)
  then have "sorted_wrt (<) (map m_offset (take i ls @ drop (Suc i) ls))"
  proof (induction ls arbitrary: i)
    case (Cons l ls)
    then show ?case using set_take_drop_Suc [of "i - 1" ls] by (cases i) auto
  qed simp
  with assms set_take_drop_Suc [of i ls] show ?thesis unfolding links_ok_def by blast
qed

lemma bs_ExchangeClear_correct:
  assumes "bs_inv bs"
  shows "fst (bs_ExchangeClear bs p) \<longleftrightarrow> p \<in> bs_set bs"
    and "bs_set (snd (bs_ExchangeClear bs p)) = bs_set bs - {p}"
    and "bs_inv (snd (bs_ExchangeClear bs p))"
    and "m_vector_size (snd (bs_ExchangeClear bs p)) = m_vector_size bs"
proof -
  let ?vs = "m_vector_size bs" and ?ls = "m_bsllist bs"
  define off where "off = p div ?vs * ?vs"
  define bsl where "bsl = FindLinkByOffset ?ls off None"
  note inv = bs_invD [OF assms]
  have m: "p - off = p mod ?vs" "p mod ?vs < ?vs"
    using inv(1) by (simp_all add: off_def minus_div_mult_eq_mod)
  have mem: "p \<in> bs_set bs \<longleftrightarrow> (\<exists>v. link_at ?ls off = Some v \<and> p mod ?vs \<in> bv_bits v)"
    by (simp add: bs_set_def links_set_iff [OF inv(3)] off_def)
  have "(fst (bs_ExchangeClear bs p) \<longleftrightarrow> p \<in> bs_set bs) \<and>
     bs_set (snd (bs_ExchangeClear bs p)) = bs_set bs - {p} \<and>
     bs_inv (snd (bs_ExchangeClear bs p)) \<and> m_vector_size (snd (bs_ExchangeClear bs p)) = ?vs"
  proof (cases "found_at ?ls off bsl")
    case False
    then have "link_at ?ls off = None"
      using found_at_iff [OF inv(4) cursor_ok_None] by (simp add: bsl_def)
    with mem have "p \<notin> bs_set bs" by simp
    moreover have "bs_ExchangeClear bs p = (False, bs)"
      using False unfolding bs_ExchangeClear_def ComputeOffset_def Let_def off_def [symmetric]
        bsl_def [symmetric] by simp
    ultimately show ?thesis using assms by auto
  next
    case True
    note l = found_at_link [OF inv(4) cursor_ok_None True [unfolded bsl_def], folded bsl_def]
    define i where "i = the bsl"
    have off: "m_offset (?ls ! i) = off" using True by (simp add: found_at_def i_def)
    define vec where "vec = snd (bv_ExchangeClear (m_bv (?ls ! i)) (p - off))"
    let ?b = "bv_Get (m_bv (?ls ! i)) (p - off)"
    let ?links' = "if bv_IsEmpty vec then take i ?ls @ drop (Suc i) ?ls
                   else ?ls[i := (?ls ! i)\<lparr>m_bv := vec\<rparr>]"
    have r: "bs_ExchangeClear bs p = (?b, bs\<lparr>m_bsllist := ?links',
        m_size := (if ?b then m_size bs - 1 else m_size bs)\<rparr>)"
      using True unfolding bs_ExchangeClear_def ComputeOffset_def Let_def off_def [symmetric]
        bsl_def [symmetric] by (simp add: vec_def i_def case_prod_beta)
    have bv: "bv_inv (m_bv (?ls ! i))" "m_nbits (m_bv (?ls ! i)) = ?vs"
      using link_at_ok [OF inv(3) l(2)] by (simp_all add: i_def)
    have b: "?b \<longleftrightarrow> p \<in> bs_set bs" using bv m l(2) mem by (simp add: bv_simps i_def)
    have vec: "bv_inv vec" "m_nbits vec = ?vs" "bv_bits vec = bv_bits (m_bv (?ls ! i)) - {p mod ?vs}"
      using bv m by (simp_all add: vec_def bv_simps)
    have il: "i < length ?ls" using l(1) by (simp add: i_def)
    have ok: "links_ok ?vs ?links'"
      using links_ok_remove [OF inv(3), of i] links_ok_update [OF inv(3) il vec(1,2)] by simp
    have at: "link_at ?links' x = (if x = p div ?vs * ?vs
        then (if bv_IsEmpty vec then None else Some vec) else link_at ?ls x)" for x
      using link_at_remove [OF inv(4) il, of x] link_at_update [OF inv(4) il, of vec x] off
      by (auto simp: off_def simp del: link_at_append)
    have set: "links_set ?links' = bs_set bs - {p}"
    proof (rule set_eqI)
      fix q
      note put = links_set_put [OF inv(3) ok inv(1) at, of q]
      show "q \<in> links_set ?links' \<longleftrightarrow> q \<in> bs_set bs - {p}"
      proof (cases "q div ?vs = p div ?vs")
        case same: True
        have "q \<in> links_set ?links' \<longleftrightarrow> q mod ?vs \<in> bv_bits vec"
          using put same vec(1) by (auto simp: bv_simps)
        moreover have "q \<in> bs_set bs \<longleftrightarrow> q mod ?vs \<in> bv_bits (m_bv (?ls ! i))"
          using l(2) same by (simp add: bs_set_def links_set_iff [OF inv(3)] off_def i_def)
        ultimately show ?thesis using same eq_div_mod_iff [of q p ?vs] vec(3) by auto
      next
        case False
        then have "q \<noteq> p" by blast
        with put False show ?thesis by (simp add: bs_set_def)
      qed
    qed
    have "bv_bits (m_bv k) \<noteq> {}" if "k \<in> set ?links'" for k
    proof (cases "bv_IsEmpty vec")
      case True
      with that have "k \<in> set ?ls" using set_take_drop_Suc [of i ?ls] by auto
      then show ?thesis by (rule inv(5))
    next
      case False
      with that have "k \<in> insert ((?ls ! i)\<lparr>m_bv := vec\<rparr>) (set ?ls)"
        using set_update_subset_insert [of ?ls i] by auto
      with False vec(1) inv(5) show ?thesis by (auto simp: bv_simps)
    qed
    with r set ok b inv(1,2,6) show ?thesis
      by (simp add: bs_inv_def bs_set_def card_Diff_singleton)
  qed
  then show "fst (bs_ExchangeClear bs p) \<longleftrightarrow> p \<in> bs_set bs"
    and "bs_set (snd (bs_ExchangeClear bs p)) = bs_set bs - {p}"
    and "bs_inv (snd (bs_ExchangeClear bs p))"
    and "m_vector_size (snd (bs_ExchangeClear bs p)) = m_vector_size bs" by simp_all
qed

subsection \<open>The sweeps depend on lookups only\<close>

definition cursor_ok_all :: "CBitSetLink list \<Rightarrow> CBitSetLink list \<Rightarrow> nat option \<Rightarrow> bool" where
  "cursor_ok_all ls os c \<longleftrightarrow> (\<forall>k\<in>set os. cursor_ok ls (m_offset k) c)"

lemma cursor_ok_all_None [simp]: "cursor_ok_all ls os None"
  by (simp add: cursor_ok_all_def)

lemma sweep_step:
  assumes "sorted_wrt (<) (map m_offset ls)" and "sorted_wrt (<) (map m_offset (k # os))"
    and "cursor_ok_all ls (k # os) c"
  shows "cursor_ok ls (m_offset k) c" and "sorted_wrt (<) (map m_offset os)"
    and "cursor_ok_all ls os (FindLinkByOffset ls (m_offset k) c)"
proof -
  show c: "cursor_ok ls (m_offset k) c" and "sorted_wrt (<) (map m_offset os)"
    using assms by (auto simp: cursor_ok_all_def)
  have "m_offset k \<le> m_offset k'" if "k' \<in> set os" for k' using assms(2) that by auto
  then show "cursor_ok_all ls os (FindLinkByOffset ls (m_offset k) c)"
    using cursor_ok_mono [OF find_cursor_ok [OF assms(1) c]] by (auto simp: cursor_ok_all_def)
qed

lemma found_link:
  assumes "sorted_wrt (<) (map m_offset ls)" and "cursor_ok ls off c"
  shows "found_at ls off (FindLinkByOffset ls off c) \<longleftrightarrow> link_at ls off \<noteq> None"
    and "link_at ls off = Some v \<Longrightarrow> m_bv (ls ! the (FindLinkByOffset ls off c)) = v"
  using found_at_iff [OF assms] found_at_link(2) [OF assms] by auto

lemma union_missing_eq:
  "sorted_wrt (<) (map m_offset ls) \<Longrightarrow> sorted_wrt (<) (map m_offset os) \<Longrightarrow> cursor_ok_all ls os c \<Longrightarrow>
   union_missing ls c os = map link_copy (filter (\<lambda>k. link_at ls (m_offset k) = None) os)"
proof (induction os arbitrary: c)
  case (Cons k os)
  note s = sweep_step [OF Cons.prems]
  show ?case using Cons.IH [OF Cons.prems(1) s(2,3)] found_link(1) [OF Cons.prems(1) s(1)]
    by (simp add: Let_def)
qed simp

lemma or_links_eq:
  "sorted_wrt (<) (map m_offset os) \<Longrightarrow> sorted_wrt (<) (map m_offset ls) \<Longrightarrow> cursor_ok_all os ls c \<Longrightarrow>
   or_links os c ls = map (\<lambda>l. case link_at os (m_offset l) of None \<Rightarrow> l
     | Some w \<Rightarrow> l\<lparr>m_bv := bv_Or (m_bv l) w\<rparr>) ls"
proof (induction ls arbitrary: c)
  case (Cons l ls)
  note s = sweep_step [OF Cons.prems]
  show ?case using Cons.IH [OF Cons.prems(1) s(2,3)] found_link [OF Cons.prems(1) s(1)]
    by (auto simp: Let_def split: option.splits)
qed simp

lemma and_links_eq:
  "sorted_wrt (<) (map m_offset os) \<Longrightarrow> sorted_wrt (<) (map m_offset ls) \<Longrightarrow> cursor_ok_all os ls c \<Longrightarrow>
   and_links os c ls = concat (map (\<lambda>l. case link_at os (m_offset l) of None \<Rightarrow> []
     | Some w \<Rightarrow> (if bv_IsEmpty (bv_And (m_bv l) w) then [] else [l\<lparr>m_bv := bv_And (m_bv l) w\<rparr>])) ls)"
proof (induction ls arbitrary: c)
  case (Cons l ls)
  note s = sweep_step [OF Cons.prems]
  show ?case using Cons.IH [OF Cons.prems(1) s(2,3)] found_link [OF Cons.prems(1) s(1)]
    by (auto simp: Let_def split: option.splits)
qed simp

lemma contains_links_eq:
  "sorted_wrt (<) (map m_offset ls) \<Longrightarrow> sorted_wrt (<) (map m_offset os) \<Longrightarrow> cursor_ok_all ls os c \<Longrightarrow>
   contains_links ls c os \<longleftrightarrow>
     (\<forall>k\<in>set os. \<exists>v. link_at ls (m_offset k) = Some v \<and> bv_ContainsAll v (m_bv k))"
proof (induction os arbitrary: c)
  case (Cons k os)
  note s = sweep_step [OF Cons.prems]
  show ?case using Cons.IH [OF Cons.prems(1) s(2,3)] found_link [OF Cons.prems(1) s(1)]
    by (auto simp: Let_def)
qed simp

lemma disjoint_links_eq:
  "sorted_wrt (<) (map m_offset ls) \<Longrightarrow> sorted_wrt (<) (map m_offset os) \<Longrightarrow> cursor_ok_all ls os c \<Longrightarrow>
   disjoint_links ls c os \<longleftrightarrow>
     (\<forall>k\<in>set os. \<forall>v. link_at ls (m_offset k) = Some v \<longrightarrow> bv_IsDisjoint v (m_bv k))"
proof (induction os arbitrary: c)
  case (Cons k os)
  note s = sweep_step [OF Cons.prems]
  show ?case using Cons.IH [OF Cons.prems(1) s(2,3)] found_link [OF Cons.prems(1) s(1)]
    by (auto simp: Let_def)
qed simp

lemma cursor_ok_insert_link:
  assumes "cursor_ok ls off c" and "off \<le> off'"
  shows "cursor_ok (insert_link new c ls) off' c"
  using assms by (auto simp: cursor_ok_def insert_link_def nth_append split: option.splits)

lemma insert_links_correct:
  assumes "links_ok vs ls" and "links_ok vs news" and "cursor_ok_all ls news c"
    and "\<And>n. n \<in> set news \<Longrightarrow> link_at ls (m_offset n) = None"
  shows "links_ok vs (insert_links ls c news) \<and>
    set (insert_links ls c news) = set ls \<union> set news \<and>
    (\<forall>x. link_at (insert_links ls c news) x =
       (case link_at ls x of None \<Rightarrow> link_at news x | Some v \<Rightarrow> Some v))"
  using assms
proof (induction news arbitrary: ls c)
  case Nil
  then show ?case by (auto split: option.splits)
next
  case (Cons n news)
  have srt: "sorted_wrt (<) (map m_offset ls)" "sorted_wrt (<) (map m_offset (n # news))"
    using Cons.prems(1,2) by (simp_all add: links_ok_def)
  note s = sweep_step [OF srt Cons.prems(3)]
  define c' where "c' = FindLinkByOffset ls (m_offset n) c"
  define ls' where "ls' = insert_link n c' ls"
  have none: "link_at ls (m_offset n) = None" using Cons.prems(4) by simp
  have nok: "link_ok vs n" "links_ok vs news" "\<forall>k\<in>set news. m_offset n < m_offset k"
    using Cons.prems(2) by (auto simp: links_ok_Cons)
  have ls': "ls' = upto_offset ls (m_offset n) @ n # dropWhile (\<lambda>l. m_offset l \<le> m_offset n) ls"
    unfolding ls'_def c'_def by (rule insert_link_eq [OF srt(1) s(1)])
  have ok: "links_ok vs ls'" unfolding ls' by (rule links_ok_insert_link [OF Cons.prems(1) none nok(1)])
  have at: "link_at ls' x = (if x = m_offset n then Some (m_bv n) else link_at ls x)" for x
    unfolding ls' by (rule link_at_insert_link [OF none])
  have set': "set ls' = insert n (set ls)" unfolding ls' by (rule set_insert_link)
  have cur: "cursor_ok_all ls' news c'"
    using nok(3) cursor_ok_insert_link [OF find_cursor_ok [OF srt(1) s(1)]]
    by (auto simp: cursor_ok_all_def ls'_def c'_def intro: less_imp_le)
  have "link_at ls' (m_offset k) = None" if "k \<in> set news" for k
    using that nok(3) Cons.prems(4) [of k] at by auto
  note IH = Cons.IH [OF ok nok(2) cur this]
  have r: "insert_links ls c (n # news) = insert_links ls' c' news"
    by (simp add: Let_def ls'_def c'_def)
  have "link_at news (m_offset n) = None" using nok(3) by (auto simp: link_at_None_iff)
  with IH show ?case unfolding r by (auto simp: at set' none split: option.splits)
qed

subsection \<open>Union and intersection\<close>

lemma link_copy_id: "link_ok vs l \<Longrightarrow> link_copy l = l"
  by (simp add: link_ok_def link_copy_def bv_copy_id)

lemma links_ok_filter: "links_ok vs ls \<Longrightarrow> links_ok vs (filter P ls)"
  by (auto simp: links_ok_def sorted_wrt_filter simp flip: filter_map)
    (induction ls; auto)

lemma link_at_filter_None:
  "link_at (filter (\<lambda>k. link_at ls (m_offset k) = None) os) x =
     (if link_at ls x = None then link_at os x else None)"
  by (induction os) auto

lemma link_at_map_bv:
  "link_at (map (\<lambda>l. l\<lparr>m_bv := f (m_offset l) (m_bv l)\<rparr>) ls) x = map_option (f x) (link_at ls x)"
  by (induction ls) auto

lemma bs_Union_links:
  assumes "bs_inv a" and "bs_inv b" and "m_vector_size a = m_vector_size b"
  defines "ls \<equiv> m_bsllist (bs_Union a b)"
  shows "links_ok (m_vector_size a) ls" and "\<forall>l\<in>set ls. bv_bits (m_bv l) \<noteq> {}"
    and "\<And>x. link_at ls x = (case link_at (m_bsllist a) x of None \<Rightarrow> link_at (m_bsllist b) x
       | Some v \<Rightarrow> (case link_at (m_bsllist b) x of None \<Rightarrow> Some v | Some w \<Rightarrow> Some (bv_Or v w)))"
proof -
  let ?vs = "m_vector_size a" and ?A = "m_bsllist a" and ?B = "m_bsllist b"
  note ia = bs_invD [OF assms(1)] and ib = bs_invD [OF assms(2), folded assms(3)]
  let ?new = "filter (\<lambda>k. link_at ?A (m_offset k) = None) ?B"
  have "union_missing ?A None ?B = map link_copy ?new"
    by (rule union_missing_eq [OF ia(4) ib(4)]) simp
  also have "\<dots> = ?new" using ib(3) by (auto intro!: map_idI link_copy_id simp: links_ok_def)
  finally have new: "union_missing ?A None ?B = ?new" .
  define ls1 where "ls1 = insert_links ?A None ?new"
  have "links_ok ?vs ls1 \<and> set ls1 = set ?A \<union> set ?new \<and>
      (\<forall>x. link_at ls1 x = (case link_at ?A x of None \<Rightarrow> link_at ?new x | Some v \<Rightarrow> Some v))"
    unfolding ls1_def by (rule insert_links_correct [OF ia(3) links_ok_filter [OF ib(3)]]) auto
  then have l1: "links_ok ?vs ls1" "set ls1 = set ?A \<union> set ?new"
      "\<And>x. link_at ls1 x = (case link_at ?A x of None \<Rightarrow> link_at ?B x | Some v \<Rightarrow> Some v)"
    by (auto simp: link_at_filter_None split: option.splits)
  let ?f = "\<lambda>x v. case link_at ?B x of None \<Rightarrow> v | Some w \<Rightarrow> bv_Or v w"
  have "ls = or_links ?B None ls1"
    by (simp add: ls_def bs_Union_def Let_def new ls1_def)
  also have "\<dots> = map (\<lambda>l. l\<lparr>m_bv := ?f (m_offset l) (m_bv l)\<rparr>) ls1"
    using l1(1) by (subst or_links_eq [OF ib(4)]) (auto simp: links_ok_def split: option.splits)
  finally have ls: "ls = map (\<lambda>l. l\<lparr>m_bv := ?f (m_offset l) (m_bv l)\<rparr>) ls1" .
  have okl: "link_ok ?vs l" if "l \<in> set ls1" for l using that l1(1) by (simp add: links_ok_def)
  have f_ok: "link_ok ?vs (l\<lparr>m_bv := ?f (m_offset l) (m_bv l)\<rparr>)" and
    f_bits: "bv_bits (m_bv l) \<subseteq> bv_bits (?f (m_offset l) (m_bv l))" if "l \<in> set ls1" for l
    using okl [OF that] link_at_ok [OF ib(3), of "m_offset l"]
    by (auto simp: link_ok_def bv_simps split: option.splits)
  have "map m_offset ls = map m_offset ls1" by (simp add: ls)
  moreover have "\<forall>l\<in>set ls. link_ok ?vs l" using f_ok by (auto simp: ls)
  ultimately show "links_ok ?vs ls" using l1(1) by (simp add: links_ok_def)
  show "\<forall>l\<in>set ls. bv_bits (m_bv l) \<noteq> {}"
    using f_bits ia(5) ib(5) by (fastforce simp: ls l1(2))
  have or_same: "bv_Or v v = v" if "link_at ?B x = Some v" for x v
    using link_at_ok [OF ib(3) that] by (intro bv_eqI) (auto simp: bv_simps)
  show "link_at ls x = (case link_at ?A x of None \<Rightarrow> link_at ?B x
       | Some v \<Rightarrow> (case link_at ?B x of None \<Rightarrow> Some v | Some w \<Rightarrow> Some (bv_Or v w)))" for x
    using or_same
    by (cases "link_at ?A x"; cases "link_at ?B x") (simp_all add: ls link_at_map_bv [of ?f] l1(3))
qed

lemma bs_Union_correct:
  assumes "bs_inv a" and "bs_inv b" and "m_vector_size a = m_vector_size b"
  shows "bs_set (bs_Union a b) = bs_set a \<union> bs_set b" and "bs_inv (bs_Union a b)"
    and "m_vector_size (bs_Union a b) = m_vector_size a"
proof -
  let ?vs = "m_vector_size a"
  note ia = bs_invD [OF assms(1)] and ib = bs_invD [OF assms(2), folded assms(3)]
  note l = bs_Union_links [OF assms]
  show vs: "m_vector_size (bs_Union a b) = ?vs" by (simp add: bs_Union_def Let_def)
  have rec: "RecomputeSize (bs_Union a b) = bs_Union a b"
    by (simp add: bs_Union_def Let_def RecomputeSize_def)
  show "bs_inv (bs_Union a b)"
    using bs_inv_RecomputeSize [of "bs_Union a b"] l(1,2) ia(1,2) vs rec by simp
  show "bs_set (bs_Union a b) = bs_set a \<union> bs_set b"
  proof (rule set_eqI)
    fix p
    let ?x = "p div ?vs * ?vs"
    have "p \<in> bs_set (bs_Union a b) \<longleftrightarrow>
      (\<exists>v. link_at (m_bsllist (bs_Union a b)) ?x = Some v \<and> p mod ?vs \<in> bv_bits v)"
      unfolding bs_set_def by (rule links_set_iff [OF l(1)])
    moreover have "bv_bits (bv_Or v w) = bv_bits v \<union> bv_bits w"
      if "link_at (m_bsllist a) ?x = Some v" "link_at (m_bsllist b) ?x = Some w" for v w
      using link_at_ok [OF ia(3) that(1)] link_at_ok [OF ib(3) that(2)] by (simp add: bv_simps)
    ultimately show "p \<in> bs_set (bs_Union a b) \<longleftrightarrow> p \<in> bs_set a \<union> bs_set b"
      by (auto simp: l(3) bs_set_def links_set_iff [OF ia(3)] links_set_iff [OF ib(3)]
          split: option.splits)
  qed
qed

lemma and_links_kept:
  fixes ls os :: "CBitSetLink list"
  defines "r \<equiv> concat (map (\<lambda>l. case link_at os (m_offset l) of None \<Rightarrow> []
     | Some w \<Rightarrow> (if bv_IsEmpty (bv_And (m_bv l) w) then [] else [l\<lparr>m_bv := bv_And (m_bv l) w\<rparr>])) ls)"
  assumes "sorted_wrt (<) (map m_offset ls)"
  shows "set r = {l\<lparr>m_bv := bv_And (m_bv l) w\<rparr> | l w. l \<in> set ls \<and> link_at os (m_offset l) = Some w \<and>
      \<not> bv_IsEmpty (bv_And (m_bv l) w)}" (is ?members) and "sorted_wrt (<) (map m_offset r)" (is ?sorted)
proof -
  have "l' \<in> set r \<longleftrightarrow> (\<exists>l\<in>set ls. \<exists>w. link_at os (m_offset l) = Some w \<and>
      \<not> bv_IsEmpty (bv_And (m_bv l) w) \<and> l' = l\<lparr>m_bv := bv_And (m_bv l) w\<rparr>)" for l'
    unfolding r_def
  proof (induction ls)
    case (Cons a ls)
    then show ?case by (cases "link_at os (m_offset a)") (simp_all del: link_at_simps)
  qed simp
  then show ?members by blast
  have "sorted_wrt (<) (map m_offset r) \<and> m_offset ` set r \<subseteq> m_offset ` set ls"
    using assms(2) unfolding r_def
    by (induction ls) (auto split: option.splits)
  then show ?sorted ..
qed

lemma link_at_eq_Some_iff:
  "sorted_wrt (<) (map m_offset ls) \<Longrightarrow>
   link_at ls x = Some v \<longleftrightarrow> (\<exists>l\<in>set ls. m_offset l = x \<and> m_bv l = v)"
  by (induction ls) auto

lemma bs_Intersection_correct:
  assumes "bs_inv a" and "bs_inv b" and "m_vector_size a = m_vector_size b"
  shows "bs_set (bs_Intersection a (Some b)) = bs_set a \<inter> bs_set b" 
    and "bs_inv (bs_Intersection a (Some b))"
    and "m_vector_size (bs_Intersection a (Some b)) = m_vector_size a"
proof -
  let ?vs = "m_vector_size a" and ?A = "m_bsllist a" and ?B = "m_bsllist b"
  note ia = bs_invD [OF assms(1)] and ib = bs_invD [OF assms(2), folded assms(3)]
  define r where "r = and_links ?B None ?A"
  have "r = concat (map (\<lambda>l. case link_at ?B (m_offset l) of None \<Rightarrow> []
     | Some w \<Rightarrow> (if bv_IsEmpty (bv_And (m_bv l) w) then [] else [l\<lparr>m_bv := bv_And (m_bv l) w\<rparr>])) ?A)"
    unfolding r_def by (rule and_links_eq [OF ib(4) ia(4)]) simp
  note kept = and_links_kept [OF ia(4), of ?B, folded this]
  have both: "bv_bits (bv_And v w) = bv_bits v \<inter> bv_bits w \<and> bv_inv (bv_And v w) \<and> m_nbits (bv_And v w) = ?vs"
    if "link_at ?A x = Some v" "link_at ?B x = Some w" for x v w
    using link_at_ok [OF ia(3) that(1)] link_at_ok [OF ib(3) that(2)] by (simp add: bv_simps)
  have at: "link_at r x = Some u \<longleftrightarrow> (\<exists>v w. link_at ?A x = Some v \<and> link_at ?B x = Some w \<and>
      u = bv_And v w \<and> bv_bits v \<inter> bv_bits w \<noteq> {})" for x u
  proof -
    have ex: "(\<exists>l'\<in>set r. P l') \<longleftrightarrow> (\<exists>l w. l \<in> set ?A \<and> link_at ?B (m_offset l) = Some w \<and>
        \<not> bv_IsEmpty (bv_And (m_bv l) w) \<and> P (l\<lparr>m_bv := bv_And (m_bv l) w\<rparr>))" for P
      unfolding kept(1) by blast
    have "link_at r x = Some u \<longleftrightarrow> (\<exists>l w. l \<in> set ?A \<and> m_offset l = x \<and> link_at ?B x = Some w \<and>
        u = bv_And (m_bv l) w \<and> \<not> bv_IsEmpty (bv_And (m_bv l) w))"
      unfolding link_at_eq_Some_iff [OF kept(2)] ex by auto
    also have "\<dots> \<longleftrightarrow> (\<exists>v w. link_at ?A x = Some v \<and> link_at ?B x = Some w \<and>
        u = bv_And v w \<and> \<not> bv_IsEmpty (bv_And v w))"
      unfolding link_at_eq_Some_iff [OF ia(4)] by blast
    also have "\<dots> \<longleftrightarrow> (\<exists>v w. link_at ?A x = Some v \<and> link_at ?B x = Some w \<and>
        u = bv_And v w \<and> bv_bits v \<inter> bv_bits w \<noteq> {})"
      using both bv_IsEmpty_iff by metis
    finally show ?thesis .
  qed
  have mem: "link_at r (m_offset l) = Some (m_bv l)" if "l \<in> set r" for l
    unfolding link_at_eq_Some_iff [OF kept(2)] using that by blast
  have lk: "vs dvd m_offset l" if "l \<in> set r" "vs = ?vs" for l vs
    using that ia(3) by (auto simp: kept(1) links_ok_def link_ok_def)
  have ok: "links_ok ?vs r"
    using kept(2) lk mem both unfolding links_ok_def link_ok_def at by metis
  have ne: "\<forall>l\<in>set r. bv_bits (m_bv l) \<noteq> {}"
    using mem both unfolding at by metis
  show vs: "m_vector_size (bs_Intersection a (Some b)) = ?vs" by (simp add: bs_Intersection_def)
  show "bs_inv (bs_Intersection a (Some b))"
    unfolding bs_Intersection_def option.case r_def [symmetric]
    using ok ne ia(1,2) by (intro bs_inv_RecomputeSize) simp_all
  have "p \<in> links_set r \<longleftrightarrow> p \<in> bs_set a \<inter> bs_set b" for p
    unfolding links_set_iff [OF ok] at bs_set_def Int_iff links_set_iff [OF ia(3)] links_set_iff [OF ib(3)]
    using both by (metis Int_iff empty_iff)
  then show "bs_set (bs_Intersection a (Some b)) = bs_set a \<inter> bs_set b"
    by (auto simp: bs_Intersection_def bs_set_def r_def [symmetric])
qed

subsection \<open>Comparisons, canonicity and hashing\<close>

text \<open>The links of a well-formed set are determined by its members.\<close>

lemma links_eqI:
  assumes "links_ok vs as" and "links_ok vs bs" and "0 < vs"
    and "\<forall>l\<in>set as. bv_bits (m_bv l) \<noteq> {}" and "\<forall>l\<in>set bs. bv_bits (m_bv l) \<noteq> {}"
    and "links_set as = links_set bs"
  shows "as = (bs :: CBitSetLink list)"
proof -
  have sub: "l \<in> set ys"
    if ok: "links_ok vs xs" "links_ok vs ys" and ne: "\<forall>l\<in>set xs. bv_bits (m_bv l) \<noteq> {}"
      and eq: "links_set xs = links_set ys" and l: "l \<in> set xs" for xs ys and l :: CBitSetLink
  proof -
    have sx: "sorted_wrt (<) (map m_offset xs)" and sy: "sorted_wrt (<) (map m_offset ys)"
      using ok by (simp_all add: links_ok_def)
    have lk: "vs dvd m_offset l" "bv_inv (m_bv l)" "m_nbits (m_bv l) = vs"
      using ok(1) l by (auto simp: links_ok_def link_ok_def)
    have atx: "link_at xs (m_offset l) = Some (m_bv l)"
      unfolding link_at_eq_Some_iff [OF sx] using l by blast
    have mem: "k \<in> bv_bits (m_bv l) \<longleftrightarrow> (\<exists>v. link_at ys (m_offset l) = Some v \<and> k \<in> bv_bits v)"
      if "k < vs" for k
    proof -
      have "(m_offset l + k) div vs * vs = m_offset l" "(m_offset l + k) mod vs = k"
        using lk(1) that by (auto elim!: dvdE)
      then show ?thesis
        using links_set_iff [OF ok(1), of "m_offset l + k"] links_set_iff [OF ok(2), of "m_offset l + k"] atx eq
        by simp
    qed
    obtain k where k: "k \<in> bv_bits (m_bv l)" using ne l by blast
    moreover have "k < vs" using bv_bits_less [OF lk(2) k] lk(3) by simp
    ultimately obtain v where v: "link_at ys (m_offset l) = Some v" using mem by blast
    have iv: "bv_inv v" "m_nbits v = vs" using link_at_ok [OF ok(2) v] by auto
    have "bv_bits v = bv_bits (m_bv l)"
    proof (rule set_eqI)
      fix j
      show "j \<in> bv_bits v \<longleftrightarrow> j \<in> bv_bits (m_bv l)"
        using mem [of j] v bv_bits_less [OF iv(1), of j] bv_bits_less [OF lk(2), of j] iv(2) lk(3) by auto
    qed
    then have "v = m_bv l" using iv lk by (intro bv_eqI) simp_all
    moreover obtain m where "m \<in> set ys" "m_offset m = m_offset l" "m_bv m = v"
      using v unfolding link_at_eq_Some_iff [OF sy] by blast
    moreover have "m = l" if "m_offset m = m_offset l" "m_bv m = m_bv l" for m :: CBitSetLink
      using that by (intro CBitSetLink.equality) simp_all
    ultimately show ?thesis by blast
  qed
  have "set as = set bs"
    using sub [OF assms(1,2,4,6)] sub [OF assms(2,1,5) assms(6) [symmetric]] by blast
  then show ?thesis
    using assms(1,2) by (intro sorted_wrt_key_list_eq [of m_offset]) (simp_all add: links_ok_def)
qed

lemma bs_eqI:
  assumes "bs_inv a" and "bs_inv b" and "m_vector_size a = m_vector_size b" and "bs_set a = bs_set b"
  shows "a = (b :: CBitSet)"
proof -
  have "m_bsllist a = m_bsllist b"
    using assms by (intro links_eqI [of "m_vector_size a"]) (auto simp: bs_inv_def bs_set_def)
  moreover have "m_size a = m_size b" using assms by (simp add: bs_inv_def)
  ultimately show ?thesis using assms(3) by (intro CBitSet.equality) simp_all
qed

lemma bs_copy_id:
  assumes "bs_inv bs"
  shows "bs_copy bs = bs"
proof -
  have "bs_inv (bs_new (m_vector_size bs))" using bs_invD(1,2) [OF assms] by simp
  note u = bs_Union_correct [OF this assms]
  have "m_vector_size (bs_new (m_vector_size bs)) = m_vector_size bs" by (simp add: bs_new_def)
  with u assms show ?thesis unfolding bs_copy_def by (intro bs_eqI) simp_all
qed

lemma bs_Clear_correct:
  assumes "bs_inv bs"
  shows "bs_set (bs_Clear bs) = {}" and "bs_inv (bs_Clear bs)" and "m_vector_size (bs_Clear bs) = m_vector_size bs"
proof -
  show "bs_inv (bs_Clear bs)" unfolding bs_Clear_def
    using bs_invD [OF assms] by (intro bs_inv_RecomputeSize) (simp_all add: links_ok_def)
qed (simp_all add: bs_Clear_def bs_set_def links_set_def)

lemma bs_finite [simp]: "finite (bs_set bs)"
  by (auto simp: bs_set_def links_set_def)

lemma link_at_self: "links_ok vs ls \<Longrightarrow> l \<in> set ls \<Longrightarrow> link_at ls (m_offset l) = Some (m_bv l)"
  by (auto simp: link_at_eq_Some_iff links_ok_def)

lemma link_bits_members:
  assumes "links_ok vs ls" and "l \<in> set ls" and "k \<in> bv_bits (m_bv l)" and "0 < vs"
  shows "(m_offset l + k) div vs * vs = m_offset l" and "(m_offset l + k) mod vs = k"
proof -
  have lk: "vs dvd m_offset l" "bv_inv (m_bv l)" "m_nbits (m_bv l) = vs"
    using assms(1,2) by (auto simp: links_ok_def link_ok_def)
  have "k < vs" using bv_bits_less [OF lk(2) assms(3)] lk(3) by simp
  then show "(m_offset l + k) div vs * vs = m_offset l" "(m_offset l + k) mod vs = k"
    using lk(1) by (auto elim!: dvdE)
qed

lemma links_subset_iff:
  assumes "links_ok vs ls" and "links_ok vs os" and "0 < vs" and "\<forall>k\<in>set os. bv_bits (m_bv k) \<noteq> {}"
  shows "(\<forall>k\<in>set os. \<exists>v. link_at ls (m_offset k) = Some v \<and> bv_bits (m_bv k) \<subseteq> bv_bits v) \<longleftrightarrow>
    links_set os \<subseteq> links_set ls" (is "?L \<longleftrightarrow> ?R")
proof
  assume ?L
  show ?R
  proof
    fix p assume "p \<in> links_set os"
    then obtain k j where k: "k \<in> set os" "j \<in> bv_bits (m_bv k)" "p = m_offset k + j"
      by (auto simp: links_set_def)
    note d = link_bits_members [OF assms(2) k(1,2) assms(3)]
    from \<open>?L\<close> k(1,2) obtain v where "link_at ls (m_offset k) = Some v" "j \<in> bv_bits v" by blast
    then show "p \<in> links_set ls" unfolding links_set_iff [OF assms(1)] k(3) d by blast
  qed
next
  assume R: ?R
  have mem: "\<exists>v. link_at ls (m_offset k) = Some v \<and> j \<in> bv_bits v"
    if k: "k \<in> set os" and j: "j \<in> bv_bits (m_bv k)" for k j
  proof -
    have "m_offset k + j \<in> links_set os" using k j by (auto simp: links_set_def)
    with R have "m_offset k + j \<in> links_set ls" by blast
    then show ?thesis
      unfolding links_set_iff [OF assms(1)] link_bits_members [OF assms(2) k j assms(3)] .
  qed
  show ?L
  proof
    fix k assume k: "k \<in> set os"
    then obtain j where "j \<in> bv_bits (m_bv k)" using assms(4) by blast
    then obtain v where v: "link_at ls (m_offset k) = Some v" using mem [OF k] by blast
    moreover have "bv_bits (m_bv k) \<subseteq> bv_bits v" using mem [OF k] v by auto
    ultimately show "\<exists>v. link_at ls (m_offset k) = Some v \<and> bv_bits (m_bv k) \<subseteq> bv_bits v" by blast
  qed
qed

lemma bs_ContainsAll_iff:
  assumes "bs_inv a" and "bs_inv b" and "m_vector_size a = m_vector_size b"
  shows "bs_ContainsAll a b \<longleftrightarrow> bs_set b \<subseteq> bs_set a"
proof -
  note ia = bs_invD [OF assms(1)] and ib = bs_invD [OF assms(2), folded assms(3)]
  have "bv_ContainsAll v (m_bv k) \<longleftrightarrow> bv_bits (m_bv k) \<subseteq> bv_bits v"
    if "link_at (m_bsllist a) x = Some v" "k \<in> set (m_bsllist b)" for x v k
    using link_at_ok [OF ia(3) that(1)] that(2) ib(3) by (intro bv_ContainsAll_iff) (auto simp: links_ok_def link_ok_def)
  then have "contains_links (m_bsllist a) None (m_bsllist b) \<longleftrightarrow>
      (\<forall>k\<in>set (m_bsllist b). \<exists>v. link_at (m_bsllist a) (m_offset k) = Some v \<and> bv_bits (m_bv k) \<subseteq> bv_bits v)"
    by (subst contains_links_eq [OF ia(4) ib(4)]) auto
  also have "\<dots> \<longleftrightarrow> bs_set b \<subseteq> bs_set a"
    unfolding bs_set_def using ib(5) by (intro links_subset_iff [OF ia(3) ib(3) ia(1)]) blast
  finally show ?thesis
    using card_mono [OF bs_finite, of "bs_set b" a] ia(6) ib(6) by (auto simp: bs_ContainsAll_def)
qed

lemma bs_IsDisjoint_iff:
  assumes "bs_inv a" and "bs_inv b" and "m_vector_size a = m_vector_size b"
  shows "bs_IsDisjoint a b \<longleftrightarrow> bs_set a \<inter> bs_set b = {}"
proof -
  let ?vs = "m_vector_size a" and ?A = "m_bsllist a" and ?B = "m_bsllist b"
  note ia = bs_invD [OF assms(1)] and ib = bs_invD [OF assms(2), folded assms(3)]
  have "bv_IsDisjoint v (m_bv k) \<longleftrightarrow> bv_bits v \<inter> bv_bits (m_bv k) = {}"
    if "link_at ?A x = Some v" "k \<in> set ?B" for x v k
    using link_at_ok [OF ia(3) that(1)] that(2) ib(3) by (intro bv_IsDisjoint_iff) (auto simp: links_ok_def link_ok_def)
  then have "bs_IsDisjoint a b \<longleftrightarrow>
      (\<forall>k\<in>set ?B. \<forall>v. link_at ?A (m_offset k) = Some v \<longrightarrow> bv_bits v \<inter> bv_bits (m_bv k) = {})"
    unfolding bs_IsDisjoint_def by (subst disjoint_links_eq [OF ia(4) ib(4)]) auto
  also have "\<dots> \<longleftrightarrow> (\<forall>k\<in>set ?B. \<forall>j\<in>bv_bits (m_bv k). m_offset k + j \<notin> links_set ?A)"
  proof (intro ball_cong refl)
    fix k assume k: "k \<in> set ?B"
    note d = link_bits_members [OF ib(3) k _ ia(1)]
    show "(\<forall>v. link_at ?A (m_offset k) = Some v \<longrightarrow> bv_bits v \<inter> bv_bits (m_bv k) = {}) \<longleftrightarrow>
        (\<forall>j\<in>bv_bits (m_bv k). m_offset k + j \<notin> links_set ?A)"
      using d by (auto simp: links_set_iff [OF ia(3)])
  qed
  also have "\<dots> \<longleftrightarrow> links_set ?A \<inter> links_set ?B = {}" by (auto simp: links_set_def [of ?B])
  finally show ?thesis by (simp add: bs_set_def)
qed

lemma equal_links_iff:
  assumes "\<forall>l\<in>set as. link_ok vs l" and "\<forall>l\<in>set bs. link_ok vs l"
  shows "equal_links as bs \<longleftrightarrow> as = bs"
  using assms
proof (induction as bs rule: equal_links.induct)
  case (3 a as b bs)
  have ok: "bv_inv (m_bv a)" "bv_inv (m_bv b)" "m_nbits (m_bv a) = m_nbits (m_bv b)"
    using 3(2,3) by (simp_all add: link_ok_def)
  have "bv_Equals (m_bv a) (m_bv b) \<longleftrightarrow> m_bv a = m_bv b"
    using bv_Equals_iff [OF ok] bv_eqI [OF ok] by metis
  moreover have "a = b \<longleftrightarrow> m_offset a = m_offset b \<and> m_bv a = m_bv b"
    using CBitSetLink.equality [of a b] by auto
  ultimately show ?case using 3 by simp blast
qed auto

lemma bs_Equals_iff:
  assumes "bs_inv a" and "bs_inv b" and "m_vector_size a = m_vector_size b"
  shows "bs_Equals a b \<longleftrightarrow> bs_set a = bs_set b"
proof -
  have "equal_links (m_bsllist a) (m_bsllist b) \<longleftrightarrow> m_bsllist a = m_bsllist b"
    using bs_invD(3) [OF assms(1)] bs_invD(3) [OF assms(2)] assms(3)
    by (intro equal_links_iff [of _ "m_vector_size a"]) (simp_all add: links_ok_def)
  moreover have "m_bsllist a = m_bsllist b" if "bs_set a = bs_set b"
    using bs_eqI [OF assms that] by simp
  ultimately show ?thesis
    using bs_invD(6) [OF assms(1)] bs_invD(6) [OF assms(2)] by (auto simp: bs_Equals_def bs_set_def)
qed

subsection \<open>Iteration and difference\<close>

text \<open>What is left to visit in a link from position \<open>s\<close> on, and in all links from index \<open>i\<close> on.\<close>

definition link_rest :: "CBitSetLink \<Rightarrow> nat \<Rightarrow> nat list" where
  "link_rest l s = map ((+) (m_offset l)) (filter ((\<le>) s) (sorted_list_of_set (bv_bits (m_bv l))))"

definition iter_rest :: "CBitSetLink list \<Rightarrow> nat \<Rightarrow> nat \<Rightarrow> nat list" where
  "iter_rest ls i s =
     (if i < length ls then link_rest (ls ! i) s @ concat (map (\<lambda>l. link_rest l 0) (drop (Suc i) ls)) else [])"

lemma filter_ge_least:
  fixes S :: "nat set"
  assumes "finite S"
  shows "least_from S s = None \<Longrightarrow> filter ((\<le>) s) (sorted_list_of_set S) = []"
    and "least_from S s = Some q \<Longrightarrow>
      filter ((\<le>) s) (sorted_list_of_set S) = q # filter ((\<le>) (Suc q)) (sorted_list_of_set S)"
proof -
  show "filter ((\<le>) s) (sorted_list_of_set S) = []" if "least_from S s = None"
    using that assms by (auto simp: least_from_None filter_empty_conv)
  assume q: "least_from S s = Some q"
  note d = least_from_SomeD [OF q]
  show "filter ((\<le>) s) (sorted_list_of_set S) = q # filter ((\<le>) (Suc q)) (sorted_list_of_set S)"
  proof (rule sorted_wrt_less_list_eq)
    show "sorted_wrt (<) (filter ((\<le>) s) (sorted_list_of_set S))"
      and "sorted_wrt (<) (q # filter ((\<le>) (Suc q)) (sorted_list_of_set S))"
      by (auto simp: sorted_wrt_filter)
    show "set (filter ((\<le>) s) (sorted_list_of_set S)) = set (q # filter ((\<le>) (Suc q)) (sorted_list_of_set S))"
    proof -
      have "p \<in> S \<and> s \<le> p \<longleftrightarrow> p = q \<or> p \<in> S \<and> Suc q \<le> p" for p
        using d(1,2) d(3) [of p] by fastforce
      then show ?thesis using assms by auto
    qed
  qed
qed

lemma link_rest_step:
  assumes "bv_inv (m_bv l)"
  shows "bv_GetNextSetBit (m_bv l) s = None \<Longrightarrow> link_rest l s = []"
    and "bv_GetNextSetBit (m_bv l) s = Some q \<Longrightarrow>
      link_rest l s = (m_offset l + q) # link_rest l (Suc q) \<and> q < m_nbits (m_bv l)"
proof -
  let ?S = "bv_bits (m_bv l)"
  note g = filter_ge_least [OF finite_bv_bits, of "m_bv l" s, folded bv_GetNextSetBit_least [OF assms]]
  show "link_rest l s = []" if "bv_GetNextSetBit (m_bv l) s = None" using g(1) [OF that] by (simp add: link_rest_def)
  assume q: "bv_GetNextSetBit (m_bv l) s = Some q"
  then have "q \<in> ?S" using least_from_SomeD(1) bv_GetNextSetBit_least [OF assms] by metis
  then show "link_rest l s = (m_offset l + q) # link_rest l (Suc q) \<and> q < m_nbits (m_bv l)"
    using g(2) [OF q] bv_bits_less [OF assms, of q] by (simp add: link_rest_def)
qed

lemma iter_rest_next: "link_rest (ls ! i) s = [] \<Longrightarrow> i < length ls \<Longrightarrow> iter_rest ls i s = iter_rest ls (Suc i) 0"
  by (cases "Suc i < length ls") (auto simp: iter_rest_def Cons_nth_drop_Suc [symmetric])

lemma link_rest_beyond:
  assumes "link_ok vs l" and "vs < s"
  shows "link_rest l s = []"
proof -
  have "\<not> s \<le> k" if "k \<in> bv_bits (m_bv l)" for k
    using bv_bits_less [of "m_bv l", OF _ that] assms by (simp add: link_ok_def)
  then show ?thesis by (auto simp: link_rest_def filter_empty_conv)
qed

definition iter_left :: "CBitSet \<Rightarrow> ulong \<Rightarrow> nat \<Rightarrow> nat list" where
  "iter_left bs c i = iter_rest (m_bsllist bs) i ((c + 1) mod ulong_modulus)"

lemma advance_loop_rest:
  assumes "links_ok (m_vector_size bs) (m_bsllist bs)" and "m_vector_size bs < ulong_modulus"
  shows "case advance_loop bs c i of (p, None) \<Rightarrow> iter_left bs c i = []
    | (p, Some j) \<Rightarrow> iter_left bs c i = (m_offset (m_bsllist bs ! j) + p) # iter_left bs p j"
  using assms(1,2)
proof (induction bs c i rule: advance_loop.induct)
  case (1 bs c i)
  let ?ls = "m_bsllist bs" and ?s = "(c + 1) mod ulong_modulus"
  let ?nxt = "if ?s \<le> m_vector_size bs then bv_GetNextSetBit (m_bv (?ls ! i)) ?s else None"
  show ?case
  proof (cases "i < length ?ls")
    case i: True
    then have ok: "link_ok (m_vector_size bs) (?ls ! i)" using 1(2) by (simp add: links_ok_def)
    then have inv: "bv_inv (m_bv (?ls ! i))" "m_nbits (m_bv (?ls ! i)) = m_vector_size bs" by (simp_all add: link_ok_def)
    show ?thesis
    proof (cases ?nxt)
      case None
      then have "link_rest (?ls ! i) ?s = []"
        using link_rest_step(1) [OF inv(1)] link_rest_beyond [OF ok] by (auto split: if_splits)
      then have "iter_rest ?ls i ?s = iter_rest ?ls (Suc i) 0" using i by (rule iter_rest_next)
      then have left: "iter_left bs c i = iter_left bs ulong_max (Suc i)" by (simp add: iter_left_def)
      have "advance_loop bs c i = advance_loop bs ulong_max (Suc i)"
        by (subst advance_loop.simps) (simp only: i if_True Let_def None option.case)
      with 1(1) [OF i refl refl None 1(2,3)] left show ?thesis by (simp only:)
    next
      case (Some p)
      then have "bv_GetNextSetBit (m_bv (?ls ! i)) ?s = Some p" by (auto split: if_splits)
      note st = link_rest_step(2) [OF inv(1) this]
      have "(p + 1) mod ulong_modulus = Suc p" using st inv(2) 1(3) by simp
      with st i have "iter_left bs c i = (m_offset (?ls ! i) + p) # iter_left bs p i"
        by (simp add: iter_left_def iter_rest_def)
      moreover have "advance_loop bs c i = (p, Some i)"
        by (subst advance_loop.simps) (simp only: i if_True Let_def Some option.case)
      ultimately show ?thesis by simp
    qed
  qed (simp add: advance_loop.simps [of bs c i] iter_left_def iter_rest_def)
qed

lemma iter_drain_rest:
  assumes "links_ok (m_vector_size bs) (m_bsllist bs)" and "m_vector_size bs < ulong_modulus"
  shows "length (iter_left bs (m_cursor it) (case m_bsl it of None \<Rightarrow> 0 | Some i \<Rightarrow> i)) < fuel \<Longrightarrow>
    iter_drain fuel bs it = iter_left bs (m_cursor it) (case m_bsl it of None \<Rightarrow> 0 | Some i \<Rightarrow> i)"
proof (induction fuel arbitrary: it)
  case (Suc fuel)
  let ?i = "case m_bsl it of None \<Rightarrow> 0 | Some i \<Rightarrow> i"
  obtain p j where a: "advance_loop bs (m_cursor it) ?i = (p, j)" by (cases "advance_loop bs (m_cursor it) ?i")
  note r = advance_loop_rest [OF assms, of "m_cursor it" ?i, unfolded a]
  show ?case
  proof (cases j)
    case None
    then show ?thesis using r a by (simp add: iter_Advance_def)
  next
    case (Some k)
    then show ?thesis
      using r a Suc.prems Suc.IH [of "\<lparr>m_cursor = p, m_bsl = Some k, m_active = True\<rparr>"]
      by (simp add: iter_Advance_def iter_Bit_def)
  qed
qed simp

lemma concat_link_rest_sorted:
  assumes "links_ok vs ls" and "0 < vs"
  shows "sorted_wrt (<) (concat (map (\<lambda>l. link_rest l 0) ls))" and
    "set (concat (map (\<lambda>l. link_rest l 0) ls)) = links_set ls"
proof -
  show set: "set (concat (map (\<lambda>l. link_rest l 0) ls)) = links_set ls" for ls
    by (simp add: link_rest_def links_set_def)
  show "sorted_wrt (<) (concat (map (\<lambda>l. link_rest l 0) ls))" using assms(1)
  proof (induction ls)
    case (Cons l ls)
    then have ok: "links_ok vs ls" and lk: "link_ok vs l" by (simp_all add: links_ok_def)
    have "x < y" if x: "x \<in> set (link_rest l 0)" and y: "y \<in> links_set ls" for x y
    proof -
      obtain k where k: "k \<in> bv_bits (m_bv l)" "x = m_offset l + k" using x by (auto simp: link_rest_def)
      obtain m j where m: "m \<in> set ls" "y = m_offset m + j" using y by (auto simp: links_set_def)
      have "k < vs" using bv_bits_less [OF _ k(1)] lk by (simp add: link_ok_def)
      moreover have "m_offset l + vs \<le> m_offset m"
      proof -
        have "m_offset l < m_offset m" using Cons.prems m(1) by (simp add: links_ok_def)
        moreover have "vs dvd m_offset l" "vs dvd m_offset m" using lk ok m(1) by (auto simp: links_ok_def link_ok_def)
        ultimately show ?thesis by (metis dvd_diff_nat dvd_imp_le less_imp_le_nat le_add_diff_inverse nat_add_left_cancel_le zero_less_diff)
      qed
      ultimately show ?thesis using k(2) m(2) by simp
    qed
    moreover have "sorted_wrt (<) (link_rest l 0)"
      by (simp add: link_rest_def sorted_wrt_map)
    ultimately show ?case using Cons.IH [OF ok] by (simp add: sorted_wrt_append set [simplified])
  qed simp
qed

lemma iter_elements_sorted:
  assumes "bs_inv bs"
  shows "iter_elements bs = sorted_list_of_set (bs_set bs)"
proof -
  let ?ls = "m_bsllist bs"
  note i = bs_invD [OF assms]
  have left: "iter_left bs ulong_max 0 = concat (map (\<lambda>l. link_rest l 0) ?ls)"
    by (cases ?ls) (simp_all add: iter_left_def iter_rest_def)
  note c = concat_link_rest_sorted [OF i(3,1)]
  have "length (link_rest l 0) \<le> m_vector_size bs" if "l \<in> set ?ls" for l
  proof -
    have "bv_inv (m_bv l)" "m_nbits (m_bv l) = m_vector_size bs"
      using that i(3) by (simp_all add: links_ok_def link_ok_def)
    then have "bv_bits (m_bv l) \<subseteq> {..<m_vector_size bs}" using bv_bits_less [of "m_bv l"] by auto
    then have "card (bv_bits (m_bv l)) \<le> m_vector_size bs" using card_mono [of "{..<m_vector_size bs}"] by simp
    then show ?thesis by (simp add: link_rest_def)
  qed
  then have "length (concat (map (\<lambda>l. link_rest l 0) ?ls)) \<le> length ?ls * m_vector_size bs"
    using sum_list_mono [of ?ls "\<lambda>l. length (link_rest l 0)" "\<lambda>_. m_vector_size bs"]
    by (simp add: length_concat comp_def sum_list_triv)
  then have "iter_elements bs = concat (map (\<lambda>l. link_rest l 0) ?ls)"
    using iter_drain_rest [OF i(3,2), of iter_new] left
    by (simp add: iter_elements_def iter_new_def del: iter_drain.simps)
  moreover have "concat (map (\<lambda>l. link_rest l 0) ?ls) = sorted_list_of_set (bs_set bs)"
    using c by (intro sorted_wrt_less_list_eq) (simp_all add: bs_set_def flip: c(2))
  ultimately show ?thesis by simp
qed

lemma bs_clear_all_correct:
  assumes "bs_inv bs"
  shows "bs_inv (fold (\<lambda>b s. snd (bs_ExchangeClear s b)) xs bs) \<and>
    m_vector_size (fold (\<lambda>b s. snd (bs_ExchangeClear s b)) xs bs) = m_vector_size bs \<and>
    bs_set (fold (\<lambda>b s. snd (bs_ExchangeClear s b)) xs bs) = bs_set bs - set xs"
  using assms
proof (induction xs arbitrary: bs)
  case (Cons x xs)
  note c = bs_ExchangeClear_correct [OF Cons.prems, of x]
  show ?case using Cons.IH [of "snd (bs_ExchangeClear bs x)"] c by auto
qed simp

lemma bs_Difference_correct:
  assumes "bs_inv a" and "bs_inv b" and "m_vector_size a = m_vector_size b"
  shows "bs_set (bs_Difference a b) = bs_set a - bs_set b" and "bs_inv (bs_Difference a b)"
    and "m_vector_size (bs_Difference a b) = m_vector_size a"
  using bs_clear_all_correct [OF assms(1), of "iter_elements b"] bs_IsDisjoint_iff [OF assms] assms(1)
  by (auto simp: bs_Difference_def iter_elements_sorted [OF assms(2)])

subsection \<open>The bit set implements the set interface\<close>

text \<open>Sets of the default vector size, which all clients in the development use.\<close>

definition bs_valid :: "CBitSet \<Rightarrow> bool" where
  "bs_valid bs \<longleftrightarrow> bs_inv bs \<and> m_vector_size bs = 256"

lemma bs_validD: "bs_valid bs \<Longrightarrow> bs_inv bs" "bs_valid bs \<Longrightarrow> m_vector_size bs = 256"
  by (simp_all add: bs_valid_def)

lemma bs_new_vector_size [simp]: "m_vector_size (bs_new n) = n"
  by (simp add: bs_new_def)

interpretation bitset: number_set bs_set bs_valid "bs_new 256" bs_Get bs_ExchangeSet bs_ExchangeClear m_size iter_elements
  by unfold_locales
    (auto simp: bs_valid_def bs_Get_iff bs_ExchangeSet_correct bs_ExchangeClear_correct bs_invD(6)
      iter_elements_sorted)

interpretation bitset_alg: number_set_algebra bs_set bs_valid "bs_new 256" bs_Get bs_ExchangeSet
  bs_ExchangeClear m_size iter_elements bs_copy bs_Union "\<lambda>a b. bs_Intersection a (Some b)" bs_Difference
  bs_ContainsAll bs_IsDisjoint bs_Equals bs_HashValue
proof unfold_locales
  show "bs_valid s \<Longrightarrow> bs_valid t \<Longrightarrow> bs_set s = bs_set t \<Longrightarrow> bs_HashValue s = bs_HashValue t" for s t
    using bs_eqI [of s t] by (simp add: bs_valid_def)
qed (auto simp: bs_valid_def bs_copy_id bs_Union_correct bs_Intersection_correct bs_Difference_correct
    bs_ContainsAll_iff bs_IsDisjoint_iff bs_Equals_iff)

subsection \<open>Properties\<close>

text \<open>
  \<^bold>\<open>C9\<close> Sets built with the same vector size: \<^verbatim>\<open>Union\<close>, \<^verbatim>\<open>Intersection\<close> and \<^verbatim>\<open>Difference\<close> compute union,
  intersection and difference of the members, keep the representation invariant (links sorted by
  offset, aligned, non-empty, vectors of the right width), and \<^verbatim>\<open>m_size\<close> is the number of members of
  the result.
\<close>

theorem bs_algebra_refines_sets:
  assumes "bs_inv a" and "bs_inv b" and "m_vector_size a = m_vector_size b"
  shows "(bs_inv (bs_Union a b) \<and> bs_set (bs_Union a b) = bs_set a \<union> bs_set b \<and>
      m_size (bs_Union a b) = card (bs_set a \<union> bs_set b)) \<and>
    (bs_inv (bs_Intersection a (Some b)) \<and> bs_set (bs_Intersection a (Some b)) = bs_set a \<inter> bs_set b \<and>
      m_size (bs_Intersection a (Some b)) = card (bs_set a \<inter> bs_set b)) \<and>
    (bs_inv (bs_Difference a b) \<and> bs_set (bs_Difference a b) = bs_set a - bs_set b \<and>
      m_size (bs_Difference a b) = card (bs_set a - bs_set b))"
  using bs_Union_correct [OF assms] bs_Intersection_correct [OF assms] bs_Difference_correct [OF assms]
    bs_invD(6) [of "bs_Union a b"] bs_invD(6) [of "bs_Intersection a (Some b)"] bs_invD(6) [of "bs_Difference a b"]
  by simp_all

lemma bs_one_member:
  "bs_inv (snd (bs_ExchangeSet (bs_new 256) n))" "bs_set (snd (bs_ExchangeSet (bs_new 256) n)) = {n}"
  "m_vector_size (snd (bs_ExchangeSet (bs_new 256) n)) = 256"
  using bs_ExchangeSet_correct [of "bs_new 256" n] by simp_all

theorem bs_algebra_refines_sets_witness:
  "bs_set (bs_Union (snd (bs_ExchangeSet (bs_new 256) 3)) (snd (bs_ExchangeSet (bs_new 256) 300))) = {3, 300} \<and>
   m_size (bs_Difference (snd (bs_ExchangeSet (bs_new 256) 3)) (snd (bs_ExchangeSet (bs_new 256) 3))) = 0"
  using bs_algebra_refines_sets [OF bs_one_member(1) [of 3] bs_one_member(1) [of 300]]
    bs_algebra_refines_sets [OF bs_one_member(1) [of 3] bs_one_member(1) [of 3]]
  by (simp add: bs_one_member insert_commute)

text \<open>
  \<^bold>\<open>C11\<close> \<^verbatim>\<open>ExchangeSet\<close> and \<^verbatim>\<open>ExchangeClear\<close> report whether the bit was set before, insert or remove
  exactly that bit, maintain \<^verbatim>\<open>m_size\<close> incrementally as the number of members, and keep the
  invariant; in particular a link whose vector becomes empty is dropped.
\<close>

theorem bs_exchange_correct:
  assumes "bs_inv bs"
  shows "(case bs_ExchangeSet bs n of (old, bs') \<Rightarrow> (old \<longleftrightarrow> n \<in> bs_set bs) \<and> bs_inv bs' \<and>
      bs_set bs' = insert n (bs_set bs) \<and> m_size bs' = card (insert n (bs_set bs))) \<and>
    (case bs_ExchangeClear bs n of (old, bs') \<Rightarrow> (old \<longleftrightarrow> n \<in> bs_set bs) \<and> bs_inv bs' \<and>
      bs_set bs' = bs_set bs - {n} \<and> m_size bs' = card (bs_set bs - {n}))"
  using bs_ExchangeSet_correct [OF assms, of n] bs_ExchangeClear_correct [OF assms, of n]
    bs_invD(6) [of "snd (bs_ExchangeSet bs n)"] bs_invD(6) [of "snd (bs_ExchangeClear bs n)"]
  by (simp_all add: case_prod_beta)

theorem bs_exchange_correct_witness:
  "fst (bs_ExchangeSet (bs_new 256) 700) = False \<and> m_size (snd (bs_ExchangeSet (bs_new 256) 700)) = 1"
  using bs_exchange_correct [of "bs_new 256" 700] by (simp add: case_prod_beta)

text \<open>
  \<^bold>\<open>C10\<close> A loop \<^verbatim>\<open>while (iter.Advance())\<close> over a well-formed set visits its members exactly once, in
  ascending order, and ends: the wrap-around of the cursor from \<^verbatim>\<open>(ULONG) -1\<close> at each link loses no bit.
\<close>

theorem bs_iteration_ascending:
  assumes "bs_inv bs"
  shows "iter_elements bs = sorted_list_of_set (bs_set bs)"
  by (rule iter_elements_sorted [OF assms])

theorem bs_iteration_ascending_witness:
  "iter_elements (snd (bs_ExchangeSet (bs_new 256) 700)) = [700]"
  using bs_iteration_ascending [OF bs_one_member(1) [of 700]] by (simp add: bs_one_member)

text \<open>
  \<^bold>\<open>C12\<close> The comparisons answer for the members: \<^verbatim>\<open>Get\<close>, \<^verbatim>\<open>ContainsAll\<close> (with its shortcut on sizes),
  \<^verbatim>\<open>IsDisjoint\<close> and \<^verbatim>\<open>Equals\<close>; sets with the same members are the same representation and so have the
  same hash value, which is what a hash table keyed by bit sets needs.
\<close>

theorem bs_comparisons_and_hash:
  assumes "bs_inv a" and "bs_inv b" and "m_vector_size a = m_vector_size b"
  shows "(bs_Get a n \<longleftrightarrow> n \<in> bs_set a) \<and>
    (bs_ContainsAll a b \<longleftrightarrow> bs_set b \<subseteq> bs_set a) \<and>
    (bs_IsDisjoint a b \<longleftrightarrow> bs_set a \<inter> bs_set b = {}) \<and>
    (bs_Equals a b \<longleftrightarrow> bs_set a = bs_set b) \<and>
    (bs_Equals a b \<longrightarrow> a = b \<and> bs_HashValue a = bs_HashValue b)"
  using bs_Get_iff [OF assms(1)] bs_ContainsAll_iff [OF assms] bs_IsDisjoint_iff [OF assms]
    bs_Equals_iff [OF assms] bs_eqI [OF assms]
  by auto

theorem bs_comparisons_and_hash_witness:
  "\<not> bs_Equals (snd (bs_ExchangeSet (bs_new 256) 3)) (snd (bs_ExchangeSet (bs_new 256) 300)) \<and>
   bs_IsDisjoint (snd (bs_ExchangeSet (bs_new 256) 3)) (snd (bs_ExchangeSet (bs_new 256) 300))"
  using bs_comparisons_and_hash [OF bs_one_member(1) [of 3] bs_one_member(1) [of 300]]
  by (simp add: bs_one_member)

end
