(* ===== verification/HyperPlan.thy ===== *)
theory HyperPlan
  imports HyperEnumCorrect BitSetCorrect
begin

text \<open>
  The plan that records an enumeration, \<^verbatim>\<open>libgpopt/src/xforms/CDPHyperPlan.cpp\<close>: hash buckets of seen
  node sets, the recorded pairs with their connecting edges, and the pair budget.  It implements the
  receiver contract of \<open>HyperEnumCorrect\<close>; the interpretation yields soundness of the enumeration.
  The optional pair filter is a function that the caller supplies.
\<close>

subsection \<open>Data and operations\<close>

text \<open>The hash value of the bit set that holds the given nodes.\<close>

definition hash_nodes :: "nodes \<Rightarrow> hash32" where
  "hash_nodes A = bs_HashValue (fold (\<lambda>n s. snd (bs_ExchangeSet s n)) (elems A) (bs_new 256))"

record SPair =
  p_left :: nodes
  p_right :: nodes
  m_connecting_edges :: "nat list"

type_synonym PairFilter = "nodes \<Rightarrow> nodes \<Rightarrow> nat \<Rightarrow> bool"

record CDPHyperPlan =
  m_pair_budget :: nat
  m_budget_exhausted :: bool
  m_pair_filter :: "PairFilter option"
  m_seen :: "hash32 \<rightharpoonup> nodes list"
  m_pairs_by_union :: "hash32 \<rightharpoonup> nat list"
  m_pairs :: "SPair list"
  m_seen_count :: nat

definition SPair_new :: "nodes \<Rightarrow> nodes \<Rightarrow> nat \<Rightarrow> SPair" where
  "SPair_new left right connecting_edge =
     \<lparr>p_left = left, p_right = right, m_connecting_edges = [connecting_edge]\<rparr>"

definition AddConnectingEdge :: "nat \<Rightarrow> SPair \<Rightarrow> SPair" where
  "AddConnectingEdge connecting_edge p =
     (if connecting_edge \<notin> set (m_connecting_edges p)
      then p\<lparr>m_connecting_edges := m_connecting_edges p @ [connecting_edge]\<rparr> else p)"

definition plan_new :: "nat \<Rightarrow> PairFilter option \<Rightarrow> CDPHyperPlan" where
  "plan_new pair_budget pair_filter =
     \<lparr>m_pair_budget = pair_budget, m_budget_exhausted = False, m_pair_filter = pair_filter,
      m_seen = Map.empty, m_pairs_by_union = Map.empty, m_pairs = [], m_seen_count = 0\<rparr>"

definition plan_HasSeen :: "nodes \<Rightarrow> CDPHyperPlan \<Rightarrow> bool" where
  "plan_HasSeen A p =
     (case m_seen p (hash_nodes A) of None \<Rightarrow> False | Some bucket \<Rightarrow> list_ex (\<lambda>seen. seen = A) bucket)"

text \<open>\<^verbatim>\<open>map[key].push_back(x)\<close>, which creates an empty bucket when the key is new.\<close>

definition bucket_of :: "('k \<rightharpoonup> 'v list) \<Rightarrow> 'k \<Rightarrow> 'v list" where
  "bucket_of m k = (case m k of None \<Rightarrow> [] | Some vs \<Rightarrow> vs)"

definition push_bucket :: "'k \<Rightarrow> 'v \<Rightarrow> ('k \<rightharpoonup> 'v list) \<Rightarrow> ('k \<rightharpoonup> 'v list)" where
  "push_bucket k v m = m(k \<mapsto> bucket_of m k @ [v])"

definition RecordSeen :: "nodes \<Rightarrow> CDPHyperPlan \<Rightarrow> bool \<times> CDPHyperPlan" where
  "RecordSeen A p =
     (if plan_HasSeen A p then (False, p)
      else (True, p\<lparr>m_seen := push_bucket (hash_nodes A) A (m_seen p),
                    m_seen_count := m_seen_count p + 1\<rparr>))"

definition plan_FoundSingleNode :: "nat \<Rightarrow> CDPHyperPlan \<Rightarrow> bool \<times> CDPHyperPlan" where
  "plan_FoundSingleNode node_id p = (False, snd (RecordSeen {node_id} p))"

definition same_pair :: "nodes \<Rightarrow> nodes \<Rightarrow> SPair \<Rightarrow> bool" where
  "same_pair left right q \<longleftrightarrow> p_left q = left \<and> p_right q = right \<or> p_left q = right \<and> p_right q = left"

text \<open>Pairs are referred to by their position in \<^verbatim>\<open>m_pairs\<close>.\<close>

definition Ppair :: "nodes \<Rightarrow> nodes \<Rightarrow> hash32 \<Rightarrow> CDPHyperPlan \<Rightarrow> nat option" where
  "Ppair left right union_hash p =
     (case m_pairs_by_union p union_hash of None \<Rightarrow> None
      | Some bucket \<Rightarrow> find (\<lambda>i. same_pair left right (m_pairs p ! i)) bucket)"

definition plan_FoundSubgraphPair :: "nodes \<Rightarrow> nodes \<Rightarrow> nat \<Rightarrow> CDPHyperPlan \<Rightarrow> bool \<times> CDPHyperPlan" where
  "plan_FoundSubgraphPair left right edge_id p =
     (if (case m_pair_filter p of None \<Rightarrow> False | Some flt \<Rightarrow> \<not> flt left right edge_id) then (False, p)
      else
        let joined = left \<union> right; union_hash = hash_nodes joined
        in case Ppair left right union_hash p of
             Some i \<Rightarrow> (False, p\<lparr>m_pairs := (m_pairs p)[i := AddConnectingEdge edge_id (m_pairs p ! i)]\<rparr>)
           | None \<Rightarrow>
               if m_pair_budget p \<le> length (m_pairs p) then (True, p\<lparr>m_budget_exhausted := True\<rparr>)
               else
                 let p1 = p\<lparr>m_pairs := m_pairs p @ [SPair_new left right edge_id],
                            m_pairs_by_union := push_bucket union_hash (length (m_pairs p)) (m_pairs_by_union p)\<rparr>
                 in (False, snd (RecordSeen joined p1)))"

definition Complete :: "nat \<Rightarrow> CDPHyperPlan \<Rightarrow> bool" where
  "Complete node_count p =
     (if m_budget_exhausted p \<or> node_count = 0 then False
      else plan_HasSeen (fold insert [0..<node_count] {}) p)"

definition plan_receiver :: "CDPHyperPlan IDPHyperReceiver" where
  "plan_receiver =
     \<lparr>FoundSingleNode = plan_FoundSingleNode, HasSeen = plan_HasSeen,
      FoundSubgraphPair = plan_FoundSubgraphPair\<rparr>"

lemma plan_receiver_simps [simp]:
  "FoundSingleNode plan_receiver = plan_FoundSingleNode"
  "HasSeen plan_receiver = plan_HasSeen"
  "FoundSubgraphPair plan_receiver = plan_FoundSubgraphPair"
  by (simp_all add: plan_receiver_def)

subsection \<open>Seen sets\<close>

lemma hash_nodes_bitset: "bs_valid bs \<Longrightarrow> hash_nodes (bs_set bs) = bs_HashValue bs"
  using bitset_alg.hash_rebuild [of bs] by (simp add: hash_nodes_def bitset.elements_abs)

lemma bucket_of_push [simp]:
  "bucket_of (push_bucket k v m) h = (if h = k then bucket_of m k @ [v] else bucket_of m h)"
  by (simp add: push_bucket_def bucket_of_def)

definition seen_sets :: "CDPHyperPlan \<Rightarrow> nodes set" where
  "seen_sets p = (\<Union>h. set (bucket_of (m_seen p) h))"

text \<open>Buckets hold sets of their hash value, without repetition, and the counter counts them.\<close>

definition seen_inv :: "CDPHyperPlan \<Rightarrow> bool" where
  "seen_inv p \<longleftrightarrow> finite (seen_sets p) \<and> m_seen_count p = card (seen_sets p) \<and>
     (\<forall>h. distinct (bucket_of (m_seen p) h) \<and> (\<forall>A\<in>set (bucket_of (m_seen p) h). hash_nodes A = h))"

lemma plan_HasSeen_bucket: "plan_HasSeen A p \<longleftrightarrow> A \<in> set (bucket_of (m_seen p) (hash_nodes A))"
  by (auto simp: plan_HasSeen_def bucket_of_def list_ex_iff split: option.splits)

lemma plan_HasSeen_iff: "seen_inv p \<Longrightarrow> plan_HasSeen A p \<longleftrightarrow> A \<in> seen_sets p"
  by (auto simp: plan_HasSeen_bucket seen_inv_def seen_sets_def)

lemma seen_sets_push:
  "seen_sets (p\<lparr>m_seen := push_bucket h A (m_seen p), m_seen_count := c\<rparr>) = insert A (seen_sets p)"
proof (rule set_eqI)
  fix B
  have "B \<in> seen_sets (p\<lparr>m_seen := push_bucket h A (m_seen p), m_seen_count := c\<rparr>) \<longleftrightarrow>
      (\<exists>k. B \<in> set (bucket_of (m_seen p) k) \<or> k = h \<and> B = A)"
    by (auto simp: seen_sets_def split: if_splits)
  then show "B \<in> seen_sets (p\<lparr>m_seen := push_bucket h A (m_seen p), m_seen_count := c\<rparr>) \<longleftrightarrow>
      B \<in> insert A (seen_sets p)"
    by (auto simp: seen_sets_def)
qed

lemma RecordSeen_seen:
  assumes "seen_inv p"
  shows "seen_inv (snd (RecordSeen A p))" and "seen_sets (snd (RecordSeen A p)) = insert A (seen_sets p)"
proof -
  note has = plan_HasSeen_iff [OF assms, of A]
  show s: "seen_sets (snd (RecordSeen A p)) = insert A (seen_sets p)"
    using has by (auto simp: RecordSeen_def seen_sets_push)
  show "seen_inv (snd (RecordSeen A p))"
  proof (cases "plan_HasSeen A p")
    case False
    then have "A \<notin> seen_sets p" "A \<notin> set (bucket_of (m_seen p) (hash_nodes A))"
      using has by (simp_all add: plan_HasSeen_bucket)
    then show ?thesis
      using assms False s by (auto simp: seen_inv_def RecordSeen_def)
  qed (use assms in \<open>simp add: RecordSeen_def\<close>)
qed

subsection \<open>Recorded pairs\<close>

text \<open>
  The sets of nodes that some sequence of joins along the edges of the graph can build from single
  nodes, where the filter accepts every join.
\<close>

inductive joinable :: "CDPHyperGraph \<Rightarrow> PairFilter \<Rightarrow> nodes \<Rightarrow> bool" for g flt where
  joinable_single: "n < NodeCount g \<Longrightarrow> joinable g flt {n}"
| joinable_pair: "joinable g flt S \<Longrightarrow> joinable g flt C \<Longrightarrow> pair_ok g S C \<Longrightarrow> edge_between g S C e \<Longrightarrow>
    flt S C e \<Longrightarrow> joinable g flt (S \<union> C)"

definition accepts :: "CDPHyperPlan \<Rightarrow> PairFilter" where
  "accepts p = (case m_pair_filter p of None \<Rightarrow> (\<lambda>_ _ _. True) | Some flt \<Rightarrow> flt)"

definition pair_inv :: "CDPHyperGraph \<Rightarrow> CDPHyperPlan \<Rightarrow> SPair \<Rightarrow> bool" where
  "pair_inv g p q \<longleftrightarrow> pair_ok g (p_left q) (p_right q) \<and>
     {p_left q, p_right q, p_left q \<union> p_right q} \<subseteq> seen_sets p \<and>
     m_connecting_edges q \<noteq> [] \<and> distinct (m_connecting_edges q) \<and>
     (\<forall>e\<in>set (m_connecting_edges q). edge_between g (p_left q) (p_right q) e \<and> accepts p (p_left q) (p_right q) e)"

definition index_inv :: "CDPHyperPlan \<Rightarrow> bool" where
  "index_inv p \<longleftrightarrow> (\<forall>h. set (bucket_of (m_pairs_by_union p) h) =
     {i. i < length (m_pairs p) \<and> hash_nodes (p_left (m_pairs p ! i) \<union> p_right (m_pairs p ! i)) = h})"

definition plan_inv :: "CDPHyperGraph \<Rightarrow> CDPHyperPlan \<Rightarrow> bool" where
  "plan_inv g p \<longleftrightarrow> seen_inv p \<and> index_inv p \<and>
     (\<forall>A\<in>seen_sets p. joinable g (accepts p) A) \<and>
     (\<forall>q\<in>set (m_pairs p). pair_inv g p q) \<and>
     distinct (map (\<lambda>q. (p_left q, p_right q)) (m_pairs p)) \<and>
     length (m_pairs p) \<le> m_pair_budget p \<and>
     (m_budget_exhausted p \<longrightarrow> length (m_pairs p) = m_pair_budget p)"

lemma Ppair_bucket:
  "Ppair left right h p = find (\<lambda>i. same_pair left right (m_pairs p ! i)) (bucket_of (m_pairs_by_union p) h)"
  by (simp add: Ppair_def bucket_of_def split: option.splits)

lemma same_pair_oriented:
  assumes "pair_ok g S C" and "pair_ok g (p_left q) (p_right q)" and "same_pair S C q"
  shows "p_left q = S" and "p_right q = C"
  using assms by (auto simp: same_pair_def pair_ok_def)

lemma Ppair_None:
  assumes "index_inv p" and "Ppair S C (hash_nodes (S \<union> C)) p = None"
  shows "(S, C) \<notin> set (map (\<lambda>q. (p_left q, p_right q)) (m_pairs p))"
proof
  assume "(S, C) \<in> set (map (\<lambda>q. (p_left q, p_right q)) (m_pairs p))"
  then obtain i where i: "i < length (m_pairs p)" "p_left (m_pairs p ! i) = S" "p_right (m_pairs p ! i) = C"
    by (auto simp: in_set_conv_nth)
  then have "i \<in> set (bucket_of (m_pairs_by_union p) (hash_nodes (S \<union> C)))"
    using assms(1) by (simp add: index_inv_def)
  with assms(2) have "\<not> same_pair S C (m_pairs p ! i)" by (simp add: Ppair_bucket find_None_iff)
  with i show False by (simp add: same_pair_def)
qed

lemma Ppair_Some:
  assumes "index_inv p" and "\<forall>q\<in>set (m_pairs p). pair_inv g p q" and "pair_ok g S C"
    and "Ppair S C h p = Some i"
  shows "i < length (m_pairs p)" and "p_left (m_pairs p ! i) = S" and "p_right (m_pairs p ! i) = C"
proof -
  have "i \<in> set (bucket_of (m_pairs_by_union p) h)" and s: "same_pair S C (m_pairs p ! i)"
    using assms(4) by (auto simp: Ppair_bucket find_Some_iff)
  then show i: "i < length (m_pairs p)" using assms(1) by (simp add: index_inv_def)
  then have "pair_ok g (p_left (m_pairs p ! i)) (p_right (m_pairs p ! i))"
    using assms(2) by (simp add: pair_inv_def)
  then show "p_left (m_pairs p ! i) = S" "p_right (m_pairs p ! i) = C"
    using same_pair_oriented [OF assms(3) _ s] by simp_all
qed

text \<open>Recording a set leaves everything but the seen sets alone.\<close>

lemma RecordSeen_frame [simp]:
  "m_pairs (snd (RecordSeen A p)) = m_pairs p"
  "m_pairs_by_union (snd (RecordSeen A p)) = m_pairs_by_union p"
  "m_pair_budget (snd (RecordSeen A p)) = m_pair_budget p"
  "m_budget_exhausted (snd (RecordSeen A p)) = m_budget_exhausted p"
  "m_pair_filter (snd (RecordSeen A p)) = m_pair_filter p"
  "accepts (snd (RecordSeen A p)) = accepts p"
  by (simp_all add: RecordSeen_def accepts_def)

lemma pair_inv_mono:
  "pair_inv g p q \<Longrightarrow> seen_sets p \<subseteq> seen_sets p' \<Longrightarrow> accepts p' = accepts p \<Longrightarrow> pair_inv g p' q"
  by (auto simp: pair_inv_def)

lemma plan_invD:
  assumes "plan_inv g p"
  shows "seen_inv p" "index_inv p" "\<forall>A\<in>seen_sets p. joinable g (accepts p) A" "\<forall>q\<in>set (m_pairs p). pair_inv g p q"
    "distinct (map (\<lambda>q. (p_left q, p_right q)) (m_pairs p))" "length (m_pairs p) \<le> m_pair_budget p"
    "m_budget_exhausted p \<longrightarrow> length (m_pairs p) = m_pair_budget p"
  using assms by (simp_all add: plan_inv_def)

lemma RecordSeen_plan_inv:
  assumes "plan_inv g p" and "joinable g (accepts p) A"
  shows "plan_inv g (snd (RecordSeen A p))"
proof -
  note inv = plan_invD [OF assms(1)]
  note r = RecordSeen_seen [OF inv(1), of A]
  have "pair_inv g (snd (RecordSeen A p)) q" if "q \<in> set (m_pairs p)" for q
    by (rule pair_inv_mono [OF inv(4) [rule_format, OF that]]) (simp_all add: r(2) subset_insertI)
  moreover have "\<forall>B\<in>seen_sets (snd (RecordSeen A p)). joinable g (accepts p) B" using inv(3) assms(2) r(2) by simp
  moreover have "index_inv (snd (RecordSeen A p))" using inv(2) by (simp add: index_inv_def)
  ultimately show ?thesis unfolding plan_inv_def using inv(5-7) r(1) by simp
qed

lemma plan_update_frame [simp]:
  "seen_sets (p\<lparr>m_pairs := qs\<rparr>) = seen_sets p" "seen_sets (p\<lparr>m_pairs_by_union := m\<rparr>) = seen_sets p"
  "seen_sets (p\<lparr>m_budget_exhausted := b\<rparr>) = seen_sets p"
  "accepts (p\<lparr>m_pairs := qs\<rparr>) = accepts p" "accepts (p\<lparr>m_pairs_by_union := m\<rparr>) = accepts p"
  "accepts (p\<lparr>m_budget_exhausted := b\<rparr>) = accepts p"
  by (simp_all add: seen_sets_def accepts_def)

lemma plan_inv_frame [simp]:
  "pair_inv g (p\<lparr>m_pairs := qs\<rparr>) = pair_inv g p" "pair_inv g (p\<lparr>m_pairs_by_union := m\<rparr>) = pair_inv g p"
  "pair_inv g (p\<lparr>m_budget_exhausted := b\<rparr>) = pair_inv g p"
  "seen_inv (p\<lparr>m_pairs := qs\<rparr>) = seen_inv p" "seen_inv (p\<lparr>m_pairs_by_union := m\<rparr>) = seen_inv p"
  "seen_inv (p\<lparr>m_budget_exhausted := b\<rparr>) = seen_inv p"
  by (auto simp: pair_inv_def seen_inv_def fun_eq_iff)

lemma plan_new_inv: "plan_inv g (plan_new budget flt)"
  by (simp add: plan_inv_def plan_new_def seen_inv_def seen_sets_def index_inv_def bucket_of_def)

lemma AddConnectingEdge_sides [simp]:
  "p_left (AddConnectingEdge e q) = p_left q" "p_right (AddConnectingEdge e q) = p_right q"
  by (simp_all add: AddConnectingEdge_def)

lemma add_edge_plan_inv:
  assumes "plan_inv g p" and "i < length (m_pairs p)"
    and "edge_between g (p_left (m_pairs p ! i)) (p_right (m_pairs p ! i)) e"
    and "accepts p (p_left (m_pairs p ! i)) (p_right (m_pairs p ! i)) e"
  shows "plan_inv g (p\<lparr>m_pairs := (m_pairs p)[i := AddConnectingEdge e (m_pairs p ! i)]\<rparr>)"
proof -
  let ?q = "m_pairs p ! i" and ?q' = "AddConnectingEdge e (m_pairs p ! i)"
  let ?qs = "(m_pairs p)[i := ?q']"
  have "pair_inv g p ?q" using assms(1,2) by (simp add: plan_inv_def)
  then have "pair_inv g p ?q'"
    using assms(3,4) by (auto simp: pair_inv_def AddConnectingEdge_def)
  then have "\<forall>q\<in>set ?qs. pair_inv g p q"
    using assms(1) set_update_subset_insert [of "m_pairs p" i ?q'] by (auto simp: plan_inv_def)
  moreover have "map (\<lambda>q. (p_left q, p_right q)) ?qs = map (\<lambda>q. (p_left q, p_right q)) (m_pairs p)"
    using assms(2) by (intro nth_equalityI) (auto simp: nth_list_update)
  moreover have "p_left (?qs ! k) = p_left (m_pairs p ! k) \<and> p_right (?qs ! k) = p_right (m_pairs p ! k)"
    if "k < length (m_pairs p)" for k
    using that by (cases "k = i") simp_all
  then have "index_inv (p\<lparr>m_pairs := ?qs\<rparr>) = index_inv p" by (simp add: index_inv_def cong: conj_cong)
  ultimately show ?thesis
    using assms(1) by (simp add: plan_inv_def)
qed

lemma push_pair_plan_inv:
  assumes "plan_inv g p" and "pair_ok g S C" and "edge_between g S C e" and "accepts p S C e"
    and "S \<in> seen_sets p" and "C \<in> seen_sets p"
    and "(S, C) \<notin> set (map (\<lambda>q. (p_left q, p_right q)) (m_pairs p))"
    and "length (m_pairs p) < m_pair_budget p"
  defines "p1 \<equiv> p\<lparr>m_pairs := m_pairs p @ [SPair_new S C e],
      m_pairs_by_union := push_bucket (hash_nodes (S \<union> C)) (length (m_pairs p)) (m_pairs_by_union p)\<rparr>"
  shows "plan_inv g (snd (RecordSeen (S \<union> C) p1))"
proof -
  let ?q = "SPair_new S C e" and ?r = "snd (RecordSeen (S \<union> C) p1)"
  note inv = plan_invD [OF assms(1)]
  have p1: "seen_inv p1" "seen_sets p1 = seen_sets p" "accepts p1 = accepts p" using inv(1) by (simp_all add: p1_def)
  note r = RecordSeen_seen [OF p1(1), of "S \<union> C", unfolded p1(2)]
  have acc: "accepts ?r = accepts p" using p1(3) by simp
  have "joinable g (accepts p) (S \<union> C)" using inv(3) assms(2-6) joinable_pair by blast
  then have j: "\<forall>A\<in>seen_sets ?r. joinable g (accepts ?r) A" using inv(3) r(2) acc by simp
  have "pair_inv g ?r ?q" using assms(2-6) r(2) acc by (simp add: pair_inv_def SPair_new_def)
  moreover have "pair_inv g ?r q" if "q \<in> set (m_pairs p)" for q
    by (rule pair_inv_mono [OF inv(4) [rule_format, OF that]]) (simp_all add: r(2) p1(3) subset_insertI)
  ultimately have pairs: "\<forall>q\<in>set (m_pairs ?r). pair_inv g ?r q" by (auto simp: p1_def)
  have idx: "index_inv ?r"
    using inv(2) unfolding index_inv_def by (auto simp: p1_def SPair_new_def nth_append less_Suc_eq)
  have "distinct (map (\<lambda>q. (p_left q, p_right q)) (m_pairs ?r))"
    using inv(5) assms(7) by (simp add: p1_def SPair_new_def)
  moreover have "length (m_pairs ?r) \<le> m_pair_budget ?r" "\<not> m_budget_exhausted ?r"
    using assms(8) inv(7) by (auto simp: p1_def)
  ultimately show ?thesis using j pairs r(1) idx by (simp add: plan_inv_def)
qed

lemma accepts_filtered:
  "(case m_pair_filter p of None \<Rightarrow> False | Some flt \<Rightarrow> \<not> flt S C e) \<longleftrightarrow> \<not> accepts p S C e"
  by (simp add: accepts_def split: option.splits)

lemma FoundSubgraphPair_plan_inv:
  assumes "plan_inv g p" and "pair_ok g S C" and "edge_between g S C e"
    and "S \<in> seen_sets p" and "C \<in> seen_sets p"
  shows "plan_inv g (snd (plan_FoundSubgraphPair S C e p))"
    and "seen_sets p \<subseteq> seen_sets (snd (plan_FoundSubgraphPair S C e p))"
    and "\<not> m_budget_exhausted p \<Longrightarrow>
      fst (plan_FoundSubgraphPair S C e p) \<longleftrightarrow> m_budget_exhausted (snd (plan_FoundSubgraphPair S C e p))"
proof -
  note inv = plan_invD [OF assms(1)]
  note S = Ppair_Some [OF inv(2,4) assms(2), of "hash_nodes (S \<union> C)"]
  note N = Ppair_None [OF inv(2), of S C]
  have full: "plan_inv g (p\<lparr>m_budget_exhausted := True\<rparr>)" if "m_pair_budget p \<le> length (m_pairs p)"
    using assms(1) that by (simp add: plan_inv_def index_inv_def)
  have add: "plan_inv g (p\<lparr>m_pairs := (m_pairs p)[i := AddConnectingEdge e (m_pairs p ! i)]\<rparr>)"
    if "accepts p S C e" "Ppair S C (hash_nodes (S \<union> C)) p = Some i" for i
    using add_edge_plan_inv [OF assms(1) S(1) [OF that(2)], of e] S(2,3) [OF that(2)] that(1) assms(3) by simp
  show "plan_inv g (snd (plan_FoundSubgraphPair S C e p))"
    using assms full add push_pair_plan_inv [OF assms(1-3) _ assms(4,5)] N
    by (simp add: plan_FoundSubgraphPair_def accepts_filtered Let_def split: option.splits)
  have "seen_inv (p\<lparr>m_pairs := qs, m_pairs_by_union := m\<rparr>)" for qs m using inv(1) by simp
  note r = RecordSeen_seen(2) [OF this]
  show "seen_sets p \<subseteq> seen_sets (snd (plan_FoundSubgraphPair S C e p))"
    by (auto simp: plan_FoundSubgraphPair_def accepts_filtered Let_def r split: option.splits)
  show "fst (plan_FoundSubgraphPair S C e p) \<longleftrightarrow> m_budget_exhausted (snd (plan_FoundSubgraphPair S C e p))"
    if "\<not> m_budget_exhausted p"
    using that by (auto simp: plan_FoundSubgraphPair_def accepts_filtered Let_def split: option.splits)
qed

subsection \<open>The plan meets the receiver contract\<close>

definition plan_ok :: "CDPHyperGraph \<Rightarrow> nat \<Rightarrow> PairFilter option \<Rightarrow> bool \<Rightarrow> CDPHyperPlan \<Rightarrow> bool" where
  "plan_ok g budget flt aborted p \<longleftrightarrow> plan_inv g p \<and> (aborted \<longleftrightarrow> m_budget_exhausted p) \<and>
     m_pair_budget p = budget \<and> m_pair_filter p = flt"

lemma plan_ok_seen: "plan_ok g n flt b p \<Longrightarrow> plan_HasSeen A p \<longleftrightarrow> A \<in> seen_sets p"
  by (simp add: plan_ok_def plan_inv_def plan_HasSeen_iff)

lemma FoundSingleNode_plan_ok:
  assumes "plan_ok g budget flt False p" and "n < NodeCount g"
  shows "plan_ok g budget flt (fst (plan_FoundSingleNode n p)) (snd (plan_FoundSingleNode n p))"
    and "seen_sets (snd (plan_FoundSingleNode n p)) = insert {n} (seen_sets p)"
proof -
  have inv: "plan_inv g p" "\<not> m_budget_exhausted p" "m_pair_budget p = budget" "m_pair_filter p = flt" using assms(1) by (simp_all add: plan_ok_def)
  show "plan_ok g budget flt (fst (plan_FoundSingleNode n p)) (snd (plan_FoundSingleNode n p))"
    using RecordSeen_plan_inv [OF inv(1) joinable_single [OF assms(2)]] inv(2-4)
    by (simp add: plan_ok_def plan_FoundSingleNode_def)
  show "seen_sets (snd (plan_FoundSingleNode n p)) = insert {n} (seen_sets p)"
    using RecordSeen_seen(2) [OF plan_invD(1) [OF inv(1)], of "{n}"] by (simp add: plan_FoundSingleNode_def)
qed

lemma FoundSubgraphPair_frame:
  "m_pair_budget (snd (plan_FoundSubgraphPair S C e p)) = m_pair_budget p"
  "m_pair_filter (snd (plan_FoundSubgraphPair S C e p)) = m_pair_filter p"
  by (simp_all add: plan_FoundSubgraphPair_def Let_def split: option.splits)

lemma FoundSubgraphPair_plan_ok:
  assumes "plan_ok g budget flt False p" and "pair_ok g S C" and "edge_between g S C e" and "plan_HasSeen S p" and "plan_HasSeen C p"
  shows "plan_ok g budget flt (fst (plan_FoundSubgraphPair S C e p)) (snd (plan_FoundSubgraphPair S C e p))"
    and "seen_sets p \<subseteq> seen_sets (snd (plan_FoundSubgraphPair S C e p))"
  using FoundSubgraphPair_plan_inv [of g p S C e] FoundSubgraphPair_frame [of S C e p] assms plan_ok_seen [OF assms(1)]
  by (simp_all add: plan_ok_def)

lemma FoundSingleNode_seen:
  assumes "plan_ok g budget flt False p" and "n < NodeCount g"
  shows "plan_HasSeen A (snd (plan_FoundSingleNode n p)) \<longleftrightarrow> A = {n} \<or> plan_HasSeen A p"
  unfolding plan_ok_seen [OF FoundSingleNode_plan_ok(1) [OF assms]] plan_ok_seen [OF assms(1)]
    FoundSingleNode_plan_ok(2) [OF assms]
  by simp

lemma FoundSubgraphPair_seen:
  assumes "plan_ok g budget flt False p" and "pair_ok g S C" and "edge_between g S C e" and "plan_HasSeen S p" and "plan_HasSeen C p"
    and "plan_HasSeen A p"
  shows "plan_HasSeen A (snd (plan_FoundSubgraphPair S C e p))"
  using assms(6) FoundSubgraphPair_plan_ok(2) [OF assms(1-5)]
  unfolding plan_ok_seen [OF FoundSubgraphPair_plan_ok(1) [OF assms(1-5)]] plan_ok_seen [OF assms(1)]
  by (rule rev_subsetD)

interpretation plan: dphyper_receiver g plan_receiver "plan_ok g budget flt" for g budget flt
  by (unfold_locales, unfold plan_receiver_simps)
    (simp_all add: FoundSingleNode_plan_ok FoundSubgraphPair_plan_ok FoundSingleNode_seen FoundSubgraphPair_seen)

lemma Complete_iff:
  assumes "plan_inv g p"
  shows "Complete N p \<longleftrightarrow> \<not> m_budget_exhausted p \<and> N \<noteq> 0 \<and> {..<N} \<in> seen_sets p"
  using plan_HasSeen_iff [OF plan_invD(1) [OF assms], of "{..<N}"]
  by (simp add: Complete_def PbsLowerNodes_eq [of N, unfolded PbsLowerNodes_def])

subsection \<open>Properties\<close>

text \<open>
  \<^bold>\<open>C1\<close> Running the enumerator on a well-formed hypergraph with a fresh plan always ends.  It reports an
  abort exactly when the pair budget was hit, never records more pairs than the budget, and records no
  pair twice.  Every recorded pair consists of two disjoint non-empty node sets, both built before by
  joins, and each of its connecting edges is an edge of the graph between the two sides that the filter
  accepts.  If the plan is complete, all nodes can be joined along edges of the graph.
\<close>

theorem enumeration_plan_sound:
  assumes "graph_inv g"
  shows "\<exists>aborted p. Enumerate g plan_receiver (plan_new budget flt) = Some (aborted, p) \<and>
    (aborted \<longleftrightarrow> m_budget_exhausted p) \<and> length (m_pairs p) \<le> budget \<and>
    distinct (map (\<lambda>q. {p_left q, p_right q}) (m_pairs p)) \<and>
    (\<forall>q\<in>set (m_pairs p). pair_ok g (p_left q) (p_right q) \<and> joinable g (accepts p) (p_left q) \<and>
       joinable g (accepts p) (p_right q) \<and> m_connecting_edges q \<noteq> [] \<and> distinct (m_connecting_edges q) \<and>
       (\<forall>e\<in>set (m_connecting_edges q). edge_between g (p_left q) (p_right q) e \<and> accepts p (p_left q) (p_right q) e)) \<and>
    m_pair_filter p = flt \<and> (\<not> aborted \<longrightarrow> (\<forall>n<NodeCount g. plan_HasSeen {n} p)) \<and>
    (Complete (NodeCount g) p \<longrightarrow> joinable g (accepts p) {..<NodeCount g})"
proof -
  have "plan_ok g budget flt False (plan_new budget flt)"
    using plan_new_inv [of g budget flt] by (simp add: plan_ok_def plan_new_def)
  from plan.Enumerate_kept [OF assms this, unfolded plan_receiver_simps] obtain b p
    where E: "Enumerate g plan_receiver (plan_new budget flt) = Some (b, p)"
      and ok: "plan_ok g budget flt b p" and seen: "\<not> b \<longrightarrow> (\<forall>n<NodeCount g. plan_HasSeen {n} p)" by blast
  then have "plan_inv g p" by (simp add: plan_ok_def)
  note inv = plan_invD [OF this]
  have pairs: "pair_ok g (p_left q) (p_right q)" "p_left q \<in> seen_sets p" "p_right q \<in> seen_sets p"
    if "q \<in> set (m_pairs p)" for q
    using inv(4) that by (auto simp: pair_inv_def)
  have "distinct (map (\<lambda>q. {p_left q, p_right q}) (m_pairs p))"
  proof -
    have d: "distinct (m_pairs p)" "inj_on (\<lambda>q. (p_left q, p_right q)) (set (m_pairs p))"
      using inv(5) by (simp_all add: distinct_map)
    have o: "(p_left q, p_right q) = (p_left q', p_right q')"
      if "q \<in> set (m_pairs p)" "q' \<in> set (m_pairs p)" "{p_left q, p_right q} = {p_left q', p_right q'}" for q q'
      using pairs(1) [OF that(1)] pairs(1) [OF that(2)] that(3) by (auto simp: doubleton_eq_iff pair_ok_def)
    have "inj_on (\<lambda>q. {p_left q, p_right q}) (set (m_pairs p))"
    proof (rule inj_onI)
      fix q q' assume q: "q \<in> set (m_pairs p)" "q' \<in> set (m_pairs p)" "{p_left q, p_right q} = {p_left q', p_right q'}"
      show "q = q'" using inj_onD [OF d(2) o [OF q]] q by simp
    qed
    then show ?thesis using d(1) by (simp add: distinct_map)
  qed
  moreover have "Complete (NodeCount g) p \<longrightarrow> joinable g (accepts p) {..<NodeCount g}"
    using Complete_iff [OF \<open>plan_inv g p\<close>] inv(3) by blast
  moreover have "\<forall>q\<in>set (m_pairs p). pair_ok g (p_left q) (p_right q) \<and> joinable g (accepts p) (p_left q) \<and>
       joinable g (accepts p) (p_right q) \<and> m_connecting_edges q \<noteq> [] \<and> distinct (m_connecting_edges q) \<and>
       (\<forall>e\<in>set (m_connecting_edges q). edge_between g (p_left q) (p_right q) e \<and> accepts p (p_left q) (p_right q) e)"
    using inv(3,4) by (simp add: pair_inv_def)
  ultimately show ?thesis
    using E ok seen inv(6) unfolding plan_ok_def by (intro exI conjI) simp_all
qed

lemma two_node_graph: "graph_inv (AddEdge {0} {1} 7 (graph_new 2))" "NodeCount (AddEdge {0} {1} 7 (graph_new 2)) = 2"
proof -
  have n: "NodeCount (graph_new 2) = 2" by (simp add: graph_new_def NodeCount_def)
  then show "graph_inv (AddEdge {0} {1} 7 (graph_new 2))"
    by (intro AddEdge_inv graph_new_inv) (simp add: sides_ok_def)
  show "NodeCount (AddEdge {0} {1} 7 (graph_new 2)) = 2" using n by (simp add: AddEdge_shape)
qed

theorem enumeration_plan_sound_witness:
  "\<exists>aborted p. Enumerate (AddEdge {0} {1} 7 (graph_new 2)) plan_receiver (plan_new 10 None) = Some (aborted, p) \<and>
     length (m_pairs p) \<le> 10 \<and> (\<not> aborted \<longrightarrow> plan_HasSeen {1} p)"
  using enumeration_plan_sound [OF two_node_graph(1), of 10 None] two_node_graph(2) by fastforce

end
