(* ===== verification/OrderConstraints.thy ===== *)
theory OrderConstraints
  imports HyperGraph
begin

text \<open>
  The transitive-closure tracker of \<^verbatim>\<open>libgpopt/src/xforms/CDPHyperOrderConstraints.cpp\<close>.  The component
  promises to maintain a strict order on join edges; the abstract specification is a finite acyclic
  relation, and the array of reachable sets represents its reflexive transitive closure.
\<close>

subsection \<open>Operations\<close>

type_synonym order_constraints = "nodes list"

definition order_new :: "nat \<Rightarrow> order_constraints" where
  "order_new edge_count = map (\<lambda>edge. {edge}) [0..<edge_count]"

definition WouldCreateCycle :: "order_constraints \<Rightarrow> nat \<Rightarrow> nat \<Rightarrow> bool" where
  "WouldCreateCycle reachable before after \<longleftrightarrow> before \<in> reachable ! after"

definition TryAdd :: "nat \<Rightarrow> nat \<Rightarrow> order_constraints \<Rightarrow> bool \<times> order_constraints" where
  "TryAdd before after reachable =
     (if WouldCreateCycle reachable before after then (False, reachable)
      else if after \<in> reachable ! before then (True, reachable)
      else (True, fold (\<lambda>i r. if before \<in> r ! i then r[i := r ! i \<union> r ! after] else r)
                    [0..<length reachable] reachable))"

definition Precedes :: "order_constraints \<Rightarrow> nat \<Rightarrow> nat \<Rightarrow> bool" where
  "Precedes reachable before after \<longleftrightarrow> before \<noteq> after \<and> after \<in> reachable ! before"

subsection \<open>Representation of an acyclic relation\<close>

definition order_inv :: "nat \<Rightarrow> (nat \<times> nat) set \<Rightarrow> order_constraints \<Rightarrow> bool" where
  "order_inv n R reachable \<longleftrightarrow> length reachable = n \<and> R \<subseteq> {..<n} \<times> {..<n} \<and> acyclic R \<and>
     (\<forall>i<n. reachable ! i = {j. (i, j) \<in> R\<^sup>*})"

lemma order_invD:
  assumes "order_inv n R r" and "i < n"
  shows "r ! i = {j. (i, j) \<in> R\<^sup>*}"
  using assms by (simp add: order_inv_def)

lemma order_new_inv: "order_inv n {} (order_new n)"
  by (auto simp: order_inv_def order_new_def acyclic_def)

text \<open>The loop over the array reads \<^verbatim>\<open>m_reachable[after]\<close> while updating; it never updates that entry.\<close>

lemma closure_loop:
  assumes "before \<notin> r ! after" and "k \<le> length r" and "after < length r"
  defines "loop \<equiv> \<lambda>k. fold (\<lambda>i r. if before \<in> r ! i then r[i := r ! i \<union> r ! after] else r) [0..<k] r"
  shows "length (loop k) = length r \<and> (\<forall>i<length r. loop k ! i =
    (if i < k \<and> before \<in> r ! i then r ! i \<union> r ! after else r ! i))"
  using assms(2)
proof (induction k)
  case (Suc k)
  let ?s = "loop k"
  have s: "length ?s = length r" "\<And>i. i < length r \<Longrightarrow> ?s ! i = (if i < k \<and> before \<in> r ! i then r ! i \<union> r ! after else r ! i)"
    using Suc by auto
  have "loop (Suc k) = (if before \<in> ?s ! k then ?s[k := ?s ! k \<union> ?s ! after] else ?s)"
    by (simp add: loop_def)
  moreover have "?s ! after = r ! after" "?s ! k = r ! k" using s(2) assms(1,3) Suc.prems by auto
  ultimately show ?case using s Suc.prems by (auto simp: nth_list_update less_Suc_eq)
qed (simp add: loop_def)

lemma TryAdd_closure:
  assumes "order_inv n R r" and "before < n" and "after < n"
  shows "fst (TryAdd before after r) \<longleftrightarrow> (after, before) \<notin> R\<^sup>*"
    and "(after, before) \<in> R\<^sup>* \<Longrightarrow> snd (TryAdd before after r) = r"
    and "(after, before) \<notin> R\<^sup>* \<Longrightarrow> order_inv n (insert (before, after) R) (snd (TryAdd before after r))"
proof -
  let ?R = "insert (before, after) R"
  have len: "length r = n" using assms(1) by (simp add: order_inv_def)
  note at = order_invD [OF assms(1)]
  have cyc: "WouldCreateCycle r before after \<longleftrightarrow> (after, before) \<in> R\<^sup>*"
    using at [OF assms(3)] by (simp add: WouldCreateCycle_def)
  then show "fst (TryAdd before after r) \<longleftrightarrow> (after, before) \<notin> R\<^sup>*"
    and "(after, before) \<in> R\<^sup>* \<Longrightarrow> snd (TryAdd before after r) = r"
    by (auto simp: TryAdd_def)
  assume nc: "(after, before) \<notin> R\<^sup>*"
  have base: "?R \<subseteq> {..<n} \<times> {..<n}" "acyclic ?R" using assms nc by (auto simp: order_inv_def acyclic_insert)
  have clos: "(i, j) \<in> ?R\<^sup>* \<longleftrightarrow> (i, j) \<in> R\<^sup>* \<or> (i, before) \<in> R\<^sup>* \<and> (after, j) \<in> R\<^sup>*" for i j
    by (simp add: rtrancl_insert)
  show "order_inv n ?R (snd (TryAdd before after r))"
  proof (cases "after \<in> r ! before")
    case True
    then have "(before, after) \<in> R\<^sup>*" using at [OF assms(2)] by simp
    then have "(i, j) \<in> ?R\<^sup>* \<longleftrightarrow> (i, j) \<in> R\<^sup>*" for i j using clos rtrancl_trans by metis
    moreover have "snd (TryAdd before after r) = r" using True by (simp add: TryAdd_def)
    ultimately show ?thesis using assms(1) base by (simp add: order_inv_def)
  next
    case False
    have "before \<notin> r ! after" using nc at [OF assms(3)] by simp
    note loop = closure_loop [OF this le_refl, unfolded len, OF assms(3)]
    have res: "snd (TryAdd before after r) =
        fold (\<lambda>i r. if before \<in> r ! i then r[i := r ! i \<union> r ! after] else r) [0..<n] r"
      using False nc cyc len by (simp add: TryAdd_def)
    have "snd (TryAdd before after r) ! i = {j. (i, j) \<in> ?R\<^sup>*}" if "i < n" for i
      using loop that at [OF that] at [OF assms(3)] clos by (auto simp: res)
    then show ?thesis using base loop by (simp add: order_inv_def res)
  qed
qed

lemma Precedes_iff:
  assumes "order_inv n R r" and "before < n"
  shows "Precedes r before after \<longleftrightarrow> (before, after) \<in> R\<^sup>+"
proof -
  have "(before, before) \<notin> R\<^sup>+" using assms(1) by (simp add: order_inv_def acyclic_def)
  then show ?thesis using order_invD [OF assms] by (auto simp: Precedes_def rtrancl_eq_or_trancl)
qed

subsection \<open>The interface the graph simplifier relies on\<close>

locale order_tracker =
  fixes rep :: "nat \<Rightarrow> (nat \<times> nat) set \<Rightarrow> 'o \<Rightarrow> bool"
    and would_cycle :: "'o \<Rightarrow> nat \<Rightarrow> nat \<Rightarrow> bool"
    and try_add :: "nat \<Rightarrow> nat \<Rightarrow> 'o \<Rightarrow> bool \<times> 'o"
  assumes rep_acyclic: "rep n R ord \<Longrightarrow> acyclic R"
    and would_cycle_iff: "rep n R ord \<Longrightarrow> a < n \<Longrightarrow> b < n \<Longrightarrow> would_cycle ord a b \<longleftrightarrow> (b, a) \<in> R\<^sup>*"
    and try_add_flag: "rep n R ord \<Longrightarrow> a < n \<Longrightarrow> b < n \<Longrightarrow> fst (try_add a b ord) \<longleftrightarrow> (b, a) \<notin> R\<^sup>*"
    and try_add_rejected: "rep n R ord \<Longrightarrow> a < n \<Longrightarrow> b < n \<Longrightarrow> (b, a) \<in> R\<^sup>* \<Longrightarrow> snd (try_add a b ord) = ord"
    and try_add_accepted: "rep n R ord \<Longrightarrow> a < n \<Longrightarrow> b < n \<Longrightarrow> (b, a) \<notin> R\<^sup>* \<Longrightarrow>
      rep n (insert (a, b) R) (snd (try_add a b ord))"
begin

text \<open>Two edges that are not ordered yet can be ordered either way, and afterwards only that way.\<close>

lemma add_unordered:
  assumes "rep n R ord" and "a < n" and "b < n" and "\<not> would_cycle ord a b"
  shows "fst (try_add a b ord)" and "would_cycle (snd (try_add a b ord)) b a"
    and "\<not> would_cycle (snd (try_add a b ord)) a b"
proof -
  have nc: "(b, a) \<notin> R\<^sup>*" using assms would_cycle_iff by blast
  then show "fst (try_add a b ord)" using try_add_flag assms(1-3) by blast
  note r = try_add_accepted [OF assms(1-3) nc]
  show "would_cycle (snd (try_add a b ord)) b a" using would_cycle_iff [OF r assms(3,2)] by auto
  have "(b, a) \<notin> (insert (a, b) R)\<^sup>*"
    using rep_acyclic [OF r] by (simp add: acyclic_insert rtrancl_insert)
  then show "\<not> would_cycle (snd (try_add a b ord)) a b" using would_cycle_iff [OF r assms(2,3)] by simp
qed

text \<open>Constraints taken from a strict order are all accepted, in any sequence.\<close>

lemma add_from_strict_order:
  assumes "rep n R ord" and "R \<subseteq> S" and "trans S" and "irrefl S"
    and "(a, b) \<in> S" and "a < n" and "b < n"
  shows "fst (try_add a b ord)" and "rep n (insert (a, b) R) (snd (try_add a b ord))"
proof -
  have "R\<^sup>* \<subseteq> S\<^sup>=" using assms(2,3) rtrancl_mono [OF assms(2)] by (auto simp: rtrancl_eq_or_trancl)
  moreover have "(b, a) \<notin> S" "a \<noteq> b" using assms(3-5) by (auto simp: irrefl_def dest: transD)
  ultimately have "(b, a) \<notin> R\<^sup>*" by auto
  then show "fst (try_add a b ord)" "rep n (insert (a, b) R) (snd (try_add a b ord))"
    using try_add_flag try_add_accepted assms(1,6,7) by blast+
qed

end

interpretation oc: order_tracker order_inv WouldCreateCycle TryAdd
proof unfold_locales
  show "order_inv n R ord \<Longrightarrow> a < n \<Longrightarrow> b < n \<Longrightarrow> WouldCreateCycle ord a b \<longleftrightarrow> (b, a) \<in> R\<^sup>*" for n R ord a b
    using order_invD [of n R ord b] by (simp add: WouldCreateCycle_def)
  show "order_inv n R ord \<Longrightarrow> acyclic R" for n R ord by (simp add: order_inv_def)
qed (simp_all add: TryAdd_closure)

subsection \<open>Properties\<close>

text \<open>
  \<^bold>\<open>C14\<close> \<^verbatim>\<open>TryAdd\<close> refuses a constraint exactly when it would close a cycle, and then changes nothing;
  otherwise the array represents the reflexive transitive closure of the relation with the new
  constraint, which is still acyclic, and \<^verbatim>\<open>Precedes\<close> answers for its transitive closure.
\<close>

theorem TryAdd_maintains_closure:
  assumes "order_inv n R r" and "before < n" and "after < n"
  shows "case TryAdd before after r of (added, r') \<Rightarrow>
    (added \<longleftrightarrow> (after, before) \<notin> R\<^sup>*) \<and>
    (if added then order_inv n (insert (before, after) R) r' \<and> Precedes r' before after else r' = r) \<and>
    (\<forall>i<n. \<forall>j<n. Precedes r' i j \<longleftrightarrow> (i, j) \<in> (if added then insert (before, after) R else R)\<^sup>+)"
proof -
  note t = TryAdd_closure [OF assms]
  obtain added r' where r': "TryAdd before after r = (added, r')" by (cases "TryAdd before after r")
  show ?thesis
  proof (cases added)
    case True
    then have inv: "order_inv n (insert (before, after) R) r'" using t r' by simp
    then show ?thesis using True t(1) r' Precedes_iff [OF inv] assms(2) by auto
  next
    case False
    then show ?thesis using t r' Precedes_iff [OF assms(1)] by auto
  qed
qed

theorem TryAdd_maintains_closure_witness:
  "order_inv 3 {(0, 1)} (snd (TryAdd 0 1 (order_new 3)))"
  using TryAdd_maintains_closure [OF order_new_inv, of 0 3 1] by (auto split: prod.splits if_splits)

end
