(* ===== verification/Simplifier.thy ===== *)
theory Simplifier
  imports HyperPlan OrderConstraints
begin

text \<open>
  The graph simplifier of \<^verbatim>\<open>libgpopt/src/xforms/CDPHyperGraphSimplifier.cpp\<close>: it ranks pairs of
  neighboring edges, applies the most beneficial ordering constraints by widening edges, probes the
  widened graph with the enumerator, and searches the smallest number of steps that fits the budget.

  The environment record holds what the caller or the platform supplies: the budget and the three
  callbacks, the operations on \<^verbatim>\<open>DOUBLE\<close>, and the choice that \<^verbatim>\<open>std::priority_queue\<close> makes among its
  elements (\<open>env_top\<close>), which the standard leaves open between equal elements.  Entries of the queue are
  positions in \<^verbatim>\<open>m_best\<close>; the stacks are lists with the top first.
\<close>

subsection \<open>Data\<close>

record SEdgeChange =
  m_edge :: nat
  m_old_left :: nodes
  m_old_right :: nodes
  m_new_left :: nodes
  m_new_right :: nodes

record 'd SSimplificationStep =
  m_benefit :: 'd
  m_before :: nat
  m_after :: nat
  m_change :: SEdgeChange

record 'd SBestSimplification =
  m_best_neighbor :: int
  m_step :: "'d SSimplificationStep option"
  m_in_queue :: bool

record 'd simplifier_env =
  env_pair_budget :: nat
  env_pair_filter :: "PairFilter option"
  env_edge_filter :: "nat \<Rightarrow> bool"
  env_join_cost :: "nodes \<Rightarrow> nodes \<Rightarrow> 'd option"
  env_less :: "'d \<Rightarrow> 'd \<Rightarrow> bool"
  env_leq :: "'d \<Rightarrow> 'd \<Rightarrow> bool"
  env_divide :: "'d \<Rightarrow> 'd \<Rightarrow> 'd"
  env_zero :: 'd
  env_max :: 'd
  env_top :: "nat list \<Rightarrow> (nat \<Rightarrow> 'd SSimplificationStep option) \<Rightarrow> nat"

record 'd CDPHyperGraphSimplifier =
  m_graph :: CDPHyperGraph
  m_order :: order_constraints
  m_best :: "'d SBestSimplification list"
  m_queue :: "nat list"
  m_applied :: "'d SSimplificationStep list"
  m_unapplied :: "'d SSimplificationStep list"

subsection \<open>Steps\<close>

definition FSubset :: "nodes \<Rightarrow> nodes \<Rightarrow> bool" where
  "FSubset part whole \<longleftrightarrow> part \<subseteq> whole"

definition logical_edge :: "CDPHyperGraph \<Rightarrow> nat \<Rightarrow> SEdge" where
  "logical_edge g edge = m_edges g ! (edge * 2)"

definition PbsUsedNodes :: "CDPHyperGraph \<Rightarrow> nat \<Rightarrow> nodes" where
  "PbsUsedNodes g edge = m_left (logical_edge g edge) \<union> m_right (logical_edge g edge)"

definition FTryGetSuperset :: "nodes \<Rightarrow> nodes \<Rightarrow> nodes option" where
  "FTryGetSuperset left right =
     (if FSubset left right then Some right else if FSubset right left then Some left else None)"

definition ExtractJoinDependencies :: "CDPHyperGraph \<Rightarrow> order_constraints \<Rightarrow> order_constraints" where
  "ExtractJoinDependencies g order =
     fold (\<lambda>edge1. fold (\<lambda>edge2 order.
         if FSubset (PbsUsedNodes g edge1) (PbsUsedNodes g edge2) then snd (TryAdd edge1 edge2 order)
         else if FSubset (PbsUsedNodes g edge2) (PbsUsedNodes g edge1) then snd (TryAdd edge2 edge1 order)
         else order)
       [edge1 + 1..<LogicalEdgeCount g])
     [0..<LogicalEdgeCount g] order"

definition Pchange :: "CDPHyperGraph \<Rightarrow> nat \<Rightarrow> nodes \<Rightarrow> nodes \<Rightarrow> SEdgeChange" where
  "Pchange g edge new_left new_right =
     \<lparr>m_edge = edge, m_old_left = m_left (logical_edge g edge), m_old_right = m_right (logical_edge g edge),
      m_new_left = new_left, m_new_right = new_right\<rparr>"

definition ThreeLeftJoin ::
  "'d simplifier_env \<Rightarrow> CDPHyperGraph \<Rightarrow> nodes \<Rightarrow> nat \<Rightarrow> nodes \<Rightarrow> nat \<Rightarrow> nodes \<Rightarrow> 'd SSimplificationStep option" where
  "ThreeLeftJoin env g set1 edge1 set2 edge2 set3 =
     (let new_left = set1 \<union> set2
      in if set1 \<inter> set2 \<noteq> {} \<or> new_left \<inter> set3 \<noteq> {} then None
         else case env_join_cost env set1 set2 of None \<Rightarrow> None
           | Some first_cost \<Rightarrow> (case env_join_cost env new_left set3 of None \<Rightarrow> None
               | Some total_cost \<Rightarrow> Some \<lparr>m_benefit = total_cost, m_before = edge1, m_after = edge2,
                   m_change = Pchange g edge2 new_left set3\<rparr>))"

definition ThreeRightJoin ::
  "'d simplifier_env \<Rightarrow> CDPHyperGraph \<Rightarrow> nodes \<Rightarrow> nat \<Rightarrow> nodes \<Rightarrow> nat \<Rightarrow> nodes \<Rightarrow> 'd SSimplificationStep option" where
  "ThreeRightJoin env g set1 edge1 set2 edge2 set3 =
     (let new_right = set2 \<union> set3
      in if set2 \<inter> set3 \<noteq> {} \<or> set1 \<inter> new_right \<noteq> {} then None
         else case env_join_cost env set2 set3 of None \<Rightarrow> None
           | Some first_cost \<Rightarrow> (case env_join_cost env set1 new_right of None \<Rightarrow> None
               | Some total_cost \<Rightarrow> Some \<lparr>m_benefit = total_cost, m_before = edge2, m_after = edge1,
                   m_change = Pchange g edge1 set1 new_right\<rparr>))"

definition OrderJoin ::
  "'d simplifier_env \<Rightarrow> 'd SSimplificationStep \<Rightarrow> 'd SSimplificationStep \<Rightarrow> 'd SSimplificationStep" where
  "OrderJoin env edge1_before2 edge2_before1 =
     (let cost1 = m_benefit edge1_before2; cost2 = m_benefit edge2_before1;
          selected = (if env_less env cost1 cost2 then edge1_before2 else edge2_before1);
          lower = (if env_less env cost2 cost1 then cost2 else cost1);
          higher = (if env_less env cost1 cost2 then cost2 else cost1)
      in selected\<lparr>m_benefit := (if env_less env (env_zero env) lower
                                then env_divide env higher lower else env_max env)\<rparr>)"

definition candidate_steps ::
  "'d simplifier_env \<Rightarrow> CDPHyperGraph \<Rightarrow> nat \<Rightarrow> nat \<Rightarrow> 'd SSimplificationStep option \<times> 'd SSimplificationStep option" where
  "candidate_steps env g edge1 edge2 =
     (let left1 = m_left (logical_edge g edge1); right1 = m_right (logical_edge g edge1);
          left2 = m_left (logical_edge g edge2); right2 = m_right (logical_edge g edge2)
      in if FTryGetSuperset left1 left2 \<noteq> None \<and> right1 \<inter> right2 = {} then
           (let common = the (FTryGetSuperset left1 left2)
            in (ThreeLeftJoin env g common edge1 right1 edge2 right2,
                ThreeLeftJoin env g common edge2 right2 edge1 right1))
         else if FTryGetSuperset left1 right2 \<noteq> None \<and> left2 \<inter> right1 = {} then
           (let common = the (FTryGetSuperset left1 right2)
            in (ThreeRightJoin env g left2 edge2 common edge1 right1,
                ThreeLeftJoin env g left2 edge2 common edge1 right1))
         else if FTryGetSuperset right1 left2 \<noteq> None \<and> left1 \<inter> right2 = {} then
           (let common = the (FTryGetSuperset right1 left2)
            in (ThreeLeftJoin env g left1 edge1 common edge2 right2,
                ThreeRightJoin env g left1 edge1 common edge2 right2))
         else if FTryGetSuperset right1 right2 \<noteq> None \<and> left1 \<inter> left2 = {} then
           (let common = the (FTryGetSuperset right1 right2)
            in (ThreeRightJoin env g left2 edge2 left1 edge1 common,
                ThreeRightJoin env g left1 edge1 left2 edge2 common))
         else (None, None))"

definition MakeStep ::
  "'d simplifier_env \<Rightarrow> 'd CDPHyperGraphSimplifier \<Rightarrow> nat \<Rightarrow> nat \<Rightarrow> 'd SSimplificationStep option" where
  "MakeStep env s edge1 edge2 =
     (let g = m_graph s; used1 = PbsUsedNodes g edge1; used2 = PbsUsedNodes g edge2
      in if FSubset used1 used2 \<or> FSubset used2 used1 \<or>
            WouldCreateCycle (m_order s) edge1 edge2 \<or> WouldCreateCycle (m_order s) edge2 edge1 \<or>
            \<not> env_edge_filter env (m_edge_id (logical_edge g edge1)) \<or>
            \<not> env_edge_filter env (m_edge_id (logical_edge g edge2))
         then None
         else case candidate_steps env g edge1 edge2 of
                (Some first, Some second) \<Rightarrow> Some (OrderJoin env first second)
              | _ \<Rightarrow> None)"

subsection \<open>Ranking\<close>

definition update_best ::
  "nat \<Rightarrow> ('d SBestSimplification \<Rightarrow> 'd SBestSimplification) \<Rightarrow> 'd CDPHyperGraphSimplifier \<Rightarrow> 'd CDPHyperGraphSimplifier" where
  "update_best i f s = s\<lparr>m_best := (m_best s)[i := f (m_best s ! i)]\<rparr>"

definition UpdateQueue :: "nat \<Rightarrow> 'd CDPHyperGraphSimplifier \<Rightarrow> 'd CDPHyperGraphSimplifier" where
  "UpdateQueue best s =
     (if \<not> m_in_queue (m_best s ! best) then
        (if m_best_neighbor (m_best s ! best) \<noteq> -1
         then update_best best (\<lambda>b. b\<lparr>m_in_queue := True\<rparr>) (s\<lparr>m_queue := m_queue s @ [best]\<rparr>)
         else s)
      else
        let rebuilt = filter (\<lambda>candidate. candidate \<noteq> best) (m_queue s)
        in if m_best_neighbor (m_best s ! best) = -1
           then update_best best (\<lambda>b. b\<lparr>m_in_queue := False\<rparr>) (s\<lparr>m_queue := rebuilt\<rparr>)
           else s\<lparr>m_queue := rebuilt @ [best]\<rparr>)"

definition TrySetStep ::
  "'d simplifier_env \<Rightarrow> 'd SSimplificationStep \<Rightarrow> nat \<Rightarrow> nat \<Rightarrow> 'd CDPHyperGraphSimplifier \<Rightarrow>
     bool \<times> 'd CDPHyperGraphSimplifier" where
  "TrySetStep env step best neighbor s =
     (if m_best_neighbor (m_best s ! best) = -1 \<or> \<not> m_in_queue (m_best s ! best) \<or>
         env_leq env (m_benefit (the (m_step (m_best s ! best)))) (m_benefit step)
      then (True, UpdateQueue best
                    (update_best best (\<lambda>b. b\<lparr>m_best_neighbor := int neighbor, m_step := Some step\<rparr>) s))
      else (False, s))"

definition scan_later ::
  "'d simplifier_env \<Rightarrow> nat \<Rightarrow> nat \<Rightarrow> nat \<Rightarrow> 'd CDPHyperGraphSimplifier \<Rightarrow> 'd CDPHyperGraphSimplifier" where
  "scan_later env edge1 begn fin s =
     UpdateQueue edge1
       (fold (\<lambda>edge2 s. case MakeStep env s edge1 edge2 of None \<Rightarrow> s
                | Some step \<Rightarrow> snd (TrySetStep env step edge1 edge2 s))
         [max begn (edge1 + 1)..<fin]
         (update_best edge1 (\<lambda>b. b\<lparr>m_best_neighbor := -1\<rparr>) s))"

text \<open>The recursive call is on a smaller edge, which gives termination.\<close>

function ProcessNeighbors ::
  "'d simplifier_env \<Rightarrow> nat \<Rightarrow> nat \<Rightarrow> nat \<Rightarrow> 'd CDPHyperGraphSimplifier \<Rightarrow> 'd CDPHyperGraphSimplifier" where
  "ProcessNeighbors env edge1 begn fin s =
     scan_later env edge1 begn fin
       (fold (\<lambda>edge2 s.
           case MakeStep env s edge1 edge2 of
             Some step \<Rightarrow>
               (case TrySetStep env step edge2 edge1 s of
                  (True, s') \<Rightarrow> s'
                | (False, s') \<Rightarrow>
                    if m_best_neighbor (m_best s' ! edge2) = int edge1
                    then ProcessNeighbors env edge2 (edge2 + 1) (LogicalEdgeCount (m_graph s')) s' else s')
           | None \<Rightarrow>
               if m_best_neighbor (m_best s ! edge2) = int edge1
               then ProcessNeighbors env edge2 (edge2 + 1) (LogicalEdgeCount (m_graph s)) s else s)
         [begn..<min fin edge1] s)"
  by pat_completeness auto
termination
  by (relation "measure (\<lambda>(env, edge1, begn, fin, s). edge1)") auto

declare ProcessNeighbors.simps [simp del]

definition InitFirstStep :: "'d simplifier_env \<Rightarrow> 'd CDPHyperGraphSimplifier \<Rightarrow> 'd CDPHyperGraphSimplifier" where
  "InitFirstStep env s =
     (let n = LogicalEdgeCount (m_graph s);
          s1 = s\<lparr>m_order := ExtractJoinDependencies (m_graph s) (m_order s)\<rparr>
      in fold (\<lambda>edge. ProcessNeighbors env edge (edge + 1) n) [0..<n] s1)"

definition simplifier_new :: "'d simplifier_env \<Rightarrow> CDPHyperGraph \<Rightarrow> 'd CDPHyperGraphSimplifier" where
  "simplifier_new env g =
     InitFirstStep env
       \<lparr>m_graph = g, m_order = order_new (LogicalEdgeCount g),
        m_best = replicate (LogicalEdgeCount g) \<lparr>m_best_neighbor = -1, m_step = None, m_in_queue = False\<rparr>,
        m_queue = [], m_applied = [], m_unapplied = []\<rparr>"

subsection \<open>Applying and undoing steps\<close>

text \<open>
  The loop over the queue in \<^verbatim>\<open>FetchStep\<close>.  The fuel bounds the number of entries that turn out to be
  obsolete; one more than the number of edges is enough.
\<close>

fun fetch_loop ::
  "nat \<Rightarrow> 'd simplifier_env \<Rightarrow> 'd CDPHyperGraphSimplifier \<Rightarrow>
     ('d SSimplificationStep option \<times> 'd CDPHyperGraphSimplifier) option" where
  "fetch_loop 0 env s = None"
| "fetch_loop (Suc fuel) env s =
     (if m_queue s = [] then Some (None, s)
      else
        let best = env_top env (m_queue s) (\<lambda>i. m_step (m_best s ! i));
            s1 = update_best best (\<lambda>b. b\<lparr>m_in_queue := False\<rparr>) (s\<lparr>m_queue := remove1 best (m_queue s)\<rparr>)
        in if m_best_neighbor (m_best s1 ! best) = -1 \<or> m_step (m_best s1 ! best) = None
           then fetch_loop fuel env s1
           else
             let step = the (m_step (m_best s1 ! best));
                 (added, order) = TryAdd (m_before step) (m_after step) (m_order s1);
                 s2 = s1\<lparr>m_order := order\<rparr>
             in if added then Some (Some step, s2)
                else fetch_loop fuel env
                       (ProcessNeighbors env (m_after step) 0 (LogicalEdgeCount (m_graph s2)) s2))"

definition FetchStep ::
  "'d simplifier_env \<Rightarrow> 'd CDPHyperGraphSimplifier \<Rightarrow>
     ('d SSimplificationStep option \<times> 'd CDPHyperGraphSimplifier) option" where
  "FetchStep env s =
     (case m_unapplied s of
        step # steps \<Rightarrow> Some (Some step, s\<lparr>m_unapplied := steps\<rparr>)
      | [] \<Rightarrow> fetch_loop (Suc (length (m_best s))) env s)"

definition ModifyEdge ::
  "'d SSimplificationStep \<Rightarrow> bool \<Rightarrow> 'd CDPHyperGraphSimplifier \<Rightarrow> 'd CDPHyperGraphSimplifier" where
  "ModifyEdge step apply_it s =
     (let change = m_change step
      in s\<lparr>m_graph := ReplaceEdge (m_edge change)
            (if apply_it then m_new_left change else m_old_left change)
            (if apply_it then m_new_right change else m_old_right change) (m_graph s)\<rparr>)"

definition ApplyStep ::
  "'d simplifier_env \<Rightarrow> 'd CDPHyperGraphSimplifier \<Rightarrow> (bool \<times> 'd CDPHyperGraphSimplifier) option" where
  "ApplyStep env s =
     (let fresh = (m_unapplied s = [])
      in case FetchStep env s of
           None \<Rightarrow> None
         | Some (None, s1) \<Rightarrow> Some (False, s1)
         | Some (Some step, s1) \<Rightarrow>
             let s2 = ModifyEdge step True s1;
                 s3 = s2\<lparr>m_applied := step # m_applied s2\<rparr>
             in Some (True, if fresh then ProcessNeighbors env (m_after step) 0 (LogicalEdgeCount (m_graph s3)) s3
                            else s3))"

definition UnapplyStep :: "'d CDPHyperGraphSimplifier \<Rightarrow> bool \<times> 'd CDPHyperGraphSimplifier" where
  "UnapplyStep s =
     (case m_applied s of
        [] \<Rightarrow> (False, s)
      | step # steps \<Rightarrow>
          (True, (ModifyEdge step False (s\<lparr>m_applied := steps\<rparr>))\<lparr>m_unapplied := step # m_unapplied s\<rparr>))"

fun apply_up ::
  "nat \<Rightarrow> 'd simplifier_env \<Rightarrow> nat \<Rightarrow> 'd CDPHyperGraphSimplifier \<Rightarrow> (bool \<times> 'd CDPHyperGraphSimplifier) option" where
  "apply_up 0 env count s = (if length (m_applied s) < count then None else Some (True, s))"
| "apply_up (Suc fuel) env count s =
     (if length (m_applied s) < count then
        (case ApplyStep env s of None \<Rightarrow> None
         | Some (False, s') \<Rightarrow> Some (False, s')
         | Some (True, s') \<Rightarrow> apply_up fuel env count s')
      else Some (True, s))"

fun unapply_down :: "nat \<Rightarrow> nat \<Rightarrow> 'd CDPHyperGraphSimplifier \<Rightarrow> 'd CDPHyperGraphSimplifier" where
  "unapply_down 0 count s = s"
| "unapply_down (Suc fuel) count s =
     (if count < length (m_applied s) then unapply_down fuel count (snd (UnapplyStep s)) else s)"

definition ApplySteps ::
  "'d simplifier_env \<Rightarrow> nat \<Rightarrow> 'd CDPHyperGraphSimplifier \<Rightarrow> (bool \<times> 'd CDPHyperGraphSimplifier) option" where
  "ApplySteps env count s =
     (case apply_up (count - length (m_applied s)) env count s of
        None \<Rightarrow> None
      | Some (False, s') \<Rightarrow> Some (False, s')
      | Some (True, s') \<Rightarrow> Some (True, unapply_down (length (m_applied s') - count) count s'))"

subsection \<open>Search\<close>

definition EnumerationExceedsBudget :: "'d simplifier_env \<Rightarrow> CDPHyperGraph \<Rightarrow> bool option" where
  "EnumerationExceedsBudget env g =
     (case Enumerate g plan_receiver (plan_new (env_pair_budget env) (env_pair_filter env)) of
        None \<Rightarrow> None
      | Some (aborted, probe) \<Rightarrow> Some (aborted \<or> \<not> Complete (NodeCount g) probe))"

datatype 'd growth = GiveUp "'d CDPHyperGraphSimplifier" | Proceed nat "'d CDPHyperGraphSimplifier"

fun simplify_grow ::
  "nat \<Rightarrow> 'd simplifier_env \<Rightarrow> nat \<Rightarrow> nat \<Rightarrow> 'd CDPHyperGraphSimplifier \<Rightarrow> 'd growth option" where
  "simplify_grow 0 env upper applied s = None"
| "simplify_grow (Suc fuel) env upper applied s =
     (if applied < upper then
        (case ApplyStep env s of
           None \<Rightarrow> None
         | Some (False, s') \<Rightarrow>
             (case EnumerationExceedsBudget env (m_graph s') of
                None \<Rightarrow> None
              | Some True \<Rightarrow> map_option (\<lambda>(_, s''). GiveUp s'') (ApplySteps env 0 s')
              | Some False \<Rightarrow> Some (Proceed applied s'))
         | Some (True, s') \<Rightarrow> simplify_grow fuel env upper (applied + 1) s')
      else
        (case EnumerationExceedsBudget env (m_graph s) of
           None \<Rightarrow> None
         | Some False \<Rightarrow> Some (Proceed applied s)
         | Some True \<Rightarrow> simplify_grow fuel env (upper * 2) applied s))"

function simplify_search ::
  "'d simplifier_env \<Rightarrow> nat \<Rightarrow> nat \<Rightarrow> 'd CDPHyperGraphSimplifier \<Rightarrow> (nat \<times> 'd CDPHyperGraphSimplifier) option" where
  "simplify_search env lower upper s =
     (if lower < upper then
        (let middle = lower + (upper - lower) div 2
         in case ApplySteps env middle s of
              None \<Rightarrow> None
            | Some (False, s') \<Rightarrow> simplify_search env (middle + 1) upper s'
            | Some (True, s') \<Rightarrow>
                (case EnumerationExceedsBudget env (m_graph s') of
                   None \<Rightarrow> None
                 | Some False \<Rightarrow> simplify_search env lower middle s'
                 | Some True \<Rightarrow> simplify_search env (middle + 1) upper s'))
      else Some (upper, s))"
  by pat_completeness auto
termination
  by (relation "measure (\<lambda>(env, lower, upper, s). upper - lower)") auto

declare simplify_search.simps [simp del]

text \<open>Every step orders two edges, so the fuel of the growth phase covers all pairs of edges and the probes between.\<close>

definition Simplify ::
  "'d simplifier_env \<Rightarrow> 'd CDPHyperGraphSimplifier \<Rightarrow> (bool \<times> 'd CDPHyperGraphSimplifier) option" where
  "Simplify env s =
     (case simplify_grow (2 * (length (m_best s) * length (m_best s)) + 2) env 1 0 s of
        None \<Rightarrow> None
      | Some (GiveUp s') \<Rightarrow> Some (False, s')
      | Some (Proceed applied s') \<Rightarrow>
          (case simplify_search env 0 (applied + 1) s' of
             None \<Rightarrow> None
           | Some (upper, s2) \<Rightarrow>
               (case ApplySteps env upper s2 of
                  None \<Rightarrow> None
                | Some (False, s3) \<Rightarrow> map_option (\<lambda>(_, s4). (False, s4)) (ApplySteps env 0 s3)
                | Some (True, s3) \<Rightarrow> Some (0 < length (m_applied s3), s3))))"

definition Restore :: "'d simplifier_env \<Rightarrow> 'd CDPHyperGraphSimplifier \<Rightarrow> 'd CDPHyperGraphSimplifier option" where
  "Restore env s = map_option snd (ApplySteps env 0 s)"

end
