(* ===== verification/SimplifierCorrect.thy ===== *)
theory SimplifierCorrect
  imports Simplifier
begin

text \<open>
  Correctness of the graph simplifier.  Every step widens one edge and records the sides it replaces, so
  the applied and undone steps form a chain of edge arrays that starts at the original graph.  The queue
  holds, for some edges, a step that fits the fully simplified graph.  The number of edge pairs that are
  unordered or queued bounds the number of steps.
\<close>

subsection \<open>Steps that fit an edge array\<close>

definition step_at :: "nat \<Rightarrow> SEdge list \<Rightarrow> 'd SSimplificationStep \<Rightarrow> bool" where
  "step_at N E step \<longleftrightarrow> (let c = m_change step; k = m_edge c in
     k < length E div 2 \<and> k = m_after step \<and>
     m_old_left c = m_left (E ! (2 * k)) \<and> m_old_right c = m_right (E ! (2 * k)) \<and>
     m_old_left c \<subseteq> m_new_left c \<and> m_old_right c \<subseteq> m_new_right c \<and> sides_ok N (m_new_left c) (m_new_right c))"

definition unordered :: "(nat \<times> nat) set \<Rightarrow> nat \<Rightarrow> nat \<Rightarrow> bool" where
  "unordered R i j \<longleftrightarrow> (i, j) \<notin> R\<^sup>* \<and> (j, i) \<notin> R\<^sup>*"

lemma unordered_sym: "unordered R i j \<longleftrightarrow> unordered R j i"
  by (auto simp: unordered_def)

definition orders :: "nat \<Rightarrow> nat \<Rightarrow> 'd SSimplificationStep \<Rightarrow> bool" where
  "orders e1 e2 step \<longleftrightarrow> (m_before step = e1 \<and> m_after step = e2) \<or> (m_before step = e2 \<and> m_after step = e1)"

lemma orders_sym: "orders e1 e2 step = orders e2 e1 step"
  by (auto simp: orders_def)

lemma ThreeLeftJoin_step:
  assumes "ThreeLeftJoin env g set1 e1 set2 e2 set3 = Some step"
    and "e2 < LogicalEdgeCount g" "m_left (logical_edge g e2) \<subseteq> set1 \<union> set2" "m_right (logical_edge g e2) = set3"
    and "set1 \<union> set2 \<subseteq> {..<N}" "set3 \<subseteq> {..<N}" "set1 \<noteq> {}" "set3 \<noteq> {}"
  shows "orders e1 e2 step \<and> step_at N (m_edges g) step"
  using assms by (auto simp: orders_def ThreeLeftJoin_def Let_def step_at_def Pchange_def logical_edge_def LogicalEdgeCount_def
      sides_ok_def mult.commute split: if_splits option.splits)

lemma ThreeRightJoin_step:
  assumes "ThreeRightJoin env g set1 e1 set2 e2 set3 = Some step"
    and "e1 < LogicalEdgeCount g" "m_left (logical_edge g e1) = set1" "m_right (logical_edge g e1) \<subseteq> set2 \<union> set3"
    and "set2 \<union> set3 \<subseteq> {..<N}" "set1 \<subseteq> {..<N}" "set1 \<noteq> {}" "set3 \<noteq> {}"
  shows "orders e1 e2 step \<and> step_at N (m_edges g) step"
  using assms by (auto simp: orders_def ThreeRightJoin_def Let_def step_at_def Pchange_def logical_edge_def LogicalEdgeCount_def
      sides_ok_def mult.commute split: if_splits option.splits)

lemma FTryGetSuperset_Some:
  assumes "FTryGetSuperset A B \<noteq> None"
  shows "A \<subseteq> the (FTryGetSuperset A B)" "B \<subseteq> the (FTryGetSuperset A B)" "the (FTryGetSuperset A B) \<subseteq> A \<union> B"
  using assms by (auto simp: FTryGetSuperset_def FSubset_def split: if_splits)

lemma step_at_benefit [simp]:
  "step_at N E (step\<lparr>m_benefit := b\<rparr>) = step_at N E step"
  by (simp add: step_at_def)

lemma logical_edge_sides:
  assumes "graph_inv g" "e < LogicalEdgeCount g"
  shows "m_left (logical_edge g e) \<noteq> {}" "m_right (logical_edge g e) \<noteq> {}"
    "m_left (logical_edge g e) \<subseteq> {..<NodeCount g}" "m_right (logical_edge g e) \<subseteq> {..<NodeCount g}"
proof -
  have "sides_ok (NodeCount g) (m_left (logical_edge g e)) (m_right (logical_edge g e))"
    using assms unfolding logical_edge_def
    by (intro edges_ok_sides) (auto simp: graph_inv_def LogicalEdgeCount_def)
  then show "m_left (logical_edge g e) \<noteq> {}" "m_right (logical_edge g e) \<noteq> {}"
    "m_left (logical_edge g e) \<subseteq> {..<NodeCount g}" "m_right (logical_edge g e) \<subseteq> {..<NodeCount g}"
    by (simp_all add: sides_ok_def)
qed

lemma candidate_steps_at:
  assumes "graph_inv g" "e1 < LogicalEdgeCount g" "e2 < LogicalEdgeCount g"
    and "candidate_steps env g e1 e2 = (Some first, Some second)" and "step \<in> {first, second}"
  shows "orders e1 e2 step \<and> step_at (NodeCount g) (m_edges g) step"
proof -
  note s1 = logical_edge_sides[OF assms(1,2)] and s2 = logical_edge_sides[OF assms(1,3)]
  let ?l1 = "m_left (logical_edge g e1)" and ?r1 = "m_right (logical_edge g e1)"
    and ?l2 = "m_left (logical_edge g e2)" and ?r2 = "m_right (logical_edge g e2)"
  have common: "A \<subseteq> C" "B \<subseteq> C" "C \<subseteq> {..<NodeCount g}" "C \<noteq> {}"
    if "FTryGetSuperset A B \<noteq> None" "C = the (FTryGetSuperset A B)" "A \<noteq> {}" "A \<subseteq> {..<NodeCount g}" "B \<subseteq> {..<NodeCount g}" for A B C
    using FTryGetSuperset_Some[OF that(1)] that by auto
  note lj = ThreeLeftJoin_step[where N = "NodeCount g" and g = g] and rj = ThreeRightJoin_step[where N = "NodeCount g" and g = g]
  show ?thesis
  proof (cases "FTryGetSuperset ?l1 ?l2 \<noteq> None \<and> ?r1 \<inter> ?r2 = {}")
    case c1: True
    note c = common[OF conjunct1[OF c1] refl s1(1,3) s2(3)]
    have "ThreeLeftJoin env g (the (FTryGetSuperset ?l1 ?l2)) e1 ?r1 e2 ?r2 = Some first"
      "ThreeLeftJoin env g (the (FTryGetSuperset ?l1 ?l2)) e2 ?r2 e1 ?r1 = Some second"
      using assms(4) unfolding candidate_steps_def Let_def if_P[OF c1] by simp_all
    from lj[OF this(1) assms(3)] lj[OF this(2) assms(2)] show ?thesis
      using c s1 s2 assms(5) orders_sym[of e1 e2] by blast
  next
    case c1: False
    show ?thesis
    proof (cases "FTryGetSuperset ?l1 ?r2 \<noteq> None \<and> ?l2 \<inter> ?r1 = {}")
      case c2: True
      note c = common[OF conjunct1[OF c2] refl s1(1,3) s2(4)]
      have "ThreeRightJoin env g ?l2 e2 (the (FTryGetSuperset ?l1 ?r2)) e1 ?r1 = Some first"
        "ThreeLeftJoin env g ?l2 e2 (the (FTryGetSuperset ?l1 ?r2)) e1 ?r1 = Some second"
        using assms(4) unfolding candidate_steps_def Let_def if_not_P[OF c1] if_P[OF c2] by simp_all
      from rj[OF this(1) assms(3)] lj[OF this(2) assms(2)] show ?thesis
        using c s1 s2 assms(5) orders_sym[of e1 e2] by blast
    next
      case c2: False
      show ?thesis
      proof (cases "FTryGetSuperset ?r1 ?l2 \<noteq> None \<and> ?l1 \<inter> ?r2 = {}")
        case c3: True
        note c = common[OF conjunct1[OF c3] refl s1(2,4) s2(3)]
        have "ThreeLeftJoin env g ?l1 e1 (the (FTryGetSuperset ?r1 ?l2)) e2 ?r2 = Some first"
          "ThreeRightJoin env g ?l1 e1 (the (FTryGetSuperset ?r1 ?l2)) e2 ?r2 = Some second"
          using assms(4) unfolding candidate_steps_def Let_def if_not_P[OF c1] if_not_P[OF c2] if_P[OF c3] by simp_all
        from lj[OF this(1) assms(3)] rj[OF this(2) assms(2)] show ?thesis
          using c s1 s2 assms(5) by blast
      next
        case c3: False
        have c4: "FTryGetSuperset ?r1 ?r2 \<noteq> None \<and> ?l1 \<inter> ?l2 = {}"
          using c1 c2 c3 assms(4) by (auto simp: candidate_steps_def Let_def split: if_splits)
        note c = common[OF conjunct1[OF c4] refl s1(2,4) s2(4)]
        have "ThreeRightJoin env g ?l2 e2 ?l1 e1 (the (FTryGetSuperset ?r1 ?r2)) = Some first"
          "ThreeRightJoin env g ?l1 e1 ?l2 e2 (the (FTryGetSuperset ?r1 ?r2)) = Some second"
          using assms(4) unfolding candidate_steps_def Let_def if_not_P[OF c1] if_not_P[OF c2] if_not_P[OF c3] if_P[OF c4] by simp_all
        from rj[OF this(1) assms(3)] rj[OF this(2) assms(2)] show ?thesis
          using c s1 s2 assms(5) orders_sym[of e1 e2] by blast
      qed
    qed
  qed
qed

lemma MakeStep_spec:
  assumes "MakeStep env s e1 e2 = Some step" "graph_inv (m_graph s)" "order_inv n R (m_order s)"
    and "n = LogicalEdgeCount (m_graph s)" "e1 < n" "e2 < n"
  shows "orders e1 e2 step" "step_at (NodeCount (m_graph s)) (m_edges (m_graph s)) step" "unordered R e1 e2"
proof -
  obtain first second where c: "candidate_steps env (m_graph s) e1 e2 = (Some first, Some second)"
    and step: "step = OrderJoin env first second"
    and free: "\<not> WouldCreateCycle (m_order s) e1 e2" "\<not> WouldCreateCycle (m_order s) e2 e1"
    using assms(1) by (auto simp: MakeStep_def Let_def split: if_splits prod.splits option.splits)
  have "\<exists>chosen \<in> {first, second}. \<exists>b. step = chosen\<lparr>m_benefit := b\<rparr>"
    unfolding step OrderJoin_def Let_def by auto
  then obtain chosen b where "chosen \<in> {first, second}" "step = chosen\<lparr>m_benefit := b\<rparr>"
    by blast
  then show "orders e1 e2 step" "step_at (NodeCount (m_graph s)) (m_edges (m_graph s)) step"
    using candidate_steps_at[OF assms(2) _ _ c, of chosen] assms(4-6) by (simp_all add: orders_def)
  show "unordered R e1 e2"
    using free oc.would_cycle_iff[OF assms(3)] assms(5,6) by (auto simp: unordered_def)
qed

subsection \<open>The queue\<close>

text \<open>
  The queue holds each edge at most once, the flags agree with it, and a condition \<open>Ok\<close> on neighbor and
  step holds of the queued entries.
\<close>

definition q_inv :: "nat \<Rightarrow> (nat \<Rightarrow> int \<Rightarrow> 'd SSimplificationStep option \<Rightarrow> bool) \<Rightarrow> 'd CDPHyperGraphSimplifier \<Rightarrow> bool" where
  "q_inv n Ok s \<longleftrightarrow> length (m_best s) = n \<and> distinct (m_queue s) \<and>
     set (m_queue s) = {i. i < n \<and> m_in_queue (m_best s ! i)} \<and>
     (\<forall>i \<in> set (m_queue s). Ok i (m_best_neighbor (m_best s ! i)) (m_step (m_best s ! i)))"

definition frame :: "'d CDPHyperGraphSimplifier \<Rightarrow>
    CDPHyperGraph \<times> order_constraints \<times> 'd SSimplificationStep list \<times> 'd SSimplificationStep list" where
  "frame s = (m_graph s, m_order s, m_applied s, m_unapplied s)"

lemma q_inv_mono:
  assumes "q_inv n Ok s" "\<And>i nb st. i \<in> set (m_queue s) \<Longrightarrow> Ok i nb st \<Longrightarrow> Ok' i nb st"
  shows "q_inv n Ok' s"
  using assms by (simp add: q_inv_def)

lemma update_best_simps [simp]:
  "m_graph (update_best i f s) = m_graph s" "m_order (update_best i f s) = m_order s"
  "m_queue (update_best i f s) = m_queue s" "m_applied (update_best i f s) = m_applied s"
  "m_unapplied (update_best i f s) = m_unapplied s" "length (m_best (update_best i f s)) = length (m_best s)"
  "frame (update_best i f s) = frame s"
  "j < length (m_best s) \<Longrightarrow> m_best (update_best i f s) ! j = (if j = i then f (m_best s ! j) else m_best s ! j)"
  by (auto simp: update_best_def frame_def nth_list_update)

lemma MakeStep_frame: "frame s = frame s' \<Longrightarrow> MakeStep env s = MakeStep env s'"
  by (rule ext)+ (simp add: MakeStep_def frame_def)

lemma UpdateQueue_spec:
  assumes "q_inv n (\<lambda>i nb st. i = best \<or> Ok i nb st) s" "best < n"
    and "m_best_neighbor (m_best s ! best) \<noteq> -1 \<Longrightarrow> Ok best (m_best_neighbor (m_best s ! best)) (m_step (m_best s ! best))"
  shows "q_inv n Ok (UpdateQueue best s)" "frame (UpdateQueue best s) = frame s"
proof -
  have len: "length (m_best s) = n" and dist: "distinct (m_queue s)"
    and set: "set (m_queue s) = {i. i < n \<and> m_in_queue (m_best s ! i)}"
    and ok: "\<And>i. i \<in> set (m_queue s) \<Longrightarrow> i \<noteq> best \<Longrightarrow> Ok i (m_best_neighbor (m_best s ! i)) (m_step (m_best s ! i))"
    using assms(1) by (auto simp: q_inv_def)
  show "q_inv n Ok (UpdateQueue best s)"
    using len dist set ok assms(2,3) by (auto simp: q_inv_def UpdateQueue_def Let_def split: if_splits)
  show "frame (UpdateQueue best s) = frame s"
    by (simp add: UpdateQueue_def Let_def frame_def)
qed

lemma UpdateQueue_entry:
  assumes "i < length (m_best s)"
  shows "m_best_neighbor (m_best (UpdateQueue best s) ! i) = m_best_neighbor (m_best s ! i)"
    "m_step (m_best (UpdateQueue best s) ! i) = m_step (m_best s ! i)"
  using assms by (auto simp: UpdateQueue_def Let_def)

lemma q_inv_update_best:
  assumes "q_inv n Ok s" "\<And>b. m_in_queue (f b) = m_in_queue b"
    and "\<And>i nb st. i \<noteq> best \<Longrightarrow> Ok i nb st \<Longrightarrow> Ok' i nb st"
    and "Ok' best (m_best_neighbor (f (m_best s ! best))) (m_step (f (m_best s ! best)))"
  shows "q_inv n Ok' (update_best best f s)"
  using assms by (auto simp: q_inv_def split: if_splits)

lemma set_step_spec:
  assumes "q_inv n (\<lambda>i nb st. i = best \<or> Ok i nb st) s" "best < n" "Ok best (int neighbor) (Some step)"
    and "s' = UpdateQueue best (update_best best (\<lambda>b. b\<lparr>m_best_neighbor := int neighbor, m_step := Some step\<rparr>) s)"
  shows "q_inv n Ok s'" "frame s' = frame s"
proof -
  let ?s = "update_best best (\<lambda>b. b\<lparr>m_best_neighbor := int neighbor, m_step := Some step\<rparr>) s"
  have "q_inv n (\<lambda>i nb st. i = best \<or> Ok i nb st) ?s"
    by (rule q_inv_update_best[OF assms(1)]) simp_all
  moreover have "best < length (m_best s)"
    using assms(1,2) by (simp add: q_inv_def)
  ultimately show "q_inv n Ok s'" "frame s' = frame s"
    using UpdateQueue_spec[of n best Ok ?s] assms(2-4) by simp_all
qed

lemma TrySetStep_spec:
  assumes "q_inv n Ok s" "best < n" "Ok best (int neighbor) (Some step)"
  shows "q_inv n Ok (snd (TrySetStep env step best neighbor s))" "frame (snd (TrySetStep env step best neighbor s)) = frame s"
    and "\<not> fst (TrySetStep env step best neighbor s) \<Longrightarrow> snd (TrySetStep env step best neighbor s) = s"
    and "Ok best (m_best_neighbor (m_best s ! best)) (m_step (m_best s ! best)) \<Longrightarrow>
      Ok best (m_best_neighbor (m_best (snd (TrySetStep env step best neighbor s)) ! best))
        (m_step (m_best (snd (TrySetStep env step best neighbor s)) ! best))"
proof -
  let ?s = "update_best best (\<lambda>b. b\<lparr>m_best_neighbor := int neighbor, m_step := Some step\<rparr>) s"
  have len: "best < length (m_best s)"
    using assms(1,2) by (simp add: q_inv_def)
  have "q_inv n (\<lambda>i nb st. i = best \<or> Ok i nb st) s"
    by (rule q_inv_mono[OF assms(1)]) simp
  then have "q_inv n Ok (UpdateQueue best ?s)" "frame (UpdateQueue best ?s) = frame s"
    using set_step_spec[of n best Ok s neighbor step, OF _ assms(2,3) refl] by blast+
  then show "q_inv n Ok (snd (TrySetStep env step best neighbor s))" "frame (snd (TrySetStep env step best neighbor s)) = frame s"
    using assms(1) by (simp_all add: TrySetStep_def)
  show "\<not> fst (TrySetStep env step best neighbor s) \<Longrightarrow> snd (TrySetStep env step best neighbor s) = s"
    by (simp add: TrySetStep_def split: if_splits)
  show "Ok best (m_best_neighbor (m_best s ! best)) (m_step (m_best s ! best)) \<Longrightarrow>
      Ok best (m_best_neighbor (m_best (snd (TrySetStep env step best neighbor s)) ! best))
        (m_step (m_best (snd (TrySetStep env step best neighbor s)) ! best))"
    using len assms(3) by (simp add: TrySetStep_def UpdateQueue_entry)
qed

text \<open>Rescanning the later neighbors of an edge replaces its entry; the other entries stay.\<close>

lemma scan_later_spec:
  assumes "q_inv n (\<lambda>i nb st. i = e \<or> Ok i nb st) s" "e < n" "fin \<le> n"
    and "\<And>j step. e < j \<Longrightarrow> j < n \<Longrightarrow> MakeStep env s e j = Some step \<Longrightarrow> Ok e (int j) (Some step)"
  shows "q_inv n Ok (scan_later env e begn fin s)" "frame (scan_later env e begn fin s) = frame s"
proof -
  let ?OkE = "\<lambda>i nb st. (i = e \<and> nb = -1) \<or> Ok i nb st"
  let ?body = "\<lambda>j s. case MakeStep env s e j of None \<Rightarrow> s | Some step \<Rightarrow> snd (TrySetStep env step e j s)"
  let ?s0 = "update_best e (\<lambda>b. b\<lparr>m_best_neighbor := -1\<rparr>) s"
  let ?entry = "\<lambda>t. ?OkE e (m_best_neighbor (m_best t ! e)) (m_step (m_best t ! e))"
  have loop: "q_inv n ?OkE (fold ?body js t) \<and> frame (fold ?body js t) = frame s \<and> ?entry (fold ?body js t)"
    if "set js \<subseteq> {e<..<n}" "q_inv n ?OkE t" "frame t = frame s" "?entry t" for js t
    using that
  proof (induction js arbitrary: t)
    case (Cons j js)
    have "q_inv n ?OkE (?body j t) \<and> frame (?body j t) = frame s \<and> ?entry (?body j t)"
    proof (cases "MakeStep env t e j")
      case None
      then show ?thesis using Cons.prems by simp
    next
      case (Some step)
      then have "?OkE e (int j) (Some step)"
        using assms(4)[of j step] MakeStep_frame[OF Cons.prems(3)] Cons.prems(1) by simp
      then show ?thesis
        using TrySetStep_spec(1,2,4)[of n ?OkE, OF Cons.prems(2) assms(2)] Some Cons.prems(3,4) by simp
    qed
    then show ?case
      using Cons.IH[of "?body j t"] Cons.prems(1) by simp
  qed simp
  define t where "t = fold ?body [max begn (e + 1)..<fin] ?s0"
  have "q_inv n ?OkE ?s0"
    by (rule q_inv_update_best[OF assms(1)]) simp_all
  moreover have "?entry ?s0"
    using assms(1,2) by (simp add: q_inv_def)
  moreover have "set [max begn (e + 1)..<fin] \<subseteq> {e<..<n}"
    using assms(3) by auto
  ultimately have t: "q_inv n ?OkE t" "frame t = frame s" "?entry t"
    using loop[of "[max begn (e + 1)..<fin]" ?s0] unfolding t_def by simp_all
  have "q_inv n (\<lambda>i nb st. i = e \<or> Ok i nb st) t"
    by (rule q_inv_mono[OF t(1)]) blast
  then show "q_inv n Ok (scan_later env e begn fin s)" "frame (scan_later env e begn fin s) = frame s"
    using UpdateQueue_spec[OF _ assms(2), of Ok t] t unfolding scan_later_def t_def[symmetric] by auto
qed

text \<open>A queued entry for a pair of edges in \<open>A\<close> whose step fits the edge array \<open>E\<close>.\<close>

definition good ::
  "nat \<Rightarrow> SEdge list \<Rightarrow> (nat \<times> nat) set \<Rightarrow> nat \<Rightarrow> int \<Rightarrow> 'd SSimplificationStep option \<Rightarrow> bool" where
  "good N E A i nb st \<longleftrightarrow> (\<exists>j step. nb = int j \<and> i < j \<and> j < length E div 2 \<and> st = Some step \<and>
     orders i j step \<and> step_at N E step \<and> (i, j) \<in> A)"

definition free_pairs :: "nat \<Rightarrow> (nat \<times> nat) set \<Rightarrow> (nat \<times> nat) set" where
  "free_pairs n R = {(i, j). i < j \<and> j < n \<and> unordered R i j}"

text \<open>What reranking relies on and does not change.\<close>

definition rank_inv :: "nat \<Rightarrow> nat \<Rightarrow> SEdge list \<Rightarrow> (nat \<times> nat) set \<Rightarrow> 'd CDPHyperGraphSimplifier \<Rightarrow> bool" where
  "rank_inv N n E R s \<longleftrightarrow> graph_inv (m_graph s) \<and> NodeCount (m_graph s) = N \<and> m_edges (m_graph s) = E \<and>
     n = length E div 2 \<and> order_inv n R (m_order s)"

lemma rank_inv_frame: "frame s = frame s' \<Longrightarrow> rank_inv N n E R s = rank_inv N n E R s'"
  by (simp add: rank_inv_def frame_def)

lemma MakeStep_good:
  assumes "rank_inv N n E R s" "free_pairs n R \<subseteq> A" "MakeStep env s e1 e2 = Some step" "e1 < n" "e2 < n"
    and "(i, j) \<in> {(e1, e2), (e2, e1)}" "i < j"
  shows "good N E A i (int j) (Some step)"
proof -
  have s: "graph_inv (m_graph s)" "order_inv n R (m_order s)" "n = LogicalEdgeCount (m_graph s)"
    "NodeCount (m_graph s) = N" "m_edges (m_graph s) = E" "length E div 2 = n"
    using assms(1) by (auto simp: rank_inv_def LogicalEdgeCount_def)
  note spec = MakeStep_spec[OF assms(3) s(1-3) assms(4,5), unfolded s(4,5)]
  have "(i, j) \<in> free_pairs n R"
    using assms(4-7) spec(3) unordered_sym by (auto simp: free_pairs_def)
  then show ?thesis
    using assms(2,4-7) spec(1,2) orders_sym[of e1 e2] s(6) by (auto simp: good_def)
qed

lemma ProcessNeighbors_later: "ProcessNeighbors env e (Suc e) fin s = scan_later env e (Suc e) fin s"
  by (subst ProcessNeighbors.simps) simp

lemma rescan_good:
  assumes "rank_inv N n E R s" "free_pairs n R \<subseteq> A" "e < n" "fin \<le> n"
    and "q_inv n (\<lambda>i nb st. i = e \<or> P i nb \<or> good N E A i nb st) s"
  shows "q_inv n (\<lambda>i nb st. P i nb \<or> good N E A i nb st) (scan_later env e begn fin s)"
    "frame (scan_later env e begn fin s) = frame s"
  using scan_later_spec[OF assms(5,3,4), of env begn] MakeStep_good[OF assms(1,2), of env e] assms(3) by auto

text \<open>
  One round over an earlier edge \<open>k\<close>: its entry is replaced by one for the pair of \<open>k\<close> and \<open>e\<close>, recomputed when it
  was about that pair, or left alone when it was about another.
\<close>

lemma earlier_neighbor_spec:
  assumes "rank_inv N n E R s" "free_pairs n R \<subseteq> A" "e < n" "k < e"
    and "q_inv n (\<lambda>i nb st. (i = e \<or> nb = int e \<and> k \<le> i \<and> i < e) \<or> good N E A i nb st) s"
    and "s' = (case MakeStep env s e k of
             Some step \<Rightarrow>
               (case TrySetStep env step k e s of
                  (True, s') \<Rightarrow> s'
                | (False, s') \<Rightarrow>
                    if m_best_neighbor (m_best s' ! k) = int e
                    then ProcessNeighbors env k (k + 1) (LogicalEdgeCount (m_graph s')) s' else s')
           | None \<Rightarrow>
               if m_best_neighbor (m_best s ! k) = int e
               then ProcessNeighbors env k (k + 1) (LogicalEdgeCount (m_graph s)) s else s)"
  shows "q_inv n (\<lambda>i nb st. (i = e \<or> nb = int e \<and> Suc k \<le> i \<and> i < e) \<or> good N E A i nb st) s' \<and> frame s' = frame s"
proof -
  let ?Ok = "\<lambda>k i nb st. (i = e \<or> nb = int e \<and> k \<le> i \<and> i < e) \<or> good N E A i nb st"
  have n: "LogicalEdgeCount (m_graph s) = n" and k: "k < n"
    using assms(1,3,4) by (auto simp: rank_inv_def LogicalEdgeCount_def)
  have others: "q_inv n (\<lambda>i nb st. i = k \<or> ?Ok (Suc k) i nb st) s"
    by (rule q_inv_mono[OF assms(5)]) auto
  note rescan = rescan_good[OF assms(1,2) k le_refl, of "\<lambda>i nb. i = e \<or> nb = int e \<and> Suc k \<le> i \<and> i < e", OF others, of env "Suc k"]
  have keep: "q_inv n (?Ok (Suc k)) s" if "m_best_neighbor (m_best s ! k) \<noteq> int e"
    using assms(5) that unfolding q_inv_def by (metis le_eq_less_or_eq Suc_le_eq)
  show ?thesis
  proof (cases "MakeStep env s e k")
    case None
    then show ?thesis
      using assms(6) rescan keep n by (simp add: ProcessNeighbors_later)
  next
    case (Some step)
    have "good N E A k (int e) (Some step)"
      using MakeStep_good[OF assms(1,2) Some assms(3) k, of k e] assms(4) by simp
    then have set_k: "q_inv n (?Ok (Suc k)) (UpdateQueue k (update_best k (\<lambda>b. b\<lparr>m_best_neighbor := int e, m_step := Some step\<rparr>) s))"
      "frame (UpdateQueue k (update_best k (\<lambda>b. b\<lparr>m_best_neighbor := int e, m_step := Some step\<rparr>) s)) = frame s"
      using set_step_spec[of n k "?Ok (Suc k)" s e step, OF others k _ refl] by blast+
    show ?thesis
      using assms(6) Some rescan keep n set_k by (auto simp: ProcessNeighbors_later TrySetStep_def)
  qed
qed

lemma ProcessNeighbors_spec:
  assumes "rank_inv N n E R s" "free_pairs n R \<subseteq> A" "e < n"
    and "q_inv n (\<lambda>i nb st. (i = e \<or> nb = int e \<and> i < e) \<or> good N E A i nb st) s"
  shows "q_inv n (good N E A) (ProcessNeighbors env e 0 n s)" "frame (ProcessNeighbors env e 0 n s) = frame s"
proof -
  let ?Ok = "\<lambda>k i nb st. (i = e \<or> nb = int e \<and> k \<le> i \<and> i < e) \<or> good N E A i nb st"
  let ?body = "\<lambda>edge2 s.
           case MakeStep env s e edge2 of
             Some step \<Rightarrow>
               (case TrySetStep env step edge2 e s of
                  (True, s') \<Rightarrow> s'
                | (False, s') \<Rightarrow>
                    if m_best_neighbor (m_best s' ! edge2) = int e
                    then ProcessNeighbors env edge2 (edge2 + 1) (LogicalEdgeCount (m_graph s')) s' else s')
           | None \<Rightarrow>
               if m_best_neighbor (m_best s ! edge2) = int e
               then ProcessNeighbors env edge2 (edge2 + 1) (LogicalEdgeCount (m_graph s)) s else s"
  have rounds: "q_inv n (?Ok k) (fold ?body [0..<k] s) \<and> frame (fold ?body [0..<k] s) = frame s" if "k \<le> e" for k
    using that
  proof (induction k)
    case 0
    then show ?case
      using q_inv_mono[OF assms(4), of "?Ok 0"] by auto
  next
    case (Suc k)
    let ?t = "fold ?body [0..<k] s"
    have t: "q_inv n (?Ok k) ?t" "frame ?t = frame s"
      using Suc by simp_all
    then have "rank_inv N n E R ?t"
      using assms(1) rank_inv_frame by blast
    then have "q_inv n (?Ok (Suc k)) (?body k ?t) \<and> frame (?body k ?t) = frame ?t"
      using earlier_neighbor_spec[OF _ assms(2,3) _ t(1) refl] Suc.prems by simp
    moreover have "fold ?body [0..<Suc k] s = ?body k ?t"
      by (simp only: upt_Suc_append[OF le0] fold_append fold_simps o_apply)
    ultimately show ?case
      using t(2) by argo
  qed
  define t where "t = fold ?body [0..<e] s"
  have t: "q_inv n (?Ok e) t" "frame t = frame s"
    using rounds[OF le_refl] unfolding t_def by blast+
  have "q_inv n (\<lambda>i nb st. i = e \<or> False \<or> good N E A i nb st) t"
    by (rule q_inv_mono[OF t(1)]) (auto simp: good_def)
  moreover have "rank_inv N n E R t"
    using assms(1) t(2) rank_inv_frame by blast
  ultimately have "q_inv n (good N E A) (scan_later env e 0 n t)" "frame (scan_later env e 0 n t) = frame s"
    using rescan_good[of N n E R t A e n "\<lambda>_ _. False" env 0] assms(2,3) t(2) by auto
  moreover have "ProcessNeighbors env e 0 n s = scan_later env e 0 n t"
    unfolding t_def using assms(3) by (subst ProcessNeighbors.simps) (simp only: min_absorb2 less_imp_le)
  ultimately show "q_inv n (good N E A) (ProcessNeighbors env e 0 n s)" "frame (ProcessNeighbors env e 0 n s) = frame s"
    by simp_all
qed

subsection \<open>Fetching a step\<close>

text \<open>What the code relies on from the priority queue: the chosen entry is one of the queue.\<close>

definition top_ok :: "'d simplifier_env \<Rightarrow> bool" where
  "top_ok env \<longleftrightarrow> (\<forall>q f. q \<noteq> [] \<longrightarrow> env_top env q f \<in> set q)"

lemma pop_spec:
  assumes "q_inv n Ok s" "best \<in> set (m_queue s)"
    and "s1 = update_best best (\<lambda>b. b\<lparr>m_in_queue := False\<rparr>) (s\<lparr>m_queue := remove1 best (m_queue s)\<rparr>)"
  shows "q_inv n (\<lambda>i nb st. i \<noteq> best \<and> Ok i nb st) s1" "frame s1 = frame s"
    "Ok best (m_best_neighbor (m_best s1 ! best)) (m_step (m_best s1 ! best))"
proof -
  have s: "length (m_best s) = n" "distinct (m_queue s)" "set (m_queue s) = {i. i < n \<and> m_in_queue (m_best s ! i)}"
    "\<And>i. i \<in> set (m_queue s) \<Longrightarrow> Ok i (m_best_neighbor (m_best s ! i)) (m_step (m_best s ! i))" "best < n"
    using assms(1,2) by (auto simp: q_inv_def)
  have best: "m_best s1 ! i = (if i = best then (m_best s ! i)\<lparr>m_in_queue := False\<rparr> else m_best s ! i)" if "i < n" for i
    using that s(1) unfolding assms(3) by (subst update_best_simps) simp_all
  have queue: "set (m_queue s1) = set (m_queue s) - {best}" "distinct (m_queue s1)" "length (m_best s1) = n"
    using s(1,2) by (simp_all add: assms(3))
  show "q_inv n (\<lambda>i nb st. i \<noteq> best \<and> Ok i nb st) s1"
    using queue s(3,4) best unfolding q_inv_def by (auto split: if_splits)
  show "frame s1 = frame s"
    by (simp add: assms(3)) (simp add: frame_def)
  show "Ok best (m_best_neighbor (m_best s1 ! best)) (m_step (m_best s1 ! best))"
    using best[OF s(5)] s(4)[OF assms(2)] by simp
qed

lemma TryAdd_pair:
  assumes "rank_inv N n E R s" "orders i j step" "i < j" "j < n"
  shows "\<not> fst (TryAdd (m_before step) (m_after step) (m_order s)) \<Longrightarrow>
      snd (TryAdd (m_before step) (m_after step) (m_order s)) = m_order s \<and> (i, j) \<notin> free_pairs n R"
    and "fst (TryAdd (m_before step) (m_after step) (m_order s)) \<Longrightarrow>
      \<exists>R'. order_inv n R' (snd (TryAdd (m_before step) (m_after step) (m_order s))) \<and>
        free_pairs n R' \<subseteq> free_pairs n R - {(i, j)}"
proof -
  have ord: "order_inv n R (m_order s)" and ba: "m_before step < n" "m_after step < n"
    using assms by (auto simp: rank_inv_def orders_def)
  note flag = oc.try_add_flag[OF ord ba]
  show "\<not> fst (TryAdd (m_before step) (m_after step) (m_order s)) \<Longrightarrow>
      snd (TryAdd (m_before step) (m_after step) (m_order s)) = m_order s \<and> (i, j) \<notin> free_pairs n R"
    using flag oc.try_add_rejected[OF ord ba] assms(2) by (auto simp: free_pairs_def unordered_def orders_def)
  assume "fst (TryAdd (m_before step) (m_after step) (m_order s))"
  then have "order_inv n (insert (m_before step, m_after step) R) (snd (TryAdd (m_before step) (m_after step) (m_order s)))"
    using flag oc.try_add_accepted[OF ord ba] by blast
  moreover have "unordered R a b" if "unordered (insert (m_before step, m_after step) R) a b" for a b
    using that rtrancl_mono[of R "insert (m_before step, m_after step) R"] by (auto simp: unordered_def)
  moreover have "\<not> unordered (insert (m_before step, m_after step) R) i j"
    using assms(2) by (auto simp: unordered_def orders_def)
  ultimately show "\<exists>R'. order_inv n R' (snd (TryAdd (m_before step) (m_after step) (m_order s))) \<and>
        free_pairs n R' \<subseteq> free_pairs n R - {(i, j)}"
    by (intro exI[of _ "insert (m_before step, m_after step) R"]) (auto simp: free_pairs_def)
qed

text \<open>
  The outcome of the loop.  A returned step fits the edge array, and its pair leaves the set of pairs that
  bounds the remaining work.
\<close>

definition fetched ::
  "nat \<Rightarrow> nat \<Rightarrow> SEdge list \<Rightarrow> (nat \<times> nat) set \<Rightarrow> 'd CDPHyperGraphSimplifier \<Rightarrow>
     ('d SSimplificationStep option \<times> 'd CDPHyperGraphSimplifier) option \<Rightarrow> bool" where
  "fetched N n E A s result \<longleftrightarrow> (\<exists>res s' R' A'. result = Some (res, s') \<and>
     m_graph s' = m_graph s \<and> m_applied s' = m_applied s \<and> m_unapplied s' = m_unapplied s \<and>
     rank_inv N n E R' s' \<and> free_pairs n R' \<subseteq> A' \<and> A' \<subseteq> A \<and> q_inv n (good N E A') s' \<and>
     (\<forall>step. res = Some step \<longrightarrow> A' \<noteq> A \<and> step_at N E step))"

lemma fetched_later:
  assumes "fetched N n E A' s' result" "A' \<subseteq> A" "m_graph s' = m_graph s" "m_applied s' = m_applied s" "m_unapplied s' = m_unapplied s"
  shows "fetched N n E A s result"
proof -
  obtain res t R'' A'' where "result = Some (res, t)" "m_graph t = m_graph s'" "m_applied t = m_applied s'"
    "m_unapplied t = m_unapplied s'" "rank_inv N n E R'' t" "free_pairs n R'' \<subseteq> A''" "A'' \<subseteq> A'" "q_inv n (good N E A'') t"
    "\<forall>step. res = Some step \<longrightarrow> A'' \<noteq> A' \<and> step_at N E step"
    using assms(1) unfolding fetched_def by blast
  then show ?thesis
    unfolding fetched_def using assms(2-5)
    by (intro exI[of _ res] exI[of _ t] exI[of _ R''] exI[of _ A'']) auto
qed

lemma fetch_loop_spec:
  assumes "top_ok env" "rank_inv N n E R s" "q_inv n (good N E A) s" "free_pairs n R \<subseteq> A"
    and "A \<subseteq> free_pairs n R \<union> S \<times> UNIV" "finite S" "card S < fuel"
  shows "fetched N n E A s (fetch_loop fuel env s)"
  using assms(2-)
proof (induction fuel arbitrary: s A S)
  case (Suc fuel)
  show ?case
  proof (cases "m_queue s = []")
    case True
    then have "fetch_loop (Suc fuel) env s = Some (None, s)"
      by simp
    then show ?thesis
      using Suc.prems(1-3) unfolding fetched_def by blast
  next
    case False
    define best where "best = env_top env (m_queue s) (\<lambda>i. m_step (m_best s ! i))"
    define s1 where "s1 = update_best best (\<lambda>b. b\<lparr>m_in_queue := False\<rparr>) (s\<lparr>m_queue := remove1 best (m_queue s)\<rparr>)"
    have "best \<in> set (m_queue s)"
      using False assms(1) by (simp add: best_def top_ok_def)
    note pop = pop_spec[OF Suc.prems(2) this s1_def]
    then obtain j step where entry: "m_best_neighbor (m_best s1 ! best) = int j" "best < j" "j < length E div 2"
      "m_step (m_best s1 ! best) = Some step" "orders best j step" "step_at N E step" "(best, j) \<in> A"
      unfolding good_def by blast
    have rank: "rank_inv N n E R s1"
      using Suc.prems(1) rank_inv_frame[OF pop(2)] by blast
    then have n: "n = length E div 2" "LogicalEdgeCount (m_graph s1) = n"
      by (auto simp: rank_inv_def LogicalEdgeCount_def)
    have same: "m_graph s1 = m_graph s" "m_applied s1 = m_applied s" "m_unapplied s1 = m_unapplied s"
      using pop(2) by (simp_all add: frame_def)
    note add = TryAdd_pair[OF rank entry(5,2), folded n(1), OF entry(3)[folded n(1)]]
    define order where "order = snd (TryAdd (m_before step) (m_after step) (m_order s1))"
    have unfold: "fetch_loop (Suc fuel) env s =
        (if fst (TryAdd (m_before step) (m_after step) (m_order s1)) then Some (Some step, s1\<lparr>m_order := order\<rparr>)
         else fetch_loop fuel env (ProcessNeighbors env (m_after step) 0 n (s1\<lparr>m_order := order\<rparr>)))"
      using False entry(1,4) n(2)
      by (simp add: best_def[symmetric] s1_def[symmetric] order_def Let_def split: prod.split)
    show ?thesis
    proof (cases "fst (TryAdd (m_before step) (m_after step) (m_order s1))")
      case True
      obtain R' where R': "order_inv n R' order" "free_pairs n R' \<subseteq> free_pairs n R - {(best, j)}"
        using add(2)[OF True] unfolding order_def by blast
      let ?A = "A - {(best, j)}" and ?s = "s1\<lparr>m_order := order\<rparr>"
      have "q_inv n (good N E ?A) s1"
        by (rule q_inv_mono[OF pop(1)]) (auto simp: good_def)
      then have "q_inv n (good N E ?A) ?s"
        by (simp add: q_inv_def)
      moreover have "rank_inv N n E R' ?s"
        using rank R'(1) by (simp add: rank_inv_def)
      moreover have "free_pairs n R' \<subseteq> ?A" "?A \<subseteq> A" "?A \<noteq> A"
        using R'(2) Suc.prems(3) entry(7) by auto
      ultimately show ?thesis
        using same entry(6) unfolding fetched_def unfold if_P[OF True]
        by (intro exI[of _ "Some step"] exI[of _ ?s] exI[of _ R'] exI[of _ ?A]) simp
    next
      case False
      then have order: "s1\<lparr>m_order := order\<rparr> = s1" and stale: "(best, j) \<notin> free_pairs n R"
        using add(1) by (simp_all add: order_def)
      let ?A = "{p \<in> A. fst p \<noteq> best \<or> p \<in> free_pairs n R}"
      define s2 where "s2 = ProcessNeighbors env (m_after step) 0 n s1"
      have free: "free_pairs n R \<subseteq> ?A"
        using Suc.prems(3) by blast
      have "q_inv n (\<lambda>i nb st. (i = m_after step \<or> nb = int (m_after step) \<and> i < m_after step) \<or> good N E ?A i nb st) s1"
        by (rule q_inv_mono[OF pop(1)]) (auto simp: good_def)
      moreover have "m_after step < n"
        using entry(2,3,5) n(1) by (auto simp: orders_def)
      ultimately have s2: "q_inv n (good N E ?A) s2" "frame s2 = frame s1"
        using ProcessNeighbors_spec[OF rank free] unfolding s2_def by blast+
      have "best \<in> S"
        using stale entry(7) Suc.prems(4) by blast
      then have card: "card (S - {best}) < fuel"
        using card_Diff1_less[OF Suc.prems(5)] Suc.prems(6) by fastforce
      have cover: "?A \<subseteq> free_pairs n R \<union> (S - {best}) \<times> UNIV"
        using Suc.prems(4) by auto
      have "rank_inv N n E R s2"
        using rank rank_inv_frame[OF s2(2)] by blast
      from Suc.IH[OF this s2(1) free cover finite_Diff[OF Suc.prems(5)] card]
      have "fetched N n E ?A s2 (fetch_loop fuel env s2)" .
      then have "fetched N n E A s (fetch_loop fuel env s2)"
        by (rule fetched_later) (use s2(2) same in \<open>auto simp: frame_def\<close>)
      then show ?thesis
        unfolding unfold if_not_P[OF False] order s2_def .
    qed
  qed
qed simp

subsection \<open>Chains of steps\<close>

definition widen :: "'d SSimplificationStep \<Rightarrow> SEdge list \<Rightarrow> SEdge list" where
  "widen step E = (let c = m_change step; k = m_edge c; edge_id = m_edge_id (E ! (2 * k)) in
     E[2 * k := SEdge_new (m_new_left c) (m_new_right c) edge_id,
       2 * k + 1 := SEdge_new (m_new_right c) (m_new_left c) edge_id])"

fun chain :: "nat \<Rightarrow> SEdge list \<Rightarrow> 'd SSimplificationStep list \<Rightarrow> SEdge list \<Rightarrow> bool" where
  "chain N E [] F \<longleftrightarrow> F = E"
| "chain N E (step # steps) F \<longleftrightarrow> step_at N E step \<and> chain N (widen step E) steps F"

lemma chain_append: "chain N E (xs @ ys) G \<longleftrightarrow> (\<exists>F. chain N E xs F \<and> chain N F ys G)"
  by (induction xs arbitrary: E) simp_all

lemma chain_snoc: "chain N E xs F \<Longrightarrow> step_at N F step \<Longrightarrow> chain N E (xs @ [step]) (widen step F)"
  by (auto simp: chain_append)

lemma length_widen [simp]: "length (widen step E) = length E"
  by (simp add: widen_def Let_def)

lemma widen_edges_ok: "edges_ok N E \<Longrightarrow> step_at N E step \<Longrightarrow> edges_ok N (widen step E)"
  unfolding widen_def Let_def step_at_def by (intro edges_ok_replace) (auto simp: SEdge_new_def mirrored_def)

lemma chain_edges_ok: "chain N E steps F \<Longrightarrow> edges_ok N E \<Longrightarrow> edges_ok N F \<and> length F = length E"
  by (induction steps arbitrary: E) (auto simp: widen_edges_ok)

lemma widen_other:
  assumes "k \<noteq> m_edge (m_change step)"
  shows "widen step E ! (2 * k) = E ! (2 * k)"
  using assms by (simp add: widen_def Let_def nth_list_update)

text \<open>The original edge is contained in the widened one.\<close>

definition widened :: "SEdge \<Rightarrow> SEdge \<Rightarrow> bool" where
  "widened e f \<longleftrightarrow> m_left e \<subseteq> m_left f \<and> m_right e \<subseteq> m_right f \<and> m_edge_id e = m_edge_id f"

lemma widen_widened:
  assumes "edges_ok N E" "step_at N E step" "i < length E"
  shows "widened (E ! i) (widen step E ! i)"
proof -
  let ?k = "m_edge (m_change step)"
  have k: "?k < length E div 2" "mirrored (E ! (2 * ?k)) (E ! (2 * ?k + 1))"
    using assms(1,2) by (auto simp: step_at_def Let_def edges_ok_def)
  then show ?thesis
    using assms by (auto simp: widen_def Let_def nth_list_update widened_def SEdge_new_def step_at_def mirrored_def)
qed

lemma chain_widened:
  "chain N E steps F \<Longrightarrow> edges_ok N E \<Longrightarrow> i < length E \<Longrightarrow> widened (E ! i) (F ! i)"
proof (induction steps arbitrary: E)
  case (Cons step steps)
  then have at: "step_at N E step" "chain N (widen step E) steps F"
    by simp_all
  have "widened (E ! i) (widen step E ! i)" "widened (widen step E ! i) (F ! i)"
    using widen_widened[OF Cons.prems(2) at(1) Cons.prems(3)]
      Cons.IH[OF at(2) widen_edges_ok[OF Cons.prems(2) at(1)]] Cons.prems(3) by simp_all
  then show ?case
    unfolding widened_def by auto
qed (simp add: widened_def)

subsection \<open>Applying and undoing\<close>

lemma ModifyEdge_simps [simp]:
  "m_order (ModifyEdge step b s) = m_order s" "m_best (ModifyEdge step b s) = m_best s"
  "m_queue (ModifyEdge step b s) = m_queue s" "m_applied (ModifyEdge step b s) = m_applied s"
  "m_unapplied (ModifyEdge step b s) = m_unapplied s"
  by (simp_all add: ModifyEdge_def Let_def)

lemma ModifyEdge_apply:
  assumes "graph_inv (m_graph s)" "NodeCount (m_graph s) = N" "m_edges (m_graph s) = E" "step_at N E step"
  shows "graph_inv (m_graph (ModifyEdge step True s))" "NodeCount (m_graph (ModifyEdge step True s)) = N"
    "m_edges (m_graph (ModifyEdge step True s)) = widen step E"
  using assms ReplaceEdge_inv[OF assms(1)]
  by (auto simp: ModifyEdge_def Let_def ReplaceEdge_shape widen_def step_at_def LogicalEdgeCount_def)

lemma ModifyEdge_undo:
  assumes "graph_inv (m_graph s)" "NodeCount (m_graph s) = N" "m_edges (m_graph s) = widen step E" "step_at N E step" "edges_ok N E"
  shows "graph_inv (m_graph (ModifyEdge step False s))" "NodeCount (m_graph (ModifyEdge step False s)) = N"
    "m_edges (m_graph (ModifyEdge step False s)) = E"
proof -
  let ?c = "m_change step"
  let ?k = "m_edge ?c"
  have k: "?k < length E div 2" "m_old_left ?c = m_left (E ! (2 * ?k))" "m_old_right ?c = m_right (E ! (2 * ?k))"
    and ok: "sides_ok N (m_left (E ! (2 * ?k))) (m_right (E ! (2 * ?k)))" "mirrored (E ! (2 * ?k)) (E ! (2 * ?k + 1))"
    using assms(4,5) by (auto simp: step_at_def Let_def edges_ok_def)
  then show "graph_inv (m_graph (ModifyEdge step False s))" "NodeCount (m_graph (ModifyEdge step False s)) = N"
    using assms(2,3) ReplaceEdge_inv[OF assms(1)]
    by (auto simp: ModifyEdge_def Let_def ReplaceEdge_shape(2) LogicalEdgeCount_def)
  have "SEdge_new (m_left (E ! (2 * ?k))) (m_right (E ! (2 * ?k))) (m_edge_id (E ! (2 * ?k))) = E ! (2 * ?k)"
    "SEdge_new (m_right (E ! (2 * ?k))) (m_left (E ! (2 * ?k))) (m_edge_id (E ! (2 * ?k))) = E ! (2 * ?k + 1)"
    using ok(2) by (simp_all add: SEdge_new_def mirrored_def)
  then show "m_edges (m_graph (ModifyEdge step False s)) = E"
    using k by (auto simp: ModifyEdge_def Let_def ReplaceEdge_shape(1) assms(3) widen_def SEdge_new_def
        list_eq_iff_nth_eq nth_list_update)
qed

text \<open>
  The state between calls: the applied steps lead from the original edges to the current ones, the undone
  steps from there to the edges that the queued steps were computed for.
\<close>

definition sinv :: "nat \<Rightarrow> SEdge list \<Rightarrow> (nat \<times> nat) set \<Rightarrow> 'd CDPHyperGraphSimplifier \<Rightarrow> bool" where
  "sinv N E0 A s \<longleftrightarrow> edges_ok N E0 \<and> graph_inv (m_graph s) \<and> NodeCount (m_graph s) = N \<and>
     chain N E0 (rev (m_applied s)) (m_edges (m_graph s)) \<and> finite A \<and>
     (\<exists>F R. chain N (m_edges (m_graph s)) (m_unapplied s) F \<and> order_inv (length E0 div 2) R (m_order s) \<and>
        free_pairs (length E0 div 2) R \<subseteq> A \<and> q_inv (length E0 div 2) (good N F A) s)"

lemma sinv_edges:
  assumes "sinv N E0 A s"
  shows "edges_ok N (m_edges (m_graph s))" "length (m_edges (m_graph s)) = length E0"
    "LogicalEdgeCount (m_graph s) = length E0 div 2" "length (m_best s) = length E0 div 2"
  using assms chain_edges_ok[of N E0 "rev (m_applied s)" "m_edges (m_graph s)"]
  by (auto simp: sinv_def LogicalEdgeCount_def q_inv_def)

lemma good_after_widen:
  assumes "good N E A i nb st" "step_at N E step"
  shows "(i = m_after step \<or> nb = int (m_after step) \<and> i < m_after step) \<or> good N (widen step E) A i nb st"
proof -
  obtain j st' where st: "nb = int j" "i < j" "j < length E div 2" "st = Some st'" "orders i j st'" "step_at N E st'" "(i, j) \<in> A"
    using assms(1) by (auto simp: good_def)
  have k: "m_edge (m_change step) = m_after step" "m_edge (m_change st') = m_after st'"
    using assms(2) st(6) by (auto simp: step_at_def Let_def)
  show ?thesis
  proof (cases "i = m_after step \<or> j = m_after step")
    case True
    then show ?thesis using st(1,2) by auto
  next
    case False
    then have "m_edge (m_change st') \<noteq> m_edge (m_change step)"
      using k st(5) by (auto simp: orders_def)
    then have "step_at N (widen step E) st'"
      using st(6) widen_other[of "m_edge (m_change st')" step E] by (auto simp: step_at_def Let_def)
    then show ?thesis
      using st by (auto simp: good_def)
  qed
qed

lemma FetchStep_fresh:
  assumes "top_ok env" "sinv N E0 A s" "m_unapplied s = []"
  shows "fetched N (length E0 div 2) (m_edges (m_graph s)) A s (FetchStep env s)"
proof -
  let ?n = "length E0 div 2"
  obtain R where R: "order_inv ?n R (m_order s)" "free_pairs ?n R \<subseteq> A" "q_inv ?n (good N (m_edges (m_graph s)) A) s"
    using assms(2,3) by (auto simp: sinv_def)
  let ?A = "A \<inter> {..<?n} \<times> UNIV"
  have rank: "rank_inv N ?n (m_edges (m_graph s)) R s"
    using assms(2) R(1) sinv_edges[OF assms(2)] by (simp add: rank_inv_def sinv_def)
  have q: "q_inv ?n (good N (m_edges (m_graph s)) ?A) s"
    by (rule q_inv_mono[OF R(3)]) (use sinv_edges(2)[OF assms(2)] in \<open>auto simp: good_def\<close>)
  have free: "free_pairs ?n R \<subseteq> ?A"
    using R(2) by (auto simp: free_pairs_def)
  have "FetchStep env s = fetch_loop (Suc ?n) env s"
    using assms(3) sinv_edges(4)[OF assms(2)] by (simp add: FetchStep_def del: fetch_loop.simps)
  moreover have "fetched N ?n (m_edges (m_graph s)) ?A s (fetch_loop (Suc ?n) env s)"
    by (rule fetch_loop_spec[OF assms(1) rank q free, of "{..<?n}"]) auto
  ultimately have "fetched N ?n (m_edges (m_graph s)) ?A s (FetchStep env s)"
    by simp
  then show ?thesis
    by (rule fetched_later) auto
qed

lemma ApplyStep_replay:
  assumes "sinv N E0 A s" "m_unapplied s = step # steps"
  shows "\<exists>s'. ApplyStep env s = Some (True, s') \<and> sinv N E0 A s' \<and> m_applied s' = step # m_applied s \<and> m_unapplied s' = steps"
proof -
  let ?E = "m_edges (m_graph s)"
  define s' where "s' = (let s2 = ModifyEdge step True (s\<lparr>m_unapplied := steps\<rparr>) in s2\<lparr>m_applied := step # m_applied s2\<rparr>)"
  obtain F R where F: "chain N ?E (step # steps) F" "order_inv (length E0 div 2) R (m_order s)"
    "free_pairs (length E0 div 2) R \<subseteq> A" "q_inv (length E0 div 2) (good N F A) s"
    using assms by (auto simp: sinv_def)
  have "ApplyStep env s = Some (True, s')"
    using assms(2) by (simp add: ApplyStep_def FetchStep_def s'_def Let_def)
  moreover have "sinv N E0 A s'"
  proof -
    have s: "edges_ok N E0" "graph_inv (m_graph s)" "NodeCount (m_graph s) = N" "chain N E0 (rev (m_applied s)) ?E" "finite A"
      using assms(1) by (auto simp: sinv_def)
    have at: "step_at N ?E step" "chain N (widen step ?E) steps F"
      using F(1) by simp_all
    note modified = ModifyEdge_apply[of "s\<lparr>m_unapplied := steps\<rparr>" N ?E step, simplified, OF s(2,3) at(1)]
    have "q_inv (length E0 div 2) (good N F A) s'"
      using F(4) by (simp add: q_inv_def s'_def Let_def)
    then show ?thesis
      unfolding sinv_def using modified s at F(2,3) chain_snoc[OF s(4) at(1)]
      by (intro conjI exI[of _ F] exI[of _ R]) (simp_all add: s'_def Let_def)
  qed
  ultimately show ?thesis
    by (auto simp: s'_def Let_def)
qed

lemma ApplyStep_fresh:
  assumes "top_ok env" "sinv N E0 A s" "m_unapplied s = []"
  shows "\<exists>b s' A'. ApplyStep env s = Some (b, s') \<and> A' \<subseteq> A \<and> sinv N E0 A' s' \<and> m_unapplied s' = [] \<and>
    (if b then A' \<noteq> A \<and> length (m_applied s') = Suc (length (m_applied s)) else m_applied s' = m_applied s)"
proof -
  let ?E = "m_edges (m_graph s)" and ?n = "length E0 div 2"
  obtain res s1 R A' where fetch: "FetchStep env s = Some (res, s1)"
    and s1: "m_graph s1 = m_graph s" "m_applied s1 = m_applied s" "m_unapplied s1 = []" "rank_inv N ?n ?E R s1"
      "free_pairs ?n R \<subseteq> A'" "A' \<subseteq> A" "q_inv ?n (good N ?E A') s1"
    and step: "\<And>step. res = Some step \<Longrightarrow> A' \<noteq> A \<and> step_at N ?E step"
    using FetchStep_fresh[OF assms] assms(3) unfolding fetched_def by auto
  have s: "edges_ok N E0" "graph_inv (m_graph s)" "NodeCount (m_graph s) = N" "chain N E0 (rev (m_applied s)) ?E"
      "finite A'" "order_inv ?n R (m_order s1)"
    using assms(2) s1(4,6) finite_subset by (auto simp: sinv_def rank_inv_def)
  show ?thesis
  proof (cases res)
    case None
    then have "ApplyStep env s = Some (False, s1)"
      using fetch by (simp add: ApplyStep_def)
    moreover have "sinv N E0 A' s1"
      using s s1 unfolding sinv_def by (intro conjI exI[of _ ?E] exI[of _ R]) simp_all
    ultimately show ?thesis
      using s1 by auto
  next
    case (Some step)
    define s3 where "s3 = (let s2 = ModifyEdge step True s1 in s2\<lparr>m_applied := step # m_applied s2\<rparr>)"
    have at: "step_at N ?E step" and e: "m_after step < ?n"
      using assms(2) step[OF Some] sinv_edges(2)[OF assms(2)] by (auto simp: step_at_def Let_def)
    have g: "graph_inv (m_graph s3)" "NodeCount (m_graph s3) = N" "m_edges (m_graph s3) = widen step ?E"
      using ModifyEdge_apply[of s1 N ?E step] s(2,3) s1(1) at by (simp_all add: s3_def Let_def)
    then have n3: "LogicalEdgeCount (m_graph s3) = ?n"
      using sinv_edges(2)[OF assms(2)] by (simp add: LogicalEdgeCount_def)
    have rank3: "rank_inv N ?n (widen step ?E) R s3"
      using g s(6) sinv_edges(2)[OF assms(2)] by (simp add: rank_inv_def s3_def Let_def)
    have "q_inv ?n (\<lambda>i nb st. (i = m_after step \<or> nb = int (m_after step) \<and> i < m_after step) \<or> good N (widen step ?E) A' i nb st) s1"
      by (rule q_inv_mono[OF s1(7)]) (rule good_after_widen[OF _ at])
    then have q3: "q_inv ?n (\<lambda>i nb st. (i = m_after step \<or> nb = int (m_after step) \<and> i < m_after step) \<or> good N (widen step ?E) A' i nb st) s3"
      by (simp add: q_inv_def s3_def Let_def)
    define s4 where "s4 = ProcessNeighbors env (m_after step) 0 ?n s3"
    note s4 = ProcessNeighbors_spec[OF rank3 s1(5) e q3, of env, folded s4_def]
    have "ApplyStep env s = Some (True, s4)"
      using fetch assms(3) n3 by (simp add: ApplyStep_def Some s3_def s4_def Let_def)
    moreover have same: "m_graph s4 = m_graph s3" "m_order s4 = m_order s1" "m_applied s4 = step # m_applied s" "m_unapplied s4 = []"
      using s4(2) s1(2,3) by (simp_all add: frame_def) (simp_all add: s3_def Let_def)
    moreover have "sinv N E0 A' s4"
      unfolding sinv_def same using s g s4(1) s1(5) at chain_snoc[OF s(4) at]
      by (intro conjI exI[of _ "widen step ?E"] exI[of _ R]) simp_all
    ultimately show ?thesis
      using s1(6) step[OF Some] by (intro exI[of _ True] exI[of _ s4] exI[of _ A']) simp
  qed
qed

lemma UnapplyStep_spec:
  assumes "sinv N E0 A s" "m_applied s = step # steps"
  shows "sinv N E0 A (snd (UnapplyStep s))" "m_applied (snd (UnapplyStep s)) = steps"
proof -
  let ?E = "m_edges (m_graph s)"
  obtain F0 where F0: "chain N E0 (rev steps) F0" "step_at N F0 step" "?E = widen step F0"
    using assms by (auto simp: sinv_def chain_append)
  obtain F R where F: "chain N ?E (m_unapplied s) F" "order_inv (length E0 div 2) R (m_order s)"
    "free_pairs (length E0 div 2) R \<subseteq> A" "q_inv (length E0 div 2) (good N F A) s"
    using assms by (auto simp: sinv_def)
  have s: "edges_ok N E0" "graph_inv (m_graph s)" "NodeCount (m_graph s) = N" "finite A"
    using assms(1) by (auto simp: sinv_def)
  have "edges_ok N F0"
    using chain_edges_ok[OF F0(1) s(1)] by simp
  note undo = ModifyEdge_undo[of "s\<lparr>m_applied := steps\<rparr>" N step F0, simplified, OF s(2,3) F0(3,2) this]
  have q: "q_inv (length E0 div 2) (good N F A) (snd (UnapplyStep s))"
    using F(4) by (simp add: q_inv_def UnapplyStep_def assms(2))
  show "m_applied (snd (UnapplyStep s)) = steps"
    by (simp add: UnapplyStep_def assms(2))
  show "sinv N E0 A (snd (UnapplyStep s))"
    unfolding sinv_def using undo s F0 F(1-3) q
    by (intro conjI exI[of _ F] exI[of _ R]) (simp_all add: UnapplyStep_def assms(2))
qed

subsection \<open>Going to a number of steps\<close>

text \<open>A state of the simplifier for the original edges \<open>E0\<close>.\<close>

definition simplifying :: "nat \<Rightarrow> SEdge list \<Rightarrow> 'd CDPHyperGraphSimplifier \<Rightarrow> bool" where
  "simplifying N E0 s \<longleftrightarrow> (\<exists>A. sinv N E0 A s)"

lemma simplifyingI: "sinv N E0 A s \<Longrightarrow> simplifying N E0 s"
  by (auto simp: simplifying_def)

lemma ApplyStep_spec:
  assumes "top_ok env" "simplifying N E0 s"
  shows "\<exists>b s'. ApplyStep env s = Some (b, s') \<and> simplifying N E0 s' \<and>
    (b \<longrightarrow> length (m_applied s') = Suc (length (m_applied s)))"
proof -
  obtain A where A: "sinv N E0 A s"
    using assms(2) by (auto simp: simplifying_def)
  show ?thesis
  proof (cases "m_unapplied s")
    case Nil
    from ApplyStep_fresh[OF assms(1) A Nil] obtain b s' A' where "ApplyStep env s = Some (b, s')" "sinv N E0 A' s'"
      "if b then A' \<noteq> A \<and> length (m_applied s') = Suc (length (m_applied s)) else m_applied s' = m_applied s"
      by blast
    then show ?thesis
      using simplifyingI by (auto split: if_splits)
  next
    case (Cons step steps)
    from ApplyStep_replay[OF A Cons] show ?thesis
      using simplifyingI by fastforce
  qed
qed

lemma apply_up_spec:
  assumes "top_ok env"
  shows "simplifying N E0 s \<Longrightarrow> count \<le> length (m_applied s) + fuel \<Longrightarrow>
    \<exists>b s'. apply_up fuel env count s = Some (b, s') \<and> simplifying N E0 s' \<and> (b \<longrightarrow> count \<le> length (m_applied s'))"
proof (induction fuel arbitrary: s)
  case (Suc fuel)
  obtain b s' where step: "ApplyStep env s = Some (b, s')" "simplifying N E0 s'"
    "b \<Longrightarrow> length (m_applied s') = Suc (length (m_applied s))"
    using ApplyStep_spec[OF assms Suc.prems(1)] by blast
  show ?case
    using Suc.IH[OF step(2)] step Suc.prems by (cases b) auto
qed auto

lemma unapply_down_spec:
  "simplifying N E0 s \<Longrightarrow> length (m_applied s) - count \<le> fuel \<Longrightarrow>
    simplifying N E0 (unapply_down fuel count s) \<and>
    length (m_applied (unapply_down fuel count s)) = min count (length (m_applied s))"
proof (induction fuel arbitrary: s)
  case (Suc fuel)
  show ?case
  proof (cases "count < length (m_applied s)")
    case True
    then obtain step steps where a: "m_applied s = step # steps"
      by (cases "m_applied s") auto
    obtain A where "sinv N E0 A s"
      using Suc.prems(1) by (auto simp: simplifying_def)
    note undo = UnapplyStep_spec[OF this a]
    show ?thesis
      using Suc.IH[OF simplifyingI[OF undo(1)]] undo(2) Suc.prems(2) True a by auto
  qed (use Suc.prems in auto)
qed auto

lemma ApplySteps_spec:
  assumes "top_ok env" "simplifying N E0 s"
  shows "\<exists>b s'. ApplySteps env count s = Some (b, s') \<and> simplifying N E0 s' \<and>
    (b \<longrightarrow> length (m_applied s') = count) \<and> (count = 0 \<longrightarrow> b)"
proof -
  have "count \<le> length (m_applied s) + (count - length (m_applied s))"
    by simp
  from apply_up_spec[OF assms this] obtain b s' where up:
    "apply_up (count - length (m_applied s)) env count s = Some (b, s')" "simplifying N E0 s'" "b \<longrightarrow> count \<le> length (m_applied s')"
    by blast
  have "count = 0 \<longrightarrow> b"
    using up(1) by auto
  then show ?thesis
    using up unapply_down_spec[OF up(2) le_refl, of count] by (cases b) (auto simp: ApplySteps_def)
qed

lemma simplifying_original:
  assumes "simplifying N E0 s" "m_applied s = []"
  shows "m_edges (m_graph s) = E0"
  using assms by (auto simp: simplifying_def sinv_def)

subsection \<open>Replaying known steps\<close>

text \<open>All steps chosen so far, applied or undone, in order, and the edges after the first \<open>k\<close> of them.\<close>

definition known_steps :: "'d CDPHyperGraphSimplifier \<Rightarrow> 'd SSimplificationStep list" where
  "known_steps s = rev (m_applied s) @ m_unapplied s"

definition edges_after :: "SEdge list \<Rightarrow> 'd SSimplificationStep list \<Rightarrow> nat \<Rightarrow> SEdge list" where
  "edges_after E0 steps k = foldl (\<lambda>E step. widen step E) E0 (take k steps)"

lemma chain_foldl: "chain N E steps F \<Longrightarrow> F = foldl (\<lambda>E step. widen step E) E steps"
  by (induction steps arbitrary: E) auto

lemma current_edges:
  assumes "simplifying N E0 s"
  shows "m_edges (m_graph s) = edges_after E0 (known_steps s) (length (m_applied s))"
  using assms chain_foldl by (fastforce simp: simplifying_def sinv_def edges_after_def known_steps_def)

lemma apply_up_known:
  assumes "simplifying N E0 s" "count \<le> length (known_steps s)" "count \<le> length (m_applied s) + fuel"
  shows "\<exists>s'. apply_up fuel env count s = Some (True, s') \<and> simplifying N E0 s' \<and> known_steps s' = known_steps s \<and>
    count \<le> length (m_applied s')"
  using assms
proof (induction fuel arbitrary: s)
  case (Suc fuel)
  show ?case
  proof (cases "length (m_applied s) < count")
    case True
    then obtain step steps where u: "m_unapplied s = step # steps"
      using Suc.prems(2) by (cases "m_unapplied s") (auto simp: known_steps_def)
    obtain A where "sinv N E0 A s"
      using Suc.prems(1) by (auto simp: simplifying_def)
    from ApplyStep_replay[OF this u, of env] obtain s' where s': "ApplyStep env s = Some (True, s')" "simplifying N E0 s'"
      "m_applied s' = step # m_applied s" "m_unapplied s' = steps"
      using simplifyingI by blast
    then have known: "known_steps s' = known_steps s"
      using u by (simp add: known_steps_def)
    show ?thesis
      using Suc.IH[OF s'(2)] Suc.prems(2,3) s'(1,3) known True by simp
  qed (use Suc.prems in auto)
qed auto

lemma unapply_down_known: "known_steps (unapply_down fuel count s) = known_steps s"
proof (induction fuel arbitrary: s)
  case (Suc fuel)
  have "known_steps (snd (UnapplyStep s)) = known_steps s"
    by (simp add: known_steps_def UnapplyStep_def split: list.split)
  then show ?case
    using Suc by simp
qed simp

lemma ApplySteps_known:
  assumes "simplifying N E0 s" "count \<le> length (known_steps s)"
  shows "\<exists>s'. ApplySteps env count s = Some (True, s') \<and> simplifying N E0 s' \<and> known_steps s' = known_steps s \<and>
    length (m_applied s') = count"
proof -
  have "count \<le> length (m_applied s) + (count - length (m_applied s))"
    by simp
  from apply_up_known[OF assms this, of env] obtain s' where up:
    "apply_up (count - length (m_applied s)) env count s = Some (True, s')" "simplifying N E0 s'"
    "known_steps s' = known_steps s" "count \<le> length (m_applied s')"
    by blast
  then show ?thesis
    using unapply_down_spec[OF up(2) le_refl, of count] by (auto simp: ApplySteps_def unapply_down_known)
qed

subsection \<open>The search\<close>

lemma EnumerationExceedsBudget_total:
  assumes "graph_inv g"
  shows "\<exists>b. EnumerationExceedsBudget env g = Some b"
proof -
  let ?p = "plan_new (env_pair_budget env) (env_pair_filter env)"
  have "plan_ok g (env_pair_budget env) (env_pair_filter env) False ?p"
    using plan_new_inv[of g] by (simp add: plan_ok_def plan_new_def)
  from plan.Enumerate_kept[OF assms this] show ?thesis
    by (auto simp: EnumerationExceedsBudget_def)
qed

lemma simplifying_graph: "simplifying N E0 s \<Longrightarrow> graph_inv (m_graph s)" "simplifying N E0 s \<Longrightarrow> NodeCount (m_graph s) = N"
  by (auto simp: simplifying_def sinv_def)

text \<open>A probe of some graph with the edges \<open>E\<close> gave the verdict \<open>b\<close>.\<close>

definition probed :: "'d simplifier_env \<Rightarrow> nat \<Rightarrow> SEdge list \<Rightarrow> bool \<Rightarrow> bool" where
  "probed env N E b \<longleftrightarrow> (\<exists>h. graph_inv h \<and> NodeCount h = N \<and> m_edges h = E \<and> EnumerationExceedsBudget env h = Some b)"

lemma probedI:
  assumes "simplifying N E0 s" "EnumerationExceedsBudget env (m_graph s) = Some b"
  shows "probed env N (edges_after E0 (known_steps s) (length (m_applied s))) b"
  using assms simplifying_graph[OF assms(1)] current_edges[OF assms(1)] unfolding probed_def by metis

lemma simplify_grow_spec:
  assumes "top_ok env" "sinv N E0 A s" "m_unapplied s = []" "applied = length (m_applied s)" "applied \<le> upper" "1 \<le> upper"
    and "2 * card A + (if applied < upper then 0 else 1) < fuel"
  shows "\<exists>r. simplify_grow fuel env upper applied s = Some r \<and>
    (case r of GiveUp s' \<Rightarrow> simplifying N E0 s' \<and> m_applied s' = []
     | Proceed k s' \<Rightarrow> simplifying N E0 s' \<and> m_unapplied s' = [] \<and> k = length (m_applied s') \<and>
         EnumerationExceedsBudget env (m_graph s') = Some False)"
  using assms(2-)
proof (induction fuel arbitrary: upper applied s A)
  case (Suc fuel)
  note s = simplifyingI[OF Suc.prems(1)]
  show ?case
  proof (cases "applied < upper")
    case True
    obtain b s' A' where step: "ApplyStep env s = Some (b, s')" "A' \<subseteq> A" "sinv N E0 A' s'" "m_unapplied s' = []"
      "if b then A' \<noteq> A \<and> length (m_applied s') = Suc (length (m_applied s)) else m_applied s' = m_applied s"
      using ApplyStep_fresh[OF assms(1) Suc.prems(1,2)] by blast
    note s' = simplifyingI[OF step(3)]
    show ?thesis
    proof (cases b)
      case b: True
      then have "A' \<subset> A" "length (m_applied s') = Suc applied"
        using step(2,5) Suc.prems(3) by auto
      moreover have "finite A"
        using Suc.prems(1) by (simp add: sinv_def)
      ultimately have "card A' < card A"
        by (simp add: psubset_card_mono)
      then have "\<exists>r. simplify_grow fuel env upper (applied + 1) s' = Some r \<and>
          (case r of GiveUp s' \<Rightarrow> simplifying N E0 s' \<and> m_applied s' = []
           | Proceed k s' \<Rightarrow> simplifying N E0 s' \<and> m_unapplied s' = [] \<and> k = length (m_applied s') \<and>
               EnumerationExceedsBudget env (m_graph s') = Some False)"
        using True Suc.prems(5,6) \<open>length (m_applied s') = Suc applied\<close> by (intro Suc.IH[OF step(3,4)]) auto
      then show ?thesis
        using True step(1) b by simp
    next
      case b: False
      obtain v where v: "EnumerationExceedsBudget env (m_graph s') = Some v"
        using EnumerationExceedsBudget_total[OF simplifying_graph(1)[OF s']] by blast
      obtain s'' where "ApplySteps env 0 s' = Some (True, s'')" "simplifying N E0 s''" "m_applied s'' = []"
        using ApplySteps_spec[OF assms(1) s', of 0] by auto
      then show ?thesis
        using True step(1,4,5) b v s' Suc.prems(3) by (cases v) auto
    qed
  next
    case False
    obtain v where v: "EnumerationExceedsBudget env (m_graph s) = Some v"
      using EnumerationExceedsBudget_total[OF simplifying_graph(1)[OF s]] by blast
    show ?thesis
    proof (cases v)
      case True
      have "\<exists>r. simplify_grow fuel env (upper * 2) applied s = Some r \<and>
          (case r of GiveUp s' \<Rightarrow> simplifying N E0 s' \<and> m_applied s' = []
           | Proceed k s' \<Rightarrow> simplifying N E0 s' \<and> m_unapplied s' = [] \<and> k = length (m_applied s') \<and>
               EnumerationExceedsBudget env (m_graph s') = Some False)"
        using False Suc.prems(4,5,6) by (intro Suc.IH[OF Suc.prems(1-3)]) auto
      then show ?thesis
        using False v True by simp
    qed (use False v s Suc.prems(2,3) in simp)
  qed
qed simp

lemma simplify_search_spec:
  assumes "simplifying N E0 s" "known_steps s = T" "length T = k" "lower \<le> upper" "upper \<le> k + 1"
    and "upper \<le> k \<Longrightarrow> probed env N (edges_after E0 T upper) False"
    and "k < lower \<Longrightarrow> probed env N (edges_after E0 T k) True"
  shows "\<exists>u s'. simplify_search env lower upper s = Some (u, s') \<and> simplifying N E0 s' \<and> known_steps s' = T \<and>
    (u \<le> k \<and> probed env N (edges_after E0 T u) False \<or> probed env N (edges_after E0 T k) True)"
  using assms
proof (induction "upper - lower" arbitrary: lower upper s rule: less_induct)
  case less
  show ?case
  proof (cases "lower < upper")
    case True
    let ?m = "lower + (upper - lower) div 2"
    have m: "lower \<le> ?m" "?m < upper"
      using True by auto
    obtain s' where s': "ApplySteps env ?m s = Some (True, s')" "simplifying N E0 s'" "known_steps s' = T" "length (m_applied s') = ?m"
      using ApplySteps_known[OF less.prems(1), of ?m env] less.prems(2,3,5) m(2) by auto
    obtain v where v: "EnumerationExceedsBudget env (m_graph s') = Some v"
      using EnumerationExceedsBudget_total[OF simplifying_graph(1)[OF s'(2)]] by blast
    then have probe: "probed env N (edges_after E0 T ?m) v"
      using probedI[OF s'(2) v] s'(3,4) by simp
    have unfold: "simplify_search env lower upper s =
        (if v then simplify_search env (?m + 1) upper s' else simplify_search env lower ?m s')"
      using True s'(1) v by (subst simplify_search.simps) (simp add: Let_def)
    show ?thesis
    proof (cases v)
      case v: True
      have last: "probed env N (edges_after E0 T k) True" if "k < ?m + 1"
      proof -
        have "k = ?m"
          using that m(2) less.prems(5) by linarith
        then show ?thesis
          using probe v by simp
      qed
      then show ?thesis
        unfolding unfold if_P[OF v] using m less.prems(3,5,6) by (intro less.hyps[OF _ s'(2,3)]) auto
    next
      case False
      then show ?thesis
        unfolding unfold if_not_P[OF False] using m less.prems(3,5,7) probe by (intro less.hyps[OF _ s'(2,3)]) auto
    qed
  next
    case False
    then have "simplify_search env lower upper s = Some (upper, s)"
      by (subst simplify_search.simps) simp
    then show ?thesis
      using False less.prems by (cases "upper \<le> k") auto
  qed
qed

text \<open>Two graphs with the same edges on which the enumeration gives different verdicts.\<close>

definition verdict_depends_on_index :: "'d simplifier_env \<Rightarrow> bool" where
  "verdict_depends_on_index env \<longleftrightarrow> (\<exists>h h'. graph_inv h \<and> graph_inv h' \<and> same_index h h' \<and>
     EnumerationExceedsBudget env h \<noteq> EnumerationExceedsBudget env h')"

lemma probed_both: "probed env N E True \<Longrightarrow> probed env N E False \<Longrightarrow> verdict_depends_on_index env"
  unfolding probed_def verdict_depends_on_index_def using same_indexI by (metis option.inject)

lemma Simplify_spec:
  assumes "top_ok env" "sinv N E0 A s" "m_applied s = []" "m_unapplied s = []" "card A \<le> length (m_best s) * length (m_best s)"
  shows "\<exists>b s'. Simplify env s = Some (b, s') \<and> simplifying N E0 s' \<and> (b \<longleftrightarrow> m_applied s' \<noteq> []) \<and>
    (b \<longrightarrow> probed env N (m_edges (m_graph s')) False \<or> verdict_depends_on_index env)"
proof -
  obtain r where r: "simplify_grow (2 * (length (m_best s) * length (m_best s)) + 2) env 1 0 s = Some r"
    "case r of GiveUp s' \<Rightarrow> simplifying N E0 s' \<and> m_applied s' = []
     | Proceed k s' \<Rightarrow> simplifying N E0 s' \<and> m_unapplied s' = [] \<and> k = length (m_applied s') \<and>
         EnumerationExceedsBudget env (m_graph s') = Some False"
    using simplify_grow_spec[OF assms(1,2,4), of 0 1 "2 * (length (m_best s) * length (m_best s)) + 2"] assms(3,5) by auto
  show ?thesis
  proof (cases r)
    case (GiveUp s')
    then show ?thesis
      using r by (auto simp: Simplify_def)
  next
    case (Proceed k s1)
    then have s1: "simplifying N E0 s1" "length (known_steps s1) = k" "k = length (m_applied s1)"
      "EnumerationExceedsBudget env (m_graph s1) = Some False"
      using r(2) by (auto simp: known_steps_def)
    let ?T = "known_steps s1"
    have k: "probed env N (edges_after E0 ?T k) False"
      using probedI[OF s1(1,4)] s1(3) by simp
    from simplify_search_spec[OF s1(1) refl s1(2), of 0 "k + 1" env] obtain u s2 where search:
      "simplify_search env 0 (k + 1) s1 = Some (u, s2)" "simplifying N E0 s2" "known_steps s2 = ?T"
      "u \<le> k \<and> probed env N (edges_after E0 ?T u) False \<or> verdict_depends_on_index env"
      using probed_both[OF _ k] by auto
    obtain b s3 where goto: "ApplySteps env u s2 = Some (b, s3)" "simplifying N E0 s3"
        "b \<longrightarrow> length (m_applied s3) = u"
      using ApplySteps_spec[OF assms(1) search(2), of u] by blast
    obtain s4 where undo: "ApplySteps env 0 s3 = Some (True, s4)" "simplifying N E0 s4" "m_applied s4 = []"
      using ApplySteps_spec[OF assms(1) goto(2), of 0] by auto
    have fits: "probed env N (m_edges (m_graph s3)) False" if u: "u \<le> k \<and> probed env N (edges_after E0 ?T u) False"
    proof -
      obtain s3' where "ApplySteps env u s2 = Some (True, s3')" "known_steps s3' = ?T" "length (m_applied s3') = u"
        using ApplySteps_known[OF search(2), of u env] u search(3) s1(2) by auto
      then show ?thesis
        using current_edges[OF goto(2)] goto(1) u by simp
    qed
    have unfold: "Simplify env s = (if b then Some (0 < length (m_applied s3), s3) else Some (False, s4))"
      using r(1) Proceed search(1) goto(1) undo(1) by (simp add: Simplify_def)
    show ?thesis
      unfolding unfold using goto undo fits search(4) by (cases b) auto
  qed
qed

subsection \<open>The initial state\<close>

lemma ExtractJoinDependencies_inv:
  assumes "order_inv (LogicalEdgeCount g) R order"
  shows "\<exists>R'. order_inv (LogicalEdgeCount g) R' (ExtractJoinDependencies g order)"
proof -
  let ?n = "LogicalEdgeCount g"
  have add: "\<exists>R'. order_inv ?n R' (snd (TryAdd a b ord))" if "\<exists>R. order_inv ?n R ord" "a < ?n" "b < ?n" for a b ord
    using that TryAdd_closure(2,3) by metis
  define ok where "ok ord \<longleftrightarrow> (\<exists>R. order_inv ?n R ord)" for ord
  have "ok (ExtractJoinDependencies g order)"
    unfolding ExtractJoinDependencies_def
  proof (rule fold_invariant[where Q = "\<lambda>e. e < ?n" and P = ok])
    fix edge1 ord assume "edge1 < ?n" "ok ord"
    then show "ok (fold (\<lambda>edge2 order.
         if FSubset (PbsUsedNodes g edge1) (PbsUsedNodes g edge2) then snd (TryAdd edge1 edge2 order)
         else if FSubset (PbsUsedNodes g edge2) (PbsUsedNodes g edge1) then snd (TryAdd edge2 edge1 order)
         else order) [edge1 + 1..<?n] ord)"
      by (intro fold_invariant[where Q = "\<lambda>e. e < ?n" and P = ok]) (auto simp: ok_def add)
  qed (use assms ok_def in auto)
  then show ?thesis
    by (simp add: ok_def)
qed

lemma simplifier_new_spec:
  assumes "graph_inv g"
  shows "\<exists>A. sinv (NodeCount g) (m_edges g) A (simplifier_new env g) \<and> m_applied (simplifier_new env g) = [] \<and>
    m_unapplied (simplifier_new env g) = [] \<and>
    card A \<le> length (m_best (simplifier_new env g)) * length (m_best (simplifier_new env g))"
proof -
  let ?n = "LogicalEdgeCount g" and ?N = "NodeCount g" and ?E = "m_edges g"
  obtain R where R: "order_inv ?n R (ExtractJoinDependencies g (order_new ?n))"
    using ExtractJoinDependencies_inv order_new_inv by blast
  let ?A = "free_pairs ?n R"
  define s0 :: "'a CDPHyperGraphSimplifier" where
    "s0 = \<lparr>m_graph = g, m_order = ExtractJoinDependencies g (order_new ?n),
        m_best = replicate ?n \<lparr>m_best_neighbor = -1, m_step = None, m_in_queue = False\<rparr>,
        m_queue = [], m_applied = [], m_unapplied = []\<rparr>"
  have n: "?n = length ?E div 2"
    by (simp add: LogicalEdgeCount_def)
  have rank0: "rank_inv ?N ?n ?E R s0"
    using assms R n by (simp add: rank_inv_def s0_def)
  have rounds: "q_inv ?n (good ?N ?E ?A) (fold (\<lambda>edge. ProcessNeighbors env edge (edge + 1) ?n) es t) \<and>
      frame (fold (\<lambda>edge. ProcessNeighbors env edge (edge + 1) ?n) es t) = frame s0"
    if "q_inv ?n (good ?N ?E ?A) t" "frame t = frame s0" "set es \<subseteq> {..<?n}" for es t
    using that
  proof (induction es arbitrary: t)
    case (Cons e es)
    have "q_inv ?n (\<lambda>i nb st. i = e \<or> False \<or> good ?N ?E ?A i nb st) t"
      by (rule q_inv_mono[OF Cons.prems(1)]) simp
    moreover have "rank_inv ?N ?n ?E R t"
      using rank0 rank_inv_frame[OF Cons.prems(2)] by blast
    ultimately have "q_inv ?n (good ?N ?E ?A) (scan_later env e (Suc e) ?n t) \<and> frame (scan_later env e (Suc e) ?n t) = frame t"
      using rescan_good[of ?N ?n ?E R t ?A e ?n "\<lambda>_ _. False" env "Suc e"] Cons.prems(3) by simp
    then show ?case
      using Cons.IH[of "scan_later env e (Suc e) ?n t"] Cons.prems(2,3) by (simp add: ProcessNeighbors_later)
  qed simp
  have new: "simplifier_new env g = fold (\<lambda>edge. ProcessNeighbors env edge (edge + 1) ?n) [0..<?n] s0"
    by (simp add: simplifier_new_def InitFirstStep_def s0_def Let_def)
  have "q_inv ?n (good ?N ?E ?A) s0"
    by (auto simp: q_inv_def s0_def)
  then have s: "q_inv ?n (good ?N ?E ?A) (simplifier_new env g)" "frame (simplifier_new env g) = frame s0"
    using rounds[of s0 "[0..<?n]"] unfolding new by (auto simp: atLeast0LessThan)
  then have same: "m_graph (simplifier_new env g) = g" "m_applied (simplifier_new env g) = []" "m_unapplied (simplifier_new env g) = []"
    "order_inv ?n R (m_order (simplifier_new env g))" "length (m_best (simplifier_new env g)) = ?n"
    using R by (auto simp: frame_def s0_def q_inv_def)
  have sub: "?A \<subseteq> {..<?n} \<times> {..<?n}"
    by (auto simp: free_pairs_def)
  then have "finite ?A" "card ?A \<le> ?n * ?n"
    using finite_subset card_mono[OF _ sub] by auto
  then have "sinv ?N ?E ?A (simplifier_new env g)"
    unfolding sinv_def same(1-3) using assms same(4) s(1) n
    by (intro conjI exI[of _ ?E] exI[of _ R]) (simp_all add: graph_inv_def)
  then show ?thesis
    using same \<open>card ?A \<le> ?n * ?n\<close> by auto
qed

subsection \<open>Properties\<close>

lemma Simplify_new:
  assumes "graph_inv g" "top_ok env"
  obtains b s where "Simplify env (simplifier_new env g) = Some (b, s)" "simplifying (NodeCount g) (m_edges g) s"
    "b \<longleftrightarrow> m_applied s \<noteq> []"
    "b \<Longrightarrow> probed env (NodeCount g) (m_edges (m_graph s)) False \<or> verdict_depends_on_index env"
proof -
  obtain A where A: "sinv (NodeCount g) (m_edges g) A (simplifier_new env g)" "m_applied (simplifier_new env g) = []"
    "m_unapplied (simplifier_new env g) = []"
    "card A \<le> length (m_best (simplifier_new env g)) * length (m_best (simplifier_new env g))"
    using simplifier_new_spec[OF assms(1), of env] by blast
  from Simplify_spec[OF assms(2) A] that show thesis
    by blast
qed

lemma simplifying_same_index:
  assumes "graph_inv g" "simplifying (NodeCount g) (m_edges g) s" "m_applied s = []"
  shows "same_index g (m_graph s)"
  using assms simplifying_graph[OF assms(2)] simplifying_original[OF assms(2,3)] by (intro same_indexI) simp_all

lemma simplifying_widened:
  assumes "simplifying N E0 s"
  shows "list_all2 widened E0 (m_edges (m_graph s))"
proof -
  have c: "chain N E0 (rev (m_applied s)) (m_edges (m_graph s))" "edges_ok N E0"
    using assms by (auto simp: simplifying_def sinv_def)
  then show ?thesis
    using chain_edges_ok[OF c] chain_widened[OF c] by (simp add: list_all2_conv_all_nth)
qed

lemma joinable_widened:
  assumes "joinable h flt S" "list_all2 widened (m_edges g) (m_edges h)" "NodeCount h = NodeCount g"
  shows "joinable g flt S"
  using assms(1)
proof induction
  case (joinable_single n)
  then show ?case
    using assms(3) by (simp add: joinable.joinable_single)
next
  case (joinable_pair S C e)
  have "edge_between g S C e"
    using joinable_pair.hyps(4) assms(2) unfolding edge_between_def list_all2_conv_all_nth widened_def by fastforce
  moreover have "pair_ok g S C"
    using joinable_pair.hyps(3) assms(3) by (simp add: pair_ok_def)
  ultimately show ?case
    using joinable_pair.IH joinable_pair.hyps(5) by (intro joinable.joinable_pair)
qed

text \<open>
  \<^bold>\<open>C5\<close> The simplifier ends on every well-formed graph.  It reports success exactly when steps remain
  applied; the graph stays well-formed with every edge only widened, and when it reports failure the
  graph is the original one.  \<^verbatim>\<open>Restore\<close> always brings the original graph back.
\<close>
theorem simplifier_ends_and_restores:
  assumes "graph_inv g" and "top_ok env"
  shows "\<exists>b s. Simplify env (simplifier_new env g) = Some (b, s) \<and> (b \<longleftrightarrow> m_applied s \<noteq> []) \<and>
    graph_inv (m_graph s) \<and> list_all2 widened (m_edges g) (m_edges (m_graph s)) \<and>
    (\<not> b \<longrightarrow> same_index g (m_graph s)) \<and>
    (\<exists>s'. Restore env s = Some s' \<and> m_applied s' = [] \<and> same_index g (m_graph s'))"
proof -
  obtain b s where s: "Simplify env (simplifier_new env g) = Some (b, s)" "simplifying (NodeCount g) (m_edges g) s"
    "b \<longleftrightarrow> m_applied s \<noteq> []"
    using Simplify_new[OF assms] by blast
  obtain s' where "ApplySteps env 0 s = Some (True, s')" "simplifying (NodeCount g) (m_edges g) s'" "m_applied s' = []"
    using ApplySteps_spec[OF assms(2) s(2), of 0] by auto
  then have "Restore env s = Some s'" "m_applied s' = []" "same_index g (m_graph s')"
    using simplifying_same_index[OF assms(1)] by (simp_all add: Restore_def)
  then show ?thesis
    using s simplifying_graph(1)[OF s(2)] simplifying_widened[OF s(2)] simplifying_same_index[OF assms(1) s(2)]
    by (intro exI[of _ b] exI[of _ s]) blast
qed

definition sample_env :: "nat simplifier_env" where
  "sample_env = \<lparr>env_pair_budget = 3, env_pair_filter = None, env_edge_filter = (\<lambda>_. True),
     env_join_cost = (\<lambda>A B. Some (card A * card B)), env_less = (<), env_leq = (\<le>), env_divide = (div),
     env_zero = 0, env_max = 1000, env_top = (\<lambda>q _. hd q)\<rparr>"

lemma sample_top_ok: "top_ok sample_env"
  by (simp add: top_ok_def sample_env_def)

theorem simplifier_ends_and_restores_witness:
  "\<exists>b s s'. Simplify sample_env (simplifier_new sample_env (AddEdge {0} {1} 7 (graph_new 2))) = Some (b, s) \<and>
     Restore sample_env s = Some s' \<and> same_index (AddEdge {0} {1} 7 (graph_new 2)) (m_graph s')"
  using simplifier_ends_and_restores[OF two_node_graph(1) sample_top_ok] by blast



text \<open>
  \<^bold>\<open>C6\<close> Simplification removes join orders and never adds one: a set of nodes that can be built by joins
  along the edges of the simplified graph can be built by the same joins along the edges of the original.
\<close>
theorem simplified_joins_are_joins:
  assumes "graph_inv g" and "top_ok env" and "Simplify env (simplifier_new env g) = Some (b, s)"
    and "joinable (m_graph s) flt S"
  shows "joinable g flt S"
proof -
  have s: "simplifying (NodeCount g) (m_edges g) s"
    by (rule Simplify_new[OF assms(1,2)]) (use assms(3) in simp)
  show ?thesis
    by (rule joinable_widened[OF assms(4) simplifying_widened[OF s] simplifying_graph(2)[OF s]])
qed

theorem simplified_joins_are_joins_witness:
  "joinable (AddEdge {0} {1} 7 (graph_new 2)) (\<lambda>_ _ _. True) {1}"
proof -
  let ?g = "AddEdge {0} {1} 7 (graph_new 2)"
  obtain b s where s: "Simplify sample_env (simplifier_new sample_env ?g) = Some (b, s)"
      "simplifying (NodeCount ?g) (m_edges ?g) s"
    using Simplify_new[OF two_node_graph(1) sample_top_ok] by blast
  have "joinable (m_graph s) (\<lambda>_ _ _. True) {1}"
    using simplifying_graph(2)[OF s(2)] two_node_graph(2) by (intro joinable.joinable_single) simp
  then show ?thesis
    by (rule simplified_joins_are_joins[OF two_node_graph(1) sample_top_ok s(1)])
qed

end
