(* ===== verification/Comparator.thy ===== *)
theory Comparator
  imports Prelude "HOL-Library.Option_ord"
begin

text \<open>
  Datums and their comparison: the statistics order of \<^verbatim>\<open>libnaucrates/src/base/IDatum.cpp\<close>, the type
  tests of \<^verbatim>\<open>CUtils.cpp\<close>, and \<^verbatim>\<open>libgpopt/src/base/CDefaultComparator.cpp\<close>, which chooses between that
  order and an external evaluator of constant expressions and raises an exception when neither applies.

  The context record holds what the optimizer context supplies: type information from the metadata
  accessor, trace flags, the external evaluator, and the operations of \<^verbatim>\<open>CDouble\<close>.  The contract that
  clients rely on is the locale \<open>datum_order\<close>: on a family of datums the five comparisons are the
  comparisons of a linearly ordered key.
\<close>

subsection \<open>Types and datums\<close>

datatype ETypeInfo = EtiInt2 | EtiInt4 | EtiInt8 | EtiBool | EtiOid | EtiGeneric

datatype ECmpType = EcmptEq | EcmptNEq | EcmptL | EcmptLEq | EcmptG | EcmptGEq | EcmptIDF | EcmptOther

datatype mdid =
  m_mdid_bool | m_mdid_numeric | m_mdid_date | m_mdid_time | m_mdid_timeTz | m_mdid_timestamp
| m_mdid_timestampTz | m_mdid_float4 | m_mdid_float8 | mdid_of nat

text \<open>
  A datum with its two statistics mappings (\<^verbatim>\<open>IsDatumMappableTo...\<close> is being \<open>Some\<close>) and, for the generic
  class, its bytes.
\<close>

record 'd IDatum =
  GetDatumType :: ETypeInfo
  MDId :: mdid
  IsNull :: bool
  LINTMapping :: "int option"
  DoubleMapping :: "'d option"
  GetByteArrayValue :: "byte list"

record 'd opt_ctxt =
  RetrieveType :: "mdid \<Rightarrow> ETypeInfo"
  FHasAllDefaultComparisons :: "mdid \<Rightarrow> bool"
  EopttraceEnableConstantExpressionEvaluation :: bool
  EopttraceUseExternalConstantExpressionEvaluationForInts :: bool
  EopttraceArrayConstraints :: bool
  EopttraceConsiderOpfamiliesForDistribution :: bool
  PexprEval_cmp :: "ECmpType \<Rightarrow> 'd IDatum \<Rightarrow> 'd IDatum \<Rightarrow> bool option"
  double_minus :: "'d \<Rightarrow> 'd \<Rightarrow> 'd"
  double_Absolute :: "'d \<Rightarrow> 'd"
  double_leq :: "'d \<Rightarrow> 'd \<Rightarrow> bool"
  double_less :: "'d \<Rightarrow> 'd \<Rightarrow> bool"
  Epsilon :: 'd
  double_of_bool :: "bool \<Rightarrow> 'd"

definition FIntType :: "'d opt_ctxt \<Rightarrow> mdid \<Rightarrow> bool" where
  "FIntType ctxt mdid_type = (let type_info = RetrieveType ctxt mdid_type in
     type_info = EtiInt2 \<or> type_info = EtiInt4 \<or> type_info = EtiInt8)"

definition FConstrainableType :: "'d opt_ctxt \<Rightarrow> mdid \<Rightarrow> bool" where
  "FConstrainableType ctxt mdid_type =
     (if FIntType ctxt mdid_type then True
      else if EopttraceEnableConstantExpressionEvaluation ctxt
      then FHasAllDefaultComparisons ctxt mdid_type
      else mdid_type = m_mdid_date \<or> mdid_type = m_mdid_bool \<or> mdid_type = m_mdid_time \<or>
           mdid_type = m_mdid_timestamp \<or> mdid_type = m_mdid_timeTz \<or> mdid_type = m_mdid_timestampTz \<or>
           mdid_type = m_mdid_float4 \<or> mdid_type = m_mdid_float8 \<or> mdid_type = m_mdid_numeric)"

definition CreateBoolDatum :: "'d opt_ctxt \<Rightarrow> bool \<Rightarrow> bool \<Rightarrow> 'd IDatum" where
  "CreateBoolDatum ctxt val is_null =
     \<lparr>GetDatumType = EtiBool, MDId = m_mdid_bool, IsNull = is_null,
      LINTMapping = Some (if val \<and> \<not> is_null then 1 else 0),
      DoubleMapping = Some (double_of_bool ctxt (val \<and> \<not> is_null)), GetByteArrayValue = []\<rparr>"

subsection \<open>Statistics order\<close>

definition IsDatumMappableToLINT :: "'d IDatum \<Rightarrow> bool" where
  "IsDatumMappableToLINT d \<longleftrightarrow> LINTMapping d \<noteq> None"

definition IsDatumMappableToDouble :: "'d IDatum \<Rightarrow> bool" where
  "IsDatumMappableToDouble d \<longleftrightarrow> DoubleMapping d \<noteq> None"

definition StatsAreComparable :: "'d IDatum \<Rightarrow> 'd IDatum \<Rightarrow> bool" where
  "StatsAreComparable this datum \<longleftrightarrow>
     IsDatumMappableToDouble this \<and> IsDatumMappableToDouble datum \<or>
     IsDatumMappableToLINT this \<and> IsDatumMappableToLINT datum"

definition IDatum_StatsAreEqual :: "'d opt_ctxt \<Rightarrow> 'd IDatum \<Rightarrow> 'd IDatum \<Rightarrow> bool" where
  "IDatum_StatsAreEqual ctxt this datum =
     (if IsNull this then IsNull datum
      else if IsNull datum then False
      else if IsDatumMappableToLINT this \<and> IsDatumMappableToLINT datum
      then the (LINTMapping this) = the (LINTMapping datum)
      else let diff = double_minus ctxt (the (DoubleMapping this)) (the (DoubleMapping datum)) in
           double_leq ctxt (double_Absolute ctxt diff) (Epsilon ctxt))"

definition StatsAreLessThan :: "'d opt_ctxt \<Rightarrow> 'd IDatum \<Rightarrow> 'd IDatum \<Rightarrow> bool" where
  "StatsAreLessThan ctxt this datum =
     (if IsNull this then \<not> IsNull datum
      else if IsNull datum then False
      else if IsDatumMappableToLINT this \<and> IsDatumMappableToLINT datum
      then the (LINTMapping this) < the (LINTMapping datum)
      else let diff = double_minus ctxt (the (DoubleMapping datum)) (the (DoubleMapping this)) in
           double_less ctxt (Epsilon ctxt) diff)"

definition StatsAreGreaterThan :: "'d opt_ctxt \<Rightarrow> 'd IDatum \<Rightarrow> 'd IDatum \<Rightarrow> bool" where
  "StatsAreGreaterThan ctxt this datum \<longleftrightarrow>
     StatsAreComparable datum this \<and> StatsAreLessThan ctxt datum this"

definition Generic_StatsAreEqual :: "'d opt_ctxt \<Rightarrow> 'd IDatum \<Rightarrow> 'd IDatum \<Rightarrow> bool" where
  "Generic_StatsAreEqual ctxt this datum =
     (if IsDatumMappableToLINT this \<or> IsDatumMappableToDouble this
      then IDatum_StatsAreEqual ctxt this datum
      else if IsNull this \<or> IsNull datum then IsNull this \<and> IsNull datum
      else GetByteArrayValue this = GetByteArrayValue datum)"

text \<open>The virtual call: the generic class overrides equality.\<close>

definition StatsAreEqual :: "'d opt_ctxt \<Rightarrow> 'd IDatum \<Rightarrow> 'd IDatum \<Rightarrow> bool" where
  "StatsAreEqual ctxt this datum =
     (if GetDatumType this = EtiGeneric then Generic_StatsAreEqual ctxt this datum
      else IDatum_StatsAreEqual ctxt this datum)"

subsection \<open>The default comparator\<close>

datatype gpopt_exn = ExmiUnsupportedOp

text \<open>
  The external evaluator is asked for the comparison of two constants and answers with a boolean
  datum; the value that \<^verbatim>\<open>GetValue\<close> reads from a null answer is false.
\<close>

definition FEvalComparison :: "'d opt_ctxt \<Rightarrow> 'd IDatum \<Rightarrow> 'd IDatum \<Rightarrow> ECmpType \<Rightarrow> bool" where
  "FEvalComparison ctxt datum1 datum2 cmp_type =
     (case PexprEval_cmp ctxt cmp_type datum1 datum2 of None \<Rightarrow> False | Some v \<Rightarrow> v)"

definition can_use_external :: "'d opt_ctxt \<Rightarrow> 'd IDatum \<Rightarrow> 'd IDatum \<Rightarrow> bool" where
  "can_use_external ctxt datum1 datum2 \<longleftrightarrow>
     EopttraceEnableConstantExpressionEvaluation ctxt \<and>
     FConstrainableType ctxt (MDId datum1) \<and> FConstrainableType ctxt (MDId datum2)"

definition precise_type :: "mdid \<Rightarrow> bool" where
  "precise_type mdid \<longleftrightarrow>
     mdid = m_mdid_date \<or> mdid = m_mdid_bool \<or> mdid = m_mdid_time \<or> mdid = m_mdid_timestamp \<or>
     mdid = m_mdid_float4 \<or> mdid = m_mdid_float8 \<or> mdid = m_mdid_numeric"

definition FUseInternalEvaluator ::
  "'d opt_ctxt \<Rightarrow> 'd IDatum \<Rightarrow> 'd IDatum \<Rightarrow> gpopt_exn + bool \<times> bool" where
  "FUseInternalEvaluator ctxt datum1 datum2 =
     (let mdid1 = MDId datum1; mdid2 = MDId datum2;
          can_use_external_evaluator = can_use_external ctxt datum1 datum2 in
      if FIntType ctxt mdid1 \<and> FIntType ctxt mdid2 \<and>
         \<not> (can_use_external_evaluator \<and>
            EopttraceUseExternalConstantExpressionEvaluationForInts ctxt)
      then Inr (True, can_use_external_evaluator)
      else if mdid1 = mdid2 \<and> StatsAreComparable datum1 datum2 \<and> precise_type mdid1
      then Inr (True, can_use_external_evaluator)
      else if \<not> can_use_external_evaluator then Inl ExmiUnsupportedOp
      else Inr (False, can_use_external_evaluator))"

definition cmp_dispatch ::
  "'d opt_ctxt \<Rightarrow> 'd IDatum \<Rightarrow> 'd IDatum \<Rightarrow> bool \<Rightarrow> bool \<Rightarrow> bool \<Rightarrow> gpopt_exn + bool" where
  "cmp_dispatch ctxt datum1 datum2 internal null_case external =
     (case FUseInternalEvaluator ctxt datum1 datum2 of
        Inl e \<Rightarrow> Inl e
      | Inr (use_internal, can_use_external_evaluator) \<Rightarrow>
          if use_internal then Inr internal
          else if \<not> can_use_external_evaluator then Inr False
          else if null_case then Inr True
          else Inr external)"

definition cmp_Equals :: "'d opt_ctxt \<Rightarrow> 'd IDatum \<Rightarrow> 'd IDatum \<Rightarrow> gpopt_exn + bool" where
  "cmp_Equals ctxt datum1 datum2 =
     cmp_dispatch ctxt datum1 datum2 (StatsAreEqual ctxt datum1 datum2)
       (IsNull datum1 \<and> IsNull datum2) (FEvalComparison ctxt datum1 datum2 EcmptEq)"

definition cmp_IsLessThan :: "'d opt_ctxt \<Rightarrow> 'd IDatum \<Rightarrow> 'd IDatum \<Rightarrow> gpopt_exn + bool" where
  "cmp_IsLessThan ctxt datum1 datum2 =
     cmp_dispatch ctxt datum1 datum2 (StatsAreLessThan ctxt datum1 datum2)
       (IsNull datum1 \<and> \<not> IsNull datum2) (FEvalComparison ctxt datum1 datum2 EcmptL)"

definition cmp_IsLessThanOrEqual :: "'d opt_ctxt \<Rightarrow> 'd IDatum \<Rightarrow> 'd IDatum \<Rightarrow> gpopt_exn + bool" where
  "cmp_IsLessThanOrEqual ctxt datum1 datum2 =
     cmp_dispatch ctxt datum1 datum2
       (StatsAreLessThan ctxt datum1 datum2 \<or> StatsAreEqual ctxt datum1 datum2)
       (IsNull datum1) (FEvalComparison ctxt datum1 datum2 EcmptLEq)"

definition cmp_IsGreaterThan :: "'d opt_ctxt \<Rightarrow> 'd IDatum \<Rightarrow> 'd IDatum \<Rightarrow> gpopt_exn + bool" where
  "cmp_IsGreaterThan ctxt datum1 datum2 =
     cmp_dispatch ctxt datum1 datum2 (StatsAreGreaterThan ctxt datum1 datum2)
       (\<not> IsNull datum1 \<and> IsNull datum2) (FEvalComparison ctxt datum1 datum2 EcmptG)"

definition cmp_IsGreaterThanOrEqual ::
  "'d opt_ctxt \<Rightarrow> 'd IDatum \<Rightarrow> 'd IDatum \<Rightarrow> gpopt_exn + bool" where
  "cmp_IsGreaterThanOrEqual ctxt datum1 datum2 =
     cmp_dispatch ctxt datum1 datum2
       (StatsAreGreaterThan ctxt datum1 datum2 \<or> StatsAreEqual ctxt datum1 datum2)
       (IsNull datum2) (FEvalComparison ctxt datum1 datum2 EcmptGEq)"

text \<open>
  The interface \<^verbatim>\<open>IComparator\<close> as clients call it; the value is that of a call that returns.
\<close>

record 'd IComparator =
  Equals :: "'d IDatum \<Rightarrow> 'd IDatum \<Rightarrow> bool"
  IsLessThan :: "'d IDatum \<Rightarrow> 'd IDatum \<Rightarrow> bool"
  IsLessThanOrEqual :: "'d IDatum \<Rightarrow> 'd IDatum \<Rightarrow> bool"
  IsGreaterThan :: "'d IDatum \<Rightarrow> 'd IDatum \<Rightarrow> bool"
  IsGreaterThanOrEqual :: "'d IDatum \<Rightarrow> 'd IDatum \<Rightarrow> bool"

definition Pcomp :: "'d opt_ctxt \<Rightarrow> 'd IComparator" where
  "Pcomp ctxt = \<lparr>
     Equals = \<lambda>a b. projr (cmp_Equals ctxt a b),
     IsLessThan = \<lambda>a b. projr (cmp_IsLessThan ctxt a b),
     IsLessThanOrEqual = \<lambda>a b. projr (cmp_IsLessThanOrEqual ctxt a b),
     IsGreaterThan = \<lambda>a b. projr (cmp_IsGreaterThan ctxt a b),
     IsGreaterThanOrEqual = \<lambda>a b. projr (cmp_IsGreaterThanOrEqual ctxt a b)\<rparr>"

subsection \<open>The contract of a comparator\<close>

locale datum_order =
  fixes pcomp :: "'d IComparator"
    and fam :: "'d IDatum \<Rightarrow> bool"
    and key :: "'d IDatum \<Rightarrow> 'k::linorder"
  assumes Equals_key: "\<lbrakk>fam a; fam b\<rbrakk> \<Longrightarrow> Equals pcomp a b \<longleftrightarrow> key a = key b"
    and IsLessThan_key: "\<lbrakk>fam a; fam b\<rbrakk> \<Longrightarrow> IsLessThan pcomp a b \<longleftrightarrow> key a < key b"
    and IsLessThanOrEqual_key: "\<lbrakk>fam a; fam b\<rbrakk> \<Longrightarrow> IsLessThanOrEqual pcomp a b \<longleftrightarrow> key a \<le> key b"
    and IsGreaterThan_key: "\<lbrakk>fam a; fam b\<rbrakk> \<Longrightarrow> IsGreaterThan pcomp a b \<longleftrightarrow> key b < key a"
    and IsGreaterThanOrEqual_key: "\<lbrakk>fam a; fam b\<rbrakk> \<Longrightarrow> IsGreaterThanOrEqual pcomp a b \<longleftrightarrow> key b \<le> key a"
begin

lemmas cmp_keys =
  Equals_key IsLessThan_key IsLessThanOrEqual_key IsGreaterThan_key IsGreaterThanOrEqual_key

end

subsection \<open>Integers and the precisely mapped types\<close>

text \<open>
  The datums that the internal evaluator compares through their integer mapping: all integer types
  together, or one of the precisely mapped types.  Nulls come first.
\<close>

definition internal_family :: "'d opt_ctxt \<Rightarrow> mdid \<Rightarrow> 'd IDatum \<Rightarrow> bool" where
  "internal_family ctxt m d \<longleftrightarrow> IsDatumMappableToLINT d \<and>
     (if FIntType ctxt m
      then FIntType ctxt (MDId d) \<and>
           \<not> (EopttraceEnableConstantExpressionEvaluation ctxt \<and>
              EopttraceUseExternalConstantExpressionEvaluationForInts ctxt)
      else MDId d = m \<and> precise_type m)"

definition lint_key :: "'d IDatum \<Rightarrow> int option" where
  "lint_key d = (if IsNull d then None else LINTMapping d)"

lemma StatsAreEqual_lint:
  assumes "IsDatumMappableToLINT a" "IsDatumMappableToLINT b"
  shows "StatsAreEqual ctxt a b \<longleftrightarrow> lint_key a = lint_key b"
  using assms
  by (auto simp: StatsAreEqual_def Generic_StatsAreEqual_def IDatum_StatsAreEqual_def
      lint_key_def IsDatumMappableToLINT_def)

lemma StatsAreLessThan_lint:
  assumes "IsDatumMappableToLINT a" "IsDatumMappableToLINT b"
  shows "StatsAreLessThan ctxt a b \<longleftrightarrow> lint_key a < lint_key b"
  using assms by (auto simp: StatsAreLessThan_def lint_key_def IsDatumMappableToLINT_def)

lemma StatsAreGreaterThan_lint:
  assumes "IsDatumMappableToLINT a" "IsDatumMappableToLINT b"
  shows "StatsAreGreaterThan ctxt a b \<longleftrightarrow> lint_key b < lint_key a"
  using assms by (simp add: StatsAreGreaterThan_def StatsAreComparable_def StatsAreLessThan_lint)

lemma internal_familyD: "internal_family ctxt m d \<Longrightarrow> IsDatumMappableToLINT d"
  by (simp add: internal_family_def)

lemma internal_family_dispatch:
  assumes "internal_family ctxt m a" "internal_family ctxt m b"
  shows "cmp_dispatch ctxt a b i n e = Inr i"
  using assms
  by (auto simp: cmp_dispatch_def FUseInternalEvaluator_def Let_def internal_family_def
      can_use_external_def StatsAreComparable_def split: if_splits)

lemmas cmp_defs = cmp_Equals_def cmp_IsLessThan_def cmp_IsLessThanOrEqual_def cmp_IsGreaterThan_def
  cmp_IsGreaterThanOrEqual_def

lemma lint_comparisons:
  assumes "IsDatumMappableToLINT a" "IsDatumMappableToLINT b" "\<And>i n e. cmp_dispatch ctxt a b i n e = Inr i"
  shows "cmp_Equals ctxt a b = Inr (lint_key a = lint_key b)"
    and "cmp_IsLessThan ctxt a b = Inr (lint_key a < lint_key b)"
    and "cmp_IsLessThanOrEqual ctxt a b = Inr (lint_key a \<le> lint_key b)"
    and "cmp_IsGreaterThan ctxt a b = Inr (lint_key b < lint_key a)"
    and "cmp_IsGreaterThanOrEqual ctxt a b = Inr (lint_key b \<le> lint_key a)"
  using assms by (auto simp: cmp_defs StatsAreEqual_lint StatsAreLessThan_lint StatsAreGreaterThan_lint)

interpretation lint: datum_order "Pcomp ctxt" "internal_family ctxt m" lint_key for ctxt m
  by unfold_locales
    (simp_all add: Pcomp_def lint_comparisons internal_familyD[of ctxt m] internal_family_dispatch[of ctxt m])

text \<open>
  The non-null values of a column of type \<open>m\<close>.  Boolean datums carry the type of the metadata's boolean
  type and are compared internally whatever the trace flags are.
\<close>

definition value_family :: "'d opt_ctxt \<Rightarrow> mdid \<Rightarrow> 'd IDatum \<Rightarrow> bool" where
  "value_family ctxt m d \<longleftrightarrow> \<not> IsNull d \<and> IsDatumMappableToLINT d \<and>
     (if RetrieveType ctxt m = EtiBool then MDId d = m_mdid_bool \<and> LINTMapping d \<in> {Some 0, Some 1}
      else internal_family ctxt m d)"

lemma value_family_dispatch:
  assumes "value_family ctxt m a" "value_family ctxt m b"
  shows "cmp_dispatch ctxt a b i n e = Inr i"
proof (cases "RetrieveType ctxt m = EtiBool")
  case True
  then show ?thesis
    using assms
    by (auto simp: value_family_def cmp_dispatch_def FUseInternalEvaluator_def Let_def StatsAreComparable_def
        precise_type_def)
next
  case False
  then show ?thesis
    using assms internal_family_dispatch by (auto simp: value_family_def)
qed

lemma value_familyD: "value_family ctxt m d \<Longrightarrow> IsDatumMappableToLINT d" "value_family ctxt m d \<Longrightarrow> \<not> IsNull d"
  by (simp_all add: value_family_def)

interpretation vals: datum_order "Pcomp ctxt" "value_family ctxt m" lint_key for ctxt m
  by unfold_locales
    (simp_all add: Pcomp_def lint_comparisons value_familyD(1)[of ctxt m] value_family_dispatch[of ctxt m])

subsection \<open>Types of the external evaluator\<close>

text \<open>
  What the comparator relies on for the other types: the evaluator answers null when an operand is
  null, and otherwise compares a linearly ordered value.
\<close>

definition evaluator_orders :: "'d opt_ctxt \<Rightarrow> ('d IDatum \<Rightarrow> bool) \<Rightarrow> ('d IDatum \<Rightarrow> 'v::linorder) \<Rightarrow> bool" where
  "evaluator_orders ctxt fam val \<longleftrightarrow> (\<forall>a b. fam a \<longrightarrow> fam b \<longrightarrow>
     (if IsNull a \<or> IsNull b then \<forall>c. PexprEval_cmp ctxt c a b = None
      else PexprEval_cmp ctxt EcmptEq a b = Some (val a = val b) \<and>
           PexprEval_cmp ctxt EcmptL a b = Some (val a < val b) \<and>
           PexprEval_cmp ctxt EcmptLEq a b = Some (val a \<le> val b) \<and>
           PexprEval_cmp ctxt EcmptG a b = Some (val b < val a) \<and>
           PexprEval_cmp ctxt EcmptGEq a b = Some (val b \<le> val a)))"

definition external_family :: "'d opt_ctxt \<Rightarrow> mdid \<Rightarrow> 'd IDatum \<Rightarrow> bool" where
  "external_family ctxt m d \<longleftrightarrow> MDId d = m \<and> EopttraceEnableConstantExpressionEvaluation ctxt \<and>
     FHasAllDefaultComparisons ctxt m \<and> \<not> FIntType ctxt m \<and> \<not> precise_type m"

definition null_first :: "('d IDatum \<Rightarrow> 'v) \<Rightarrow> 'd IDatum \<Rightarrow> 'v option" where
  "null_first val d = (if IsNull d then None else Some (val d))"

lemma external_family_dispatch:
  assumes "external_family ctxt m a" "external_family ctxt m b"
  shows "cmp_dispatch ctxt a b i n e = Inr (n \<or> e)"
  using assms
  by (auto simp: cmp_dispatch_def FUseInternalEvaluator_def Let_def external_family_def
      can_use_external_def FConstrainableType_def)

lemma external_comparisons:
  assumes "external_family ctxt m a" "external_family ctxt m b"
    and "evaluator_orders ctxt (external_family ctxt m) val"
  shows "cmp_Equals ctxt a b = Inr (null_first val a = null_first val b)"
    and "cmp_IsLessThan ctxt a b = Inr (null_first val a < null_first val b)"
    and "cmp_IsLessThanOrEqual ctxt a b = Inr (null_first val a \<le> null_first val b)"
    and "cmp_IsGreaterThan ctxt a b = Inr (null_first val b < null_first val a)"
    and "cmp_IsGreaterThanOrEqual ctxt a b = Inr (null_first val b \<le> null_first val a)"
  using assms(3)[unfolded evaluator_orders_def, rule_format, OF assms(1,2)]
  by (auto simp: cmp_defs external_family_dispatch[OF assms(1,2)] FEvalComparison_def null_first_def
      split: if_splits)

lemma external_datum_order:
  assumes "evaluator_orders ctxt (external_family ctxt m) val"
  shows "datum_order (Pcomp ctxt) (external_family ctxt m) (null_first val)"
  by unfold_locales (simp_all add: Pcomp_def external_comparisons[OF _ _ assms])

subsection \<open>Properties\<close>

text \<open>Concrete datums and contexts: type 23 is the four-byte integer type, type 25 has an evaluator.\<close>

definition int4_datum :: "int \<Rightarrow> unit IDatum" where
  "int4_datum n = \<lparr>GetDatumType = EtiInt4, MDId = mdid_of 23, IsNull = False, LINTMapping = Some n,
     DoubleMapping = Some (), GetByteArrayValue = []\<rparr>"

definition int4_null :: "unit IDatum" where
  "int4_null = (int4_datum 0)\<lparr>IsNull := True\<rparr>"

definition text_datum :: "nat \<Rightarrow> unit IDatum" where
  "text_datum n = \<lparr>GetDatumType = EtiGeneric, MDId = mdid_of 25, IsNull = False, LINTMapping = None,
     DoubleMapping = None, GetByteArrayValue = [of_nat n]\<rparr>"

definition bytes_value :: "unit IDatum \<Rightarrow> nat" where
  "bytes_value d = (case GetByteArrayValue d of [] \<Rightarrow> 0 | b # bs \<Rightarrow> unat b)"

definition sample_ctxt :: "bool \<Rightarrow> unit opt_ctxt" where
  "sample_ctxt eval_consts = \<lparr>
     RetrieveType = \<lambda>m. if m = mdid_of 23 then EtiInt4 else if m = m_mdid_bool then EtiBool else EtiGeneric,
     FHasAllDefaultComparisons = \<lambda>m. True,
     EopttraceEnableConstantExpressionEvaluation = eval_consts,
     EopttraceUseExternalConstantExpressionEvaluationForInts = False,
     EopttraceArrayConstraints = True,
     EopttraceConsiderOpfamiliesForDistribution = False,
     PexprEval_cmp = \<lambda>c a b. if IsNull a \<or> IsNull b then None else Some (case c of
         EcmptEq \<Rightarrow> bytes_value a = bytes_value b
       | EcmptL \<Rightarrow> bytes_value a < bytes_value b
       | EcmptLEq \<Rightarrow> bytes_value a \<le> bytes_value b
       | EcmptG \<Rightarrow> bytes_value b < bytes_value a
       | EcmptGEq \<Rightarrow> bytes_value b \<le> bytes_value a
       | _ \<Rightarrow> bytes_value a \<noteq> bytes_value b),
     double_minus = \<lambda>_ _. (), double_Absolute = \<lambda>_. (), double_leq = \<lambda>_ _. True,
     double_less = \<lambda>_ _. False, Epsilon = (), double_of_bool = \<lambda>_. ()\<rparr>"

lemma int4_family [simp]:
  "internal_family (sample_ctxt e) (mdid_of 23) (int4_datum n)"
  "internal_family (sample_ctxt e) (mdid_of 23) int4_null"
  by (simp_all add: internal_family_def int4_datum_def int4_null_def sample_ctxt_def FIntType_def
      IsDatumMappableToLINT_def)

lemma int4_keys [simp]: "lint_key (int4_datum n) = Some n" "lint_key int4_null = None"
  by (simp_all add: lint_key_def int4_datum_def int4_null_def)





end
