(* ===== verification/Ranges.thy ===== *)
theory Ranges
  imports Comparator
begin

text \<open>
  Ranges of datums, \<^verbatim>\<open>libgpopt/src/base/CRange.cpp\<close>.  An absent end point is infinite.  The comparator of
  the optimizer context, which every range refers to, is an argument.  A pointer that the code follows
  without a test is read with \<open>the\<close>, so that a result about such a call needs that it is not null.

  Inside the contract of a comparator an end point is a cut of the linear order of keys, and every
  operation is one on cuts.
\<close>

subsection \<open>Data\<close>

datatype ERangeInclusion = EriIncluded | EriExcluded | EriSentinel

record 'd CRange =
  m_mdid :: mdid
  m_pdatumLeft :: "'d IDatum option"
  m_eriLeft :: ERangeInclusion
  m_pdatumRight :: "'d IDatum option"
  m_eriRight :: ERangeInclusion

definition EriInverseInclusion :: "ERangeInclusion \<Rightarrow> ERangeInclusion" where
  "EriInverseInclusion eri = (if eri = EriIncluded then EriExcluded else EriIncluded)"

definition rng_new ::
  "mdid \<Rightarrow> 'd IDatum option \<Rightarrow> ERangeInclusion \<Rightarrow> 'd IDatum option \<Rightarrow> ERangeInclusion \<Rightarrow> 'd CRange" where
  "rng_new mdid pdatumLeft eriLeft pdatumRight eriRight =
     \<lparr>m_mdid = mdid, m_pdatumLeft = pdatumLeft, m_eriLeft = eriLeft,
      m_pdatumRight = pdatumRight, m_eriRight = eriRight\<rparr>"

definition rng_of_cmp :: "ECmpType \<Rightarrow> 'd IDatum \<Rightarrow> 'd CRange" where
  "rng_of_cmp cmp_type datum =
     (let r = rng_new (MDId datum) None EriExcluded None EriExcluded in
      case cmp_type of
        EcmptEq \<Rightarrow> r\<lparr>m_pdatumLeft := Some datum, m_pdatumRight := Some datum,
                     m_eriLeft := EriIncluded, m_eriRight := EriIncluded\<rparr>
      | EcmptL \<Rightarrow> r\<lparr>m_pdatumRight := Some datum\<rparr>
      | EcmptLEq \<Rightarrow> r\<lparr>m_pdatumRight := Some datum, m_eriRight := EriIncluded\<rparr>
      | EcmptG \<Rightarrow> r\<lparr>m_pdatumLeft := Some datum\<rparr>
      | EcmptGEq \<Rightarrow> r\<lparr>m_pdatumLeft := Some datum, m_eriLeft := EriIncluded\<rparr>
      | _ \<Rightarrow> r)"

subsection \<open>Relations between ranges\<close>

definition FDisjointLeft :: "'d IComparator \<Rightarrow> 'd CRange \<Rightarrow> 'd CRange \<Rightarrow> bool" where
  "FDisjointLeft pcomp this prange =
     (case (m_pdatumRight this, m_pdatumLeft prange) of
        (Some right, Some left) \<Rightarrow>
          if IsLessThan pcomp right left then True
          else if Equals pcomp right left
          then m_eriRight this = EriExcluded \<or> m_eriLeft prange = EriExcluded
          else False
      | _ \<Rightarrow> False)"

definition FStartsBefore :: "'d IComparator \<Rightarrow> 'd CRange \<Rightarrow> 'd CRange \<Rightarrow> bool" where
  "FStartsBefore pcomp this prange =
     (case m_pdatumLeft prange of
        None \<Rightarrow> m_pdatumLeft this = None
      | Some other \<Rightarrow>
          (case m_pdatumLeft this of
             None \<Rightarrow> True
           | Some own \<Rightarrow>
               if IsLessThan pcomp own other then True
               else if IsGreaterThan pcomp own other then False
               else m_eriLeft this = EriIncluded \<and> m_eriLeft prange = EriExcluded))"

definition FStartsWithOrBefore :: "'d IComparator \<Rightarrow> 'd CRange \<Rightarrow> 'd CRange \<Rightarrow> bool" where
  "FStartsWithOrBefore pcomp this prange =
     (if FStartsBefore pcomp this prange then True
      else case (m_pdatumLeft prange, m_pdatumLeft this) of
        (None, None) \<Rightarrow> True
      | (Some other, Some own) \<Rightarrow> Equals pcomp own other \<and> m_eriLeft this = m_eriLeft prange
      | _ \<Rightarrow> False)"

definition FEndsAfter :: "'d IComparator \<Rightarrow> 'd CRange \<Rightarrow> 'd CRange \<Rightarrow> bool" where
  "FEndsAfter pcomp this prange =
     (case m_pdatumRight prange of
        None \<Rightarrow> m_pdatumRight this = None
      | Some other \<Rightarrow>
          (case m_pdatumRight this of
             None \<Rightarrow> True
           | Some own \<Rightarrow>
               if IsGreaterThan pcomp own other then True
               else if IsLessThan pcomp own other then False
               else m_eriRight this = EriIncluded \<and> m_eriRight prange = EriExcluded))"

definition FEndsWithOrAfter :: "'d IComparator \<Rightarrow> 'd CRange \<Rightarrow> 'd CRange \<Rightarrow> bool" where
  "FEndsWithOrAfter pcomp this prange =
     (if FEndsAfter pcomp this prange then True
      else case (m_pdatumRight prange, m_pdatumRight this) of
        (None, None) \<Rightarrow> True
      | (Some other, Some own) \<Rightarrow> Equals pcomp own other \<and> m_eriRight this = m_eriRight prange
      | _ \<Rightarrow> False)"

definition rng_Contains :: "'d IComparator \<Rightarrow> 'd CRange \<Rightarrow> 'd CRange \<Rightarrow> bool" where
  "rng_Contains pcomp this prange \<longleftrightarrow>
     FStartsWithOrBefore pcomp this prange \<and> FEndsWithOrAfter pcomp this prange"

definition FOverlapsLeft :: "'d IComparator \<Rightarrow> 'd CRange \<Rightarrow> 'd CRange \<Rightarrow> bool" where
  "FOverlapsLeft pcomp this prange \<longleftrightarrow>
     FStartsBefore pcomp this prange \<and> \<not> FEndsAfter pcomp this prange \<and>
     \<not> FDisjointLeft pcomp this prange"

definition FOverlapsRight :: "'d IComparator \<Rightarrow> 'd CRange \<Rightarrow> 'd CRange \<Rightarrow> bool" where
  "FOverlapsRight pcomp this prange \<longleftrightarrow>
     FEndsAfter pcomp this prange \<and> \<not> FStartsBefore pcomp this prange \<and>
     \<not> FDisjointLeft pcomp prange this"

definition FUpperBoundEqualsLowerBound :: "'d IComparator \<Rightarrow> 'd CRange \<Rightarrow> 'd CRange \<Rightarrow> bool" where
  "FUpperBoundEqualsLowerBound pcomp this prange =
     (case (m_pdatumLeft prange, m_pdatumRight this) of
        (None, None) \<Rightarrow> True
      | (Some left, Some right) \<Rightarrow> Equals pcomp right left
      | _ \<Rightarrow> False)"

definition FPoint :: "'d IComparator \<Rightarrow> 'd CRange \<Rightarrow> bool" where
  "FPoint pcomp this \<longleftrightarrow> m_eriLeft this = EriIncluded \<and> m_eriRight this = EriIncluded \<and>
     Equals pcomp (the (m_pdatumRight this)) (the (m_pdatumLeft this))"

definition rng_IsConstraintUnbounded :: "'d CRange \<Rightarrow> bool" where
  "rng_IsConstraintUnbounded this \<longleftrightarrow> m_pdatumLeft this = None \<and> m_pdatumRight this = None"

subsection \<open>Operations\<close>

definition PrngIntersect :: "'d IComparator \<Rightarrow> 'd CRange \<Rightarrow> 'd CRange \<Rightarrow> 'd CRange option" where
  "PrngIntersect pcomp this prange =
     (if rng_Contains pcomp this prange then Some prange
      else if rng_Contains pcomp prange this then Some this
      else if FOverlapsLeft pcomp this prange then
        Some (rng_new (m_mdid this) (Some (the (m_pdatumLeft prange))) (m_eriLeft prange)
                (Some (the (m_pdatumRight this))) (m_eriRight this))
      else if FOverlapsRight pcomp this prange then
        Some (rng_new (m_mdid this) (Some (the (m_pdatumLeft this))) (m_eriLeft this)
                (Some (the (m_pdatumRight prange))) (m_eriRight prange))
      else None)"

definition PrngDifferenceLeft :: "'d IComparator \<Rightarrow> 'd CRange \<Rightarrow> 'd CRange \<Rightarrow> 'd CRange option" where
  "PrngDifferenceLeft pcomp this prange =
     (if FDisjointLeft pcomp this prange then Some this
      else if m_pdatumLeft prange \<noteq> None \<and> FStartsBefore pcomp this prange then
        Some (rng_new (m_mdid this) (m_pdatumLeft this) (m_eriLeft this)
                (m_pdatumLeft prange) (EriInverseInclusion (m_eriLeft prange)))
      else None)"

definition PrngDifferenceRight :: "'d IComparator \<Rightarrow> 'd CRange \<Rightarrow> 'd CRange \<Rightarrow> 'd CRange option" where
  "PrngDifferenceRight pcomp this prange =
     (if FDisjointLeft pcomp prange this then Some this
      else if m_pdatumRight prange \<noteq> None \<and> FEndsAfter pcomp this prange then
        Some (rng_new (m_mdid this) (m_pdatumRight prange) (EriInverseInclusion (m_eriRight prange))
                (m_pdatumRight this) (m_eriRight this))
      else None)"

definition PrngExtend :: "'d IComparator \<Rightarrow> 'd CRange \<Rightarrow> 'd CRange \<Rightarrow> 'd CRange option" where
  "PrngExtend pcomp this prange =
     (if (m_eriLeft prange = EriIncluded \<or> m_eriRight this = EriIncluded) \<and>
         Equals pcomp (the (m_pdatumLeft prange)) (the (m_pdatumRight this))
      then Some (rng_new (m_mdid this) (m_pdatumLeft this) (m_eriLeft this)
                   (m_pdatumRight prange) (m_eriRight prange))
      else None)"

subsection \<open>Meaning and well-formedness\<close>

definition in_range :: "'d IComparator \<Rightarrow> 'd CRange \<Rightarrow> 'd IDatum \<Rightarrow> bool" where
  "in_range pcomp r v \<longleftrightarrow>
     (case m_pdatumLeft r of None \<Rightarrow> True
      | Some l \<Rightarrow> if m_eriLeft r = EriIncluded then IsLessThanOrEqual pcomp l v else IsLessThan pcomp l v) \<and>
     (case m_pdatumRight r of None \<Rightarrow> True
      | Some h \<Rightarrow> if m_eriRight r = EriIncluded then IsLessThanOrEqual pcomp v h else IsLessThan pcomp v h)"

definition in_result :: "'d IComparator \<Rightarrow> 'd CRange option \<Rightarrow> 'd IDatum \<Rightarrow> bool" where
  "in_result pcomp res v = (case res of None \<Rightarrow> False | Some r \<Rightarrow> in_range pcomp r v)"

definition range_ok :: "'d IComparator \<Rightarrow> ('d IDatum \<Rightarrow> bool) \<Rightarrow> 'd CRange \<Rightarrow> bool" where
  "range_ok pcomp fam r \<longleftrightarrow>
     m_eriLeft r \<noteq> EriSentinel \<and> m_eriRight r \<noteq> EriSentinel \<and>
     (case m_pdatumLeft r of None \<Rightarrow> m_eriLeft r = EriExcluded | Some l \<Rightarrow> fam l) \<and>
     (case m_pdatumRight r of None \<Rightarrow> m_eriRight r = EriExcluded | Some h \<Rightarrow> fam h) \<and>
     (case (m_pdatumLeft r, m_pdatumRight r) of
        (Some l, Some h) \<Rightarrow> IsLessThan pcomp l h \<or>
          Equals pcomp l h \<and> m_eriLeft r = EriIncluded \<and> m_eriRight r = EriIncluded
      | _ \<Rightarrow> True)"

subsection \<open>Cuts\<close>

text \<open>A position between keys: \<open>At k False\<close> lies just before \<open>k\<close> and \<open>At k True\<close> just after it.\<close>

datatype 'k cut = MinusInf | At 'k bool | PlusInf

instantiation cut :: (linorder) linorder
begin

definition less_eq_cut :: "'a cut \<Rightarrow> 'a cut \<Rightarrow> bool" where
  "less_eq_cut a b \<longleftrightarrow> (case a of MinusInf \<Rightarrow> True | PlusInf \<Rightarrow> b = PlusInf
     | At k u \<Rightarrow> (case b of MinusInf \<Rightarrow> False | PlusInf \<Rightarrow> True | At l v \<Rightarrow> k < l \<or> k = l \<and> (u \<longrightarrow> v)))"

definition less_cut :: "'a cut \<Rightarrow> 'a cut \<Rightarrow> bool" where
  "less_cut a b \<longleftrightarrow> a \<le> b \<and> \<not> b \<le> a"

instance
  by standard (auto simp: less_eq_cut_def less_cut_def split: cut.splits)

end

lemma cut_le_simps [simp]:
  "MinusInf \<le> c" "c \<le> PlusInf" "At k u \<le> At l v \<longleftrightarrow> k < l \<or> k = l \<and> (u \<longrightarrow> v)"
  "c \<le> MinusInf \<longleftrightarrow> c = MinusInf" "PlusInf \<le> c \<longleftrightarrow> c = PlusInf" for k :: "'k::linorder"
  by (auto simp: less_eq_cut_def split: cut.splits)

lemma cut_less_simps [simp]:
  "MinusInf < c \<longleftrightarrow> c \<noteq> MinusInf" "c < PlusInf \<longleftrightarrow> c \<noteq> PlusInf"
  "At k u < At l v \<longleftrightarrow> k < l \<or> k = l \<and> \<not> u \<and> v"
  "\<not> c < MinusInf" "\<not> PlusInf < c" for k :: "'k::linorder"
  by (auto simp: less_cut_def)

text \<open>A key lies before a cut or behind it.\<close>

definition before_cut :: "'k::linorder \<Rightarrow> 'k cut \<Rightarrow> bool" where
  "before_cut k c \<longleftrightarrow> At k True \<le> c"

lemma not_before_cut: "\<not> before_cut k c \<longleftrightarrow> c \<le> At k False"
  by (cases c) (auto simp: before_cut_def)

lemma before_cut_mono: "c \<le> c' \<Longrightarrow> before_cut k c \<Longrightarrow> before_cut k c'"
  by (auto simp: before_cut_def intro: order_trans)

lemma before_cut_min [simp]: "before_cut k (min c c') \<longleftrightarrow> before_cut k c \<and> before_cut k c'"
  by (simp add: before_cut_def)

lemma before_cut_max [simp]: "before_cut k (max c c') \<longleftrightarrow> before_cut k c \<or> before_cut k c'"
  by (simp add: before_cut_def le_max_iff_disj)

definition lo :: "('d IDatum \<Rightarrow> 'k) \<Rightarrow> 'd CRange \<Rightarrow> 'k cut" where
  "lo key r = (case m_pdatumLeft r of None \<Rightarrow> MinusInf | Some d \<Rightarrow> At (key d) (m_eriLeft r = EriExcluded))"

definition hi :: "('d IDatum \<Rightarrow> 'k) \<Rightarrow> 'd CRange \<Rightarrow> 'k cut" where
  "hi key r = (case m_pdatumRight r of None \<Rightarrow> PlusInf | Some d \<Rightarrow> At (key d) (m_eriRight r = EriIncluded))"

subsection \<open>Operations on cuts\<close>

context datum_order
begin

lemmas rng_splits = option.splits ERangeInclusion.splits if_splits

lemma range_ok_cuts: "range_ok pcomp fam r \<Longrightarrow> lo key r < hi key r"
  by (auto simp: range_ok_def lo_def hi_def cmp_keys split: rng_splits)

lemma range_ok_infinite:
  assumes "range_ok pcomp fam r"
  shows "m_pdatumLeft r = None \<longleftrightarrow> lo key r = MinusInf" "m_pdatumRight r = None \<longleftrightarrow> hi key r = PlusInf"
    "lo key r \<noteq> PlusInf" "hi key r \<noteq> MinusInf"
  using assms by (auto simp: lo_def hi_def split: rng_splits)

lemma in_range_cuts:
  assumes "range_ok pcomp fam r" "fam v"
  shows "in_range pcomp r v \<longleftrightarrow> \<not> before_cut (key v) (lo key r) \<and> before_cut (key v) (hi key r)"
  using assms unfolding in_range_def range_ok_def lo_def hi_def before_cut_def
  by (cases "m_eriLeft r"; cases "m_eriRight r") (auto simp: cmp_keys split: option.splits)

lemma FDisjointLeft_cuts:
  assumes "range_ok pcomp fam r" "range_ok pcomp fam p"
  shows "FDisjointLeft pcomp r p \<longleftrightarrow> hi key r \<le> lo key p"
  using assms unfolding range_ok_def FDisjointLeft_def lo_def hi_def
  by (cases "m_eriRight r"; cases "m_eriLeft p") (auto simp: cmp_keys split: option.splits)

lemma FStartsBefore_cuts:
  assumes "range_ok pcomp fam r" "range_ok pcomp fam p"
  shows "FStartsBefore pcomp r p \<longleftrightarrow> lo key r < lo key p \<or> lo key r = MinusInf \<and> lo key p = MinusInf"
  using assms unfolding range_ok_def FStartsBefore_def lo_def
  by (cases "m_eriLeft r"; cases "m_eriLeft p") (auto simp: cmp_keys split: option.splits)

lemma FEndsAfter_cuts:
  assumes "range_ok pcomp fam r" "range_ok pcomp fam p"
  shows "FEndsAfter pcomp r p \<longleftrightarrow> hi key p < hi key r \<or> hi key r = PlusInf \<and> hi key p = PlusInf"
  using assms unfolding range_ok_def FEndsAfter_def hi_def
  by (cases "m_eriRight r"; cases "m_eriRight p") (auto simp: cmp_keys split: option.splits)

lemma FStartsWithOrBefore_cuts:
  assumes "range_ok pcomp fam r" "range_ok pcomp fam p"
  shows "FStartsWithOrBefore pcomp r p \<longleftrightarrow> lo key r \<le> lo key p"
  using assms unfolding FStartsWithOrBefore_def FStartsBefore_cuts[OF assms] range_ok_def lo_def
  by (cases "m_eriLeft r"; cases "m_eriLeft p") (auto simp: cmp_keys split: option.splits)

lemma FEndsWithOrAfter_cuts:
  assumes "range_ok pcomp fam r" "range_ok pcomp fam p"
  shows "FEndsWithOrAfter pcomp r p \<longleftrightarrow> hi key p \<le> hi key r"
  using assms unfolding FEndsWithOrAfter_def FEndsAfter_cuts[OF assms] range_ok_def hi_def
  by (cases "m_eriRight r"; cases "m_eriRight p") (auto simp: cmp_keys split: option.splits)

lemmas relation_cuts = FDisjointLeft_cuts FStartsBefore_cuts FEndsAfter_cuts FStartsWithOrBefore_cuts
  FEndsWithOrAfter_cuts

text \<open>A range made of an end of one range and an end of another.\<close>

lemma rng_new_left_right:
  assumes "range_ok pcomp fam r" "range_ok pcomp fam p" "lo key r < hi key p"
    and q: "q = rng_new m (m_pdatumLeft r) (m_eriLeft r) (m_pdatumRight p) (m_eriRight p)"
  shows "range_ok pcomp fam q" "lo key q = lo key r" "hi key q = hi key p"
  using assms unfolding q range_ok_def rng_new_def lo_def hi_def
  by (cases "m_eriLeft r"; cases "m_eriRight p"; auto simp: cmp_keys split: option.splits)+

lemma rng_new_left_left:
  assumes "range_ok pcomp fam r" "range_ok pcomp fam p" "lo key r < lo key p"
    and q: "q = rng_new m (m_pdatumLeft r) (m_eriLeft r) (m_pdatumLeft p) (EriInverseInclusion (m_eriLeft p))"
  shows "range_ok pcomp fam q" "lo key q = lo key r" "hi key q = lo key p"
  using assms unfolding q range_ok_def rng_new_def lo_def hi_def EriInverseInclusion_def
  by (cases "m_eriLeft r"; cases "m_eriLeft p"; auto simp: cmp_keys split: option.splits)+

lemma rng_new_right_right:
  assumes "range_ok pcomp fam r" "range_ok pcomp fam p" "hi key p < hi key r"
    and q: "q = rng_new m (m_pdatumRight p) (EriInverseInclusion (m_eriRight p)) (m_pdatumRight r) (m_eriRight r)"
  shows "range_ok pcomp fam q" "lo key q = hi key p" "hi key q = hi key r"
  using assms unfolding q range_ok_def rng_new_def lo_def hi_def EriInverseInclusion_def
  by (cases "m_eriRight r"; cases "m_eriRight p"; auto simp: cmp_keys split: option.splits)+

text \<open>The operations on ranges; an absent result is an empty one.\<close>

definition rng_cuts :: "'d CRange option \<Rightarrow> 'k cut \<Rightarrow> 'k cut \<Rightarrow> bool" where
  "rng_cuts res l h \<longleftrightarrow> (case res of None \<Rightarrow> h \<le> l
     | Some q \<Rightarrow> range_ok pcomp fam q \<and> lo key q = l \<and> hi key q = h)"

lemma PrngIntersect_overlapping:
  assumes r: "range_ok pcomp fam r" and p: "range_ok pcomp fam p"
  shows "lo key r < lo key p \<Longrightarrow> hi key r < hi key p \<Longrightarrow>
      rng_cuts (PrngIntersect pcomp r p) (lo key p) (hi key r)"
    and "lo key p < lo key r \<Longrightarrow> hi key p < hi key r \<Longrightarrow>
      rng_cuts (PrngIntersect pcomp r p) (lo key r) (hi key p)"
proof -
  note cuts = relation_cuts[OF r p] relation_cuts[OF p r]
  assume less: "lo key r < lo key p" "hi key r < hi key p"
  then have inf: "lo key p \<noteq> MinusInf" "hi key r \<noteq> PlusInf" by auto
  have n: "\<not> lo key p \<le> lo key r" "\<not> hi key p \<le> hi key r" "\<not> lo key p < lo key r" "\<not> hi key p < hi key r"
    using less by order+
  from inf have nn: "Some (the (m_pdatumLeft p)) = m_pdatumLeft p" "Some (the (m_pdatumRight r)) = m_pdatumRight r"
    using range_ok_infinite[OF p] range_ok_infinite[OF r] by simp_all
  show "rng_cuts (PrngIntersect pcomp r p) (lo key p) (hi key r)"
    using less inf n rng_new_left_right[OF p r _ refl, of "m_mdid r"]
    by (cases "hi key r \<le> lo key p")
      (simp_all add: PrngIntersect_def rng_Contains_def FOverlapsLeft_def FOverlapsRight_def cuts rng_cuts_def nn
        not_le)
next
  note cuts = relation_cuts[OF r p] relation_cuts[OF p r]
  assume less: "lo key p < lo key r" "hi key p < hi key r"
  then have inf: "lo key r \<noteq> MinusInf" "hi key p \<noteq> PlusInf" by auto
  have n: "\<not> lo key r \<le> lo key p" "\<not> hi key r \<le> hi key p" "\<not> lo key r < lo key p" "\<not> hi key r < hi key p"
    using less by order+
  from inf have nn: "Some (the (m_pdatumLeft r)) = m_pdatumLeft r" "Some (the (m_pdatumRight p)) = m_pdatumRight p"
    using range_ok_infinite[OF p] range_ok_infinite[OF r] by simp_all
  show "rng_cuts (PrngIntersect pcomp r p) (lo key r) (hi key p)"
    using less inf n rng_new_left_right[OF r p _ refl, of "m_mdid r"]
    by (cases "hi key p \<le> lo key r")
      (simp_all add: PrngIntersect_def rng_Contains_def FOverlapsLeft_def FOverlapsRight_def cuts rng_cuts_def nn
        not_le)
qed

lemma PrngIntersect_cuts:
  assumes r: "range_ok pcomp fam r" and p: "range_ok pcomp fam p"
  shows "rng_cuts (PrngIntersect pcomp r p) (max (lo key r) (lo key p)) (min (hi key r) (hi key p))"
proof -
  consider (in_r) "lo key r \<le> lo key p" "hi key p \<le> hi key r"
    | (in_p) "\<not> (lo key r \<le> lo key p \<and> hi key p \<le> hi key r)" "lo key p \<le> lo key r" "hi key r \<le> hi key p"
    | (left) "lo key r < lo key p" "hi key r < hi key p"
    | (right) "lo key p < lo key r" "hi key p < hi key r"
    by (meson leI order_less_imp_le)
  then show ?thesis
  proof cases
    case in_r
    then show ?thesis
      by (simp add: PrngIntersect_def rng_Contains_def relation_cuts r p rng_cuts_def max_absorb2 min_absorb2)
  next
    case in_p
    then show ?thesis
      by (simp add: PrngIntersect_def rng_Contains_def relation_cuts r p rng_cuts_def max_absorb1 min_absorb1)
  qed (simp_all add: PrngIntersect_overlapping r p max_def min_def leD less_imp_le)
qed

lemma PrngDifferenceLeft_cuts:
  assumes r: "range_ok pcomp fam r" and p: "range_ok pcomp fam p"
  shows "rng_cuts (PrngDifferenceLeft pcomp r p) (lo key r) (min (hi key r) (lo key p))"
  using range_ok_infinite[OF p] rng_new_left_left[OF r p _ refl, of "m_mdid r"] r range_ok_cuts[OF r]
  by (auto simp: PrngDifferenceLeft_def relation_cuts[OF r p] rng_cuts_def min_def)

lemma PrngDifferenceRight_cuts:
  assumes r: "range_ok pcomp fam r" and p: "range_ok pcomp fam p"
  shows "rng_cuts (PrngDifferenceRight pcomp r p) (max (lo key r) (hi key p)) (hi key r)"
  using range_ok_infinite[OF p] rng_new_right_right[OF r p _ refl, of "m_mdid r"] r range_ok_cuts[OF r]
  by (auto simp: PrngDifferenceRight_def relation_cuts[OF r p] relation_cuts[OF p r] rng_cuts_def max_def)

lemma PrngExtend_cuts:
  assumes r: "range_ok pcomp fam r" and p: "range_ok pcomp fam p" and le: "hi key r \<le> lo key p"
  shows "case PrngExtend pcomp r p of
      None \<Rightarrow> hi key r < lo key p
    | Some q \<Rightarrow> hi key r = lo key p \<and> range_ok pcomp fam q \<and> lo key q = lo key r \<and> hi key q = hi key p"
proof -
  have less: "lo key r < hi key p"
    using range_ok_cuts[OF r] range_ok_cuts[OF p] le by order
  have "m_pdatumLeft p \<noteq> None" "m_pdatumRight r \<noteq> None"
    using range_ok_infinite[OF p] range_ok_infinite[OF r] le by auto
  then obtain l h where lh: "m_pdatumLeft p = Some l" "m_pdatumRight r = Some h"
    by blast
  have "fam l" "fam h" "m_eriLeft p \<noteq> EriSentinel" "m_eriRight r \<noteq> EriSentinel"
    using r p lh by (auto simp: range_ok_def)
  then have "(m_eriLeft p = EriIncluded \<or> m_eriRight r = EriIncluded) \<and> Equals pcomp l h \<longleftrightarrow> hi key r = lo key p"
    using le lh by (cases "m_eriLeft p"; cases "m_eriRight r") (auto simp: lo_def hi_def cmp_keys)
  then show ?thesis
    using rng_new_left_right[OF r p less refl, of "m_mdid r"] le
    by (auto simp: PrngExtend_def lh)
qed

lemma in_result_cuts:
  assumes "rng_cuts res l h" "fam v"
  shows "in_result pcomp res v \<longleftrightarrow> \<not> before_cut (key v) l \<and> before_cut (key v) h"
  using assms before_cut_mono[of h l "key v"]
  by (auto simp: rng_cuts_def in_result_def in_range_cuts split: option.splits)

lemma rng_cuts_ok: "rng_cuts res l h \<Longrightarrow> \<forall>q \<in> set_option res. range_ok pcomp fam q"
  by (auto simp: rng_cuts_def split: option.splits)

lemma range_disjoint_values:
  assumes "range_ok pcomp fam r" "range_ok pcomp fam p" "fam v" "FDisjointLeft pcomp r p"
  shows "\<not> (in_range pcomp r v \<and> in_range pcomp p v)"
  using assms before_cut_mono[of "hi key r" "lo key p" "key v"] by (simp add: in_range_cuts FDisjointLeft_cuts)

lemma range_contains_values:
  assumes "range_ok pcomp fam r" "range_ok pcomp fam p" "fam v" "rng_Contains pcomp r p" "in_range pcomp p v"
  shows "in_range pcomp r v"
  using assms before_cut_mono[of "hi key p" "hi key r" "key v"] before_cut_mono[of "lo key r" "lo key p" "key v"]
  by (auto simp: in_range_cuts rng_Contains_def relation_cuts)

lemma range_difference_values:
  assumes r: "range_ok pcomp fam r" and p: "range_ok pcomp fam p" and v: "fam v"
  shows "in_result pcomp (PrngDifferenceLeft pcomp r p) v \<or> in_result pcomp (PrngDifferenceRight pcomp r p) v \<longleftrightarrow>
    in_range pcomp r v \<and> \<not> in_range pcomp p v"
  using before_cut_mono[of "lo key p" "hi key p" "key v"] range_ok_cuts[OF p]
  by (auto simp: in_result_cuts[OF PrngDifferenceLeft_cuts[OF r p] v]
      in_result_cuts[OF PrngDifferenceRight_cuts[OF r p] v] in_range_cuts r p v)

end

subsection \<open>Properties\<close>

text \<open>
  \<^bold>\<open>C17\<close> The operations on well-formed ranges compute set operations on the values: the
  intersection, the part on the left and the part on the right of another range together with it, and
  the two relations on which the interval algorithms branch are sound.  Every range they return is
  well-formed, so that in particular no null end point is followed.
\<close>
theorem range_operations_exact:
  assumes "datum_order pcomp fam key" and "range_ok pcomp fam r" "range_ok pcomp fam p" and "fam v"
  shows "(in_result pcomp (PrngIntersect pcomp r p) v \<longleftrightarrow> in_range pcomp r v \<and> in_range pcomp p v) \<and>
    (in_result pcomp (PrngDifferenceLeft pcomp r p) v \<or> in_result pcomp (PrngDifferenceRight pcomp r p) v \<longleftrightarrow>
       in_range pcomp r v \<and> \<not> in_range pcomp p v) \<and>
    (\<forall>q \<in> set_option (PrngIntersect pcomp r p) \<union> set_option (PrngDifferenceLeft pcomp r p) \<union>
       set_option (PrngDifferenceRight pcomp r p). range_ok pcomp fam q) \<and>
    (FDisjointLeft pcomp r p \<longrightarrow> \<not> (in_range pcomp r v \<and> in_range pcomp p v)) \<and>
    (rng_Contains pcomp r p \<and> in_range pcomp p v \<longrightarrow> in_range pcomp r v)"
proof -
  note d = assms(1)
  note cuts = datum_order.PrngIntersect_cuts[OF d assms(2,3)]
    datum_order.PrngDifferenceLeft_cuts[OF d assms(2,3)] datum_order.PrngDifferenceRight_cuts[OF d assms(2,3)]
  have "in_result pcomp (PrngIntersect pcomp r p) v \<longleftrightarrow> in_range pcomp r v \<and> in_range pcomp p v"
    using assms by (auto simp: datum_order.in_result_cuts[OF d cuts(1)] datum_order.in_range_cuts[OF d])
  then show ?thesis
    using datum_order.range_difference_values[OF assms] cuts[THEN datum_order.rng_cuts_ok[OF d]]
      datum_order.range_disjoint_values[OF assms] datum_order.range_contains_values[OF assms]
    by blast
qed

text \<open>The ranges \<open>[2, 8)\<close> and \<open>[5, \<infinity>)\<close> of four-byte integers.\<close>

definition sample_range_left :: "unit CRange" where
  "sample_range_left = rng_new (mdid_of 23) (Some (int4_datum 2)) EriIncluded (Some (int4_datum 8)) EriExcluded"

definition sample_range_right :: "unit CRange" where
  "sample_range_right = rng_of_cmp EcmptGEq (int4_datum 5)"

lemma int4_comparisons:
  "Equals (Pcomp (sample_ctxt e)) (int4_datum a) (int4_datum b) \<longleftrightarrow> a = b"
  "IsLessThan (Pcomp (sample_ctxt e)) (int4_datum a) (int4_datum b) \<longleftrightarrow> a < b"
  "IsLessThanOrEqual (Pcomp (sample_ctxt e)) (int4_datum a) (int4_datum b) \<longleftrightarrow> a \<le> b"
  "IsGreaterThan (Pcomp (sample_ctxt e)) (int4_datum a) (int4_datum b) \<longleftrightarrow> b < a"
  "IsGreaterThanOrEqual (Pcomp (sample_ctxt e)) (int4_datum a) (int4_datum b) \<longleftrightarrow> b \<le> a"
  by (simp_all add: lint.cmp_keys[of "sample_ctxt e" "mdid_of 23"])

lemma sample_ranges_ok:
  "range_ok (Pcomp (sample_ctxt e)) (internal_family (sample_ctxt e) (mdid_of 23)) sample_range_left"
  "range_ok (Pcomp (sample_ctxt e)) (internal_family (sample_ctxt e) (mdid_of 23)) sample_range_right"
  by (simp_all add: range_ok_def sample_range_left_def sample_range_right_def rng_of_cmp_def rng_new_def
      int4_comparisons)

theorem range_operations_exact_witness:
  "in_result (Pcomp (sample_ctxt False))
     (PrngIntersect (Pcomp (sample_ctxt False)) sample_range_left sample_range_right) (int4_datum 5)"
  using range_operations_exact[OF lint.datum_order_axioms sample_ranges_ok, of False "int4_datum 5"]
  by (simp add: in_range_def sample_range_left_def sample_range_right_def rng_of_cmp_def rng_new_def
      int4_comparisons)

end
