(* ===== verification/Intervals.thy ===== *)
theory Intervals
  imports Ranges
begin

text \<open>
  Interval constraints, \<^verbatim>\<open>libgpopt/src/base/CConstraintInterval.cpp\<close>: the values that a column may take as
  an array of ranges with a flag for null, and the algebra on them.  The loops over two arrays with two
  positions are recursions on the remaining ranges; the array under construction is an accumulator.

  Well-formed arrays hold well-formed ranges in ascending order without overlap.
\<close>

subsection \<open>Data\<close>

record CColRef =
  col_id :: nat
  col_mdid :: mdid

record 'd CConstraintInterval =
  m_pcr :: CColRef
  m_pdrgprng :: "'d CRange list"
  m_fIncludesNull :: bool

definition pci_new :: "CColRef \<Rightarrow> 'd CRange list \<Rightarrow> bool \<Rightarrow> 'd CConstraintInterval" where
  "pci_new colref pdrgprng fIncludesNull =
     \<lparr>m_pcr = colref, m_pdrgprng = pdrgprng, m_fIncludesNull = fIncludesNull\<rparr>"

definition FContradiction :: "'d opt_ctxt \<Rightarrow> 'd CConstraintInterval \<Rightarrow> bool" where
  "FContradiction ctxt this =
     (if \<not> m_fIncludesNull this \<and> m_pdrgprng this = [] then True
      else if RetrieveType ctxt (col_mdid (m_pcr this)) = EtiBool \<and> length (m_pdrgprng this) = 1 \<and>
              \<not> m_fIncludesNull this
      then (let r = m_pdrgprng this ! 0 in
            m_eriLeft r = EriExcluded \<and> m_eriRight r = EriExcluded \<and>
            m_pdatumLeft r \<noteq> None \<and> m_pdatumRight r \<noteq> None)
      else False)"

definition pci_IsConstraintUnbounded :: "'d CConstraintInterval \<Rightarrow> bool" where
  "pci_IsConstraintUnbounded this \<longleftrightarrow> m_fIncludesNull this \<and> length (m_pdrgprng this) = 1 \<and>
     rng_IsConstraintUnbounded (m_pdrgprng this ! 0)"

definition MdidType :: "'d CConstraintInterval \<Rightarrow> mdid" where
  "MdidType this = (if 0 < length (m_pdrgprng this) then m_mdid (m_pdrgprng this ! 0) else col_mdid (m_pcr this))"

definition PcnstrRemapForColumn :: "'d CConstraintInterval \<Rightarrow> CColRef \<Rightarrow> 'd CConstraintInterval" where
  "PcnstrRemapForColumn this colref = pci_new colref (m_pdrgprng this) (m_fIncludesNull this)"

subsection \<open>Building arrays of ranges\<close>

definition AppendOrExtend :: "'d IComparator \<Rightarrow> 'd CRange list \<Rightarrow> 'd CRange option \<Rightarrow> 'd CRange list" where
  "AppendOrExtend pcomp pdrgprng prange =
     (case prange of
        None \<Rightarrow> pdrgprng
      | Some r \<Rightarrow>
          (if pdrgprng = [] then [r]
           else case PrngExtend pcomp (last pdrgprng) r of
                  None \<Rightarrow> pdrgprng @ [r]
                | Some prangeNew \<Rightarrow> pdrgprng[length pdrgprng - 1 := prangeNew]))"

definition AddRemainingRanges :: "'d IComparator \<Rightarrow> 'd CRange list \<Rightarrow> 'd CRange list \<Rightarrow> 'd CRange list" where
  "AddRemainingRanges pcomp remaining pdrgprngDest =
     fold (\<lambda>prange dest. AppendOrExtend pcomp dest (Some prange)) remaining pdrgprngDest"

definition PrangeDiffWithRightResidual ::
  "'d IComparator \<Rightarrow> 'd CRange \<Rightarrow> 'd CRange \<Rightarrow> 'd CRange option \<times> 'd CRange option" where
  "PrangeDiffWithRightResidual pcomp prangeFirst prangeSecond =
     (if FDisjointLeft pcomp prangeSecond prangeFirst then (None, None)
      else (if rng_Contains pcomp prangeFirst prangeSecond
            then PrngDifferenceLeft pcomp prangeFirst prangeSecond else None,
            PrngDifferenceRight pcomp prangeFirst prangeSecond))"

subsection \<open>Intersection, union, difference\<close>

fun intersect_loop :: "'d IComparator \<Rightarrow> 'd CRange list \<Rightarrow> 'd CRange list \<Rightarrow> 'd CRange list \<Rightarrow> 'd CRange list" where
  "intersect_loop pcomp (prangeThis # fst_rest) (prangeOther # snd_rest) new =
     (if FEndsAfter pcomp prangeOther prangeThis
      then intersect_loop pcomp fst_rest (prangeOther # snd_rest)
             (case PrngIntersect pcomp prangeThis prangeOther of None \<Rightarrow> new | Some r \<Rightarrow> new @ [r])
      else intersect_loop pcomp (prangeThis # fst_rest) snd_rest
             (case PrngIntersect pcomp prangeOther prangeThis of None \<Rightarrow> new | Some r \<Rightarrow> new @ [r]))"
| "intersect_loop pcomp _ _ new = new"

definition PciIntersect :: "'d IComparator \<Rightarrow> 'd CConstraintInterval \<Rightarrow> 'd CConstraintInterval \<Rightarrow> 'd CConstraintInterval" where
  "PciIntersect pcomp this pci =
     pci_new (m_pcr this) (intersect_loop pcomp (m_pdrgprng this) (m_pdrgprng pci) [])
       (m_fIncludesNull this \<and> m_fIncludesNull pci)"

fun union_loop :: "'d IComparator \<Rightarrow> 'd CRange list \<Rightarrow> 'd CRange list \<Rightarrow> 'd CRange list \<Rightarrow>
    'd CRange list \<times> 'd CRange list \<times> 'd CRange list" where
  "union_loop pcomp (prangeThis # fst_rest) (prangeOther # snd_rest) new =
     (if FEndsAfter pcomp prangeOther prangeThis
      then union_loop pcomp fst_rest (prangeOther # snd_rest)
             (AppendOrExtend pcomp new (PrngDifferenceLeft pcomp prangeThis prangeOther))
      else union_loop pcomp (prangeThis # fst_rest) snd_rest
             (AppendOrExtend pcomp new (PrngDifferenceLeft pcomp prangeOther prangeThis)))"
| "union_loop pcomp fst_rest snd_rest new = (fst_rest, snd_rest, new)"

definition PciUnion :: "'d IComparator \<Rightarrow> 'd CConstraintInterval \<Rightarrow> 'd CConstraintInterval \<Rightarrow> 'd CConstraintInterval" where
  "PciUnion pcomp this pci =
     (case union_loop pcomp (m_pdrgprng this) (m_pdrgprng pci) [] of (fst_rest, snd_rest, new) \<Rightarrow>
        pci_new (m_pcr this) (AddRemainingRanges pcomp snd_rest (AddRemainingRanges pcomp fst_rest new))
          (m_fIncludesNull this \<or> m_fIncludesNull pci))"

fun difference_loop :: "'d IComparator \<Rightarrow> 'd CRange list \<Rightarrow> 'd CRange list \<Rightarrow> 'd CRange option \<Rightarrow>
    'd CRange list \<Rightarrow> 'd CRange list \<times> 'd CRange option \<times> 'd CRange list" where
  "difference_loop pcomp (prange # fst_rest) (prangeOther # snd_rest) residual new =
     (let prangeThis = (case residual of None \<Rightarrow> prange | Some r \<Rightarrow> r) in
      if FEndsWithOrAfter pcomp prangeOther prangeThis
      then difference_loop pcomp fst_rest (prangeOther # snd_rest) None
             (AppendOrExtend pcomp new (PrngDifferenceLeft pcomp prangeThis prangeOther))
      else difference_loop pcomp (prange # fst_rest) snd_rest
             (snd (PrangeDiffWithRightResidual pcomp prangeThis prangeOther))
             (AppendOrExtend pcomp new (fst (PrangeDiffWithRightResidual pcomp prangeThis prangeOther))))"
| "difference_loop pcomp fst_rest snd_rest residual new = (fst_rest, residual, new)"

definition PciDifference :: "'d IComparator \<Rightarrow> 'd CConstraintInterval \<Rightarrow> 'd CConstraintInterval \<Rightarrow> 'd CConstraintInterval" where
  "PciDifference pcomp this pci =
     (case difference_loop pcomp (m_pdrgprng this) (m_pdrgprng pci) None [] of (fst_rest, residual, new) \<Rightarrow>
        let remaining = (if residual \<noteq> None then tl fst_rest else fst_rest) in
        pci_new (m_pcr this) (AddRemainingRanges pcomp remaining (AppendOrExtend pcomp new residual))
          (m_fIncludesNull this \<and> \<not> m_fIncludesNull pci))"

definition FContainsInterval :: "'d opt_ctxt \<Rightarrow> 'd CConstraintInterval \<Rightarrow> 'd CConstraintInterval \<Rightarrow> bool" where
  "FContainsInterval ctxt this pci =
     (if pci_IsConstraintUnbounded this then True
      else if pci_IsConstraintUnbounded pci \<or> \<not> m_fIncludesNull this \<and> m_fIncludesNull pci then False
      else FContradiction ctxt (PciDifference (Pcomp ctxt) pci this))"

subsection \<open>The universal interval and complements\<close>

definition PciUnbounded :: "'d opt_ctxt \<Rightarrow> CColRef \<Rightarrow> bool \<Rightarrow> 'd CConstraintInterval option" where
  "PciUnbounded ctxt colref fIncludesNull =
     (let mdid = col_mdid colref in
      if \<not> FConstrainableType ctxt mdid then None
      else Some (pci_new colref
        [if RetrieveType ctxt mdid = EtiBool
         then rng_new mdid (Some (CreateBoolDatum ctxt False False)) EriIncluded
                (Some (CreateBoolDatum ctxt True False)) EriIncluded
         else rng_new mdid None EriExcluded None EriExcluded]
        fIncludesNull))"

fun PciUnbounded_first :: "'d opt_ctxt \<Rightarrow> CColRef list \<Rightarrow> bool \<Rightarrow> 'd CConstraintInterval option" where
  "PciUnbounded_first ctxt [] fIncludesNull = None"
| "PciUnbounded_first ctxt (colref # pcrs) fIncludesNull =
     (case PciUnbounded ctxt colref fIncludesNull of
        Some pci \<Rightarrow> Some pci | None \<Rightarrow> PciUnbounded_first ctxt pcrs fIncludesNull)"

definition PciComplement :: "'d opt_ctxt \<Rightarrow> 'd CConstraintInterval \<Rightarrow> 'd CConstraintInterval" where
  "PciComplement ctxt this = PciDifference (Pcomp ctxt) (the (PciUnbounded ctxt (m_pcr this) True)) this"

subsection \<open>Meaning and well-formedness\<close>

definition covers :: "'d IComparator \<Rightarrow> 'd CRange list \<Rightarrow> 'd IDatum \<Rightarrow> bool" where
  "covers pcomp rs v \<longleftrightarrow> (\<exists>r \<in> set rs. in_range pcomp r v)"

definition pci_holds :: "'d IComparator \<Rightarrow> 'd CConstraintInterval \<Rightarrow> 'd IDatum \<Rightarrow> bool" where
  "pci_holds pcomp pci v \<longleftrightarrow> (if IsNull v then m_fIncludesNull pci else covers pcomp (m_pdrgprng pci) v)"

definition ranges_ok :: "'d IComparator \<Rightarrow> ('d IDatum \<Rightarrow> bool) \<Rightarrow> 'd CRange list \<Rightarrow> bool" where
  "ranges_ok pcomp fam rs \<longleftrightarrow> (\<forall>r \<in> set rs. range_ok pcomp fam r) \<and> sorted_wrt (FDisjointLeft pcomp) rs"

definition pci_ok :: "'d IComparator \<Rightarrow> ('d IDatum \<Rightarrow> bool) \<Rightarrow> 'd CConstraintInterval \<Rightarrow> bool" where
  "pci_ok pcomp fam pci \<longleftrightarrow> ranges_ok pcomp fam (m_pdrgprng pci)"

lemma pci_new_simps [simp]:
  "m_pcr (pci_new c rs n) = c" "m_pdrgprng (pci_new c rs n) = rs" "m_fIncludesNull (pci_new c rs n) = n"
  by (simp_all add: pci_new_def)

subsection \<open>Arrays of ranges as sets of keys\<close>

context datum_order
begin

definition cov :: "'d CRange list \<Rightarrow> 'k \<Rightarrow> bool" where
  "cov rs k \<longleftrightarrow> (\<exists>r \<in> set rs. \<not> before_cut k (lo key r) \<and> before_cut k (hi key r))"

definition follows :: "'d CRange list \<Rightarrow> 'd CRange list \<Rightarrow> bool" where
  "follows rs qs \<longleftrightarrow> (\<forall>r \<in> set rs. \<forall>q \<in> set qs. hi key r \<le> lo key q)"

lemma cov_simps [simp]:
  "\<not> cov [] k" "cov (r # rs) k \<longleftrightarrow> (\<not> before_cut k (lo key r) \<and> before_cut k (hi key r)) \<or> cov rs k"
  "cov (rs @ qs) k \<longleftrightarrow> cov rs k \<or> cov qs k"
  by (auto simp: cov_def)

lemma follows_simps [simp]:
  "follows [] qs" "follows rs []"
  "follows rs (q # qs) \<longleftrightarrow> (\<forall>r \<in> set rs. hi key r \<le> lo key q) \<and> follows rs qs"
  "follows (r # rs) qs \<longleftrightarrow> (\<forall>q \<in> set qs. hi key r \<le> lo key q) \<and> follows rs qs"
  "follows (rs @ rs') qs \<longleftrightarrow> follows rs qs \<and> follows rs' qs"
  by (auto simp: follows_def)

lemma covers_cov: "ranges_ok pcomp fam rs \<Longrightarrow> fam v \<Longrightarrow> covers pcomp rs v \<longleftrightarrow> cov rs (key v)"
  by (auto simp: covers_def cov_def ranges_ok_def in_range_cuts)

lemma ranges_ok_Nil [simp]: "ranges_ok pcomp fam []"
  by (simp add: ranges_ok_def)

lemma ranges_ok_Cons:
  "ranges_ok pcomp fam (r # rs) \<longleftrightarrow>
     range_ok pcomp fam r \<and> (\<forall>q \<in> set rs. hi key r \<le> lo key q) \<and> ranges_ok pcomp fam rs"
  by (auto simp: ranges_ok_def FDisjointLeft_cuts)

lemma ranges_ok_append:
  "ranges_ok pcomp fam (rs @ qs) \<longleftrightarrow>
     ranges_ok pcomp fam rs \<and> ranges_ok pcomp fam qs \<and> follows rs qs"
  by (induction rs) (auto simp: ranges_ok_Cons)

lemma ranges_ok_head_before:
  assumes "ranges_ok pcomp fam (r # rs)" "q \<in> set rs" shows "lo key r < lo key q"
  using assms range_ok_cuts[of r] by (auto simp: ranges_ok_Cons)

lemma AppendOrExtend_spec:
  assumes rs: "ranges_ok pcomp fam rs" and res: "rng_cuts res l h" and le: "\<forall>r \<in> set rs. hi key r \<le> l"
  shows "ranges_ok pcomp fam (AppendOrExtend pcomp rs res)"
    and "cov (AppendOrExtend pcomp rs res) k \<longleftrightarrow> cov rs k \<or> \<not> before_cut k l \<and> before_cut k h"
    and "follows rs qs \<Longrightarrow> \<forall>q \<in> set qs. h \<le> lo key q \<Longrightarrow> follows (AppendOrExtend pcomp rs res) qs"
proof -
  have "ranges_ok pcomp fam (AppendOrExtend pcomp rs res) \<and>
    (cov (AppendOrExtend pcomp rs res) k \<longleftrightarrow> cov rs k \<or> \<not> before_cut k l \<and> before_cut k h) \<and>
    (follows rs qs \<longrightarrow> (\<forall>q \<in> set qs. h \<le> lo key q) \<longrightarrow> follows (AppendOrExtend pcomp rs res) qs)"
  proof (cases res)
    case None
    then show ?thesis
      using rs res before_cut_mono[of h l k] by (auto simp: AppendOrExtend_def rng_cuts_def)
  next
    case (Some q)
    then have q: "range_ok pcomp fam q" "lo key q = l" "hi key q = h"
      using res by (auto simp: rng_cuts_def)
    show ?thesis
    proof (cases rs rule: rev_cases)
      case Nil
      then show ?thesis
        using Some q by (simp add: AppendOrExtend_def ranges_ok_Cons)
    next
      case (snoc init lst)
      have lst: "range_ok pcomp fam lst" "hi key lst \<le> lo key q"
        using rs le q by (auto simp: snoc ranges_ok_append ranges_ok_Cons)
      have less: "l < h" "lo key lst < hi key lst"
        using range_ok_cuts[OF q(1)] q(2,3) range_ok_cuts[OF lst(1)] by auto
      have mono: "before_cut k (lo key lst) \<Longrightarrow> before_cut k (hi key lst)" "before_cut k l \<Longrightarrow> before_cut k h"
        using less before_cut_mono by (metis less_imp_le)+
      show ?thesis
        using PrngExtend_cuts[OF lst(1) q(1) lst(2)] rs le q mono
        by (auto simp: snoc Some AppendOrExtend_def ranges_ok_append ranges_ok_Cons list_update_append
            split: option.splits)
    qed
  qed
  then show "ranges_ok pcomp fam (AppendOrExtend pcomp rs res)"
    "cov (AppendOrExtend pcomp rs res) k \<longleftrightarrow> cov rs k \<or> \<not> before_cut k l \<and> before_cut k h"
    "follows rs qs \<Longrightarrow> \<forall>q \<in> set qs. h \<le> lo key q \<Longrightarrow> follows (AppendOrExtend pcomp rs res) qs"
    by blast+
qed

lemma rng_cuts_Some: "range_ok pcomp fam q \<Longrightarrow> rng_cuts (Some q) (lo key q) (hi key q)"
  by (simp add: rng_cuts_def)

lemma AddRemainingRanges_spec:
  assumes "ranges_ok pcomp fam rs" "ranges_ok pcomp fam qs" "follows rs qs"
  shows "ranges_ok pcomp fam (AddRemainingRanges pcomp qs rs) \<and>
    (cov (AddRemainingRanges pcomp qs rs) k \<longleftrightarrow> cov rs k \<or> cov qs k)"
  using assms
proof (induction qs arbitrary: rs)
  case Nil
  then show ?case by (simp add: AddRemainingRanges_def)
next
  case (Cons q qs)
  then have q: "range_ok pcomp fam q" "\<forall>q' \<in> set qs. hi key q \<le> lo key q'" "\<forall>r \<in> set rs. hi key r \<le> lo key q"
    by (auto simp: ranges_ok_Cons)
  note spec = AppendOrExtend_spec[OF Cons.prems(1) rng_cuts_Some[OF q(1)] q(3)]
  have "follows (AppendOrExtend pcomp rs (Some q)) qs"
    using Cons.prems q spec(3) by simp
  then show ?case
    using Cons.IH[OF spec(1)] Cons.prems by (simp add: AddRemainingRanges_def ranges_ok_Cons spec(2) disj_assoc)
qed

subsection \<open>The loops\<close>

lemma cov_beyond: "\<forall>q \<in> set qs. c \<le> lo key q \<Longrightarrow> before_cut k c \<Longrightarrow> \<not> cov qs k"
  using before_cut_mono by (auto simp: cov_def)

text \<open>Dropping the range that ends first.\<close>

lemma union_step:
  assumes x: "ranges_ok pcomp fam (x # xs)" and y: "ranges_ok pcomp fam (y # ys)" and n: "ranges_ok pcomp fam new"
    and fx: "follows new (x # xs)" and fy: "follows new (y # ys)" and le: "hi key x \<le> hi key y"
  defines "new' \<equiv> AppendOrExtend pcomp new (PrngDifferenceLeft pcomp x y)"
  shows "ranges_ok pcomp fam new'" "follows new' xs" "follows new' (y # ys)"
    "cov new' k \<or> cov xs k \<or> cov (y # ys) k \<longleftrightarrow> cov new k \<or> cov (x # xs) k \<or> cov (y # ys) k"
proof -
  have ok: "range_ok pcomp fam x" "range_ok pcomp fam y" "\<forall>q \<in> set xs. hi key x \<le> lo key q"
    "\<forall>q \<in> set (y # ys). lo key y \<le> lo key q"
    using x y ranges_ok_head_before[OF y] by (auto simp: ranges_ok_Cons less_imp_le)
  note cuts = PrngDifferenceLeft_cuts[OF ok(1,2)]
  note spec = AppendOrExtend_spec[OF n cuts, folded new'_def]
  have le_x: "\<forall>r \<in> set new. hi key r \<le> lo key x"
    using fx by simp
  show "ranges_ok pcomp fam new'" "follows new' xs"
    using spec(1,3)[OF le_x] fx ok by (auto simp: min.coboundedI1)
  show "follows new' (y # ys)"
    using ok by (intro spec(3)[OF le_x fy]) (auto simp: min.coboundedI2)
  show "cov new' k \<or> cov xs k \<or> cov (y # ys) k \<longleftrightarrow> cov new k \<or> cov (x # xs) k \<or> cov (y # ys) k"
    using spec(2) fx before_cut_mono[OF le, of k] by auto
qed

lemma union_loop_spec:
  assumes "ranges_ok pcomp fam xs" "ranges_ok pcomp fam ys" "ranges_ok pcomp fam new"
    and "follows new xs" "follows new ys"
  shows "case union_loop pcomp xs ys new of (xs', ys', new') \<Rightarrow>
    ranges_ok pcomp fam xs' \<and> ranges_ok pcomp fam ys' \<and> ranges_ok pcomp fam new' \<and>
    follows new' xs' \<and> follows new' ys' \<and> (xs' = [] \<or> ys' = []) \<and>
    (cov new' k \<or> cov xs' k \<or> cov ys' k \<longleftrightarrow> cov new k \<or> cov xs k \<or> cov ys k)"
  using assms
proof (induction "length xs + length ys" arbitrary: xs ys new rule: less_induct)
  case less
  show ?case
  proof (cases "xs = [] \<or> ys = []")
    case True
    then show ?thesis
      using less.prems by (auto simp: neq_Nil_conv)
  next
    case False
    then obtain x xs' y ys' where xy: "xs = x # xs'" "ys = y # ys'"
      by (auto simp: neq_Nil_conv)
    note ok = less.prems[unfolded xy]
    have tl: "ranges_ok pcomp fam xs'" "ranges_ok pcomp fam ys'" "range_ok pcomp fam x" "range_ok pcomp fam y"
      using ok by (auto simp: ranges_ok_Cons)
    show ?thesis
    proof (cases "FEndsAfter pcomp y x")
      case True
      then have le: "hi key x \<le> hi key y"
        using tl by (auto simp: FEndsAfter_cuts)
      note step = union_step[OF ok le]
      show ?thesis
        using less.hyps[OF _ tl(1) ok(2) step(1-3)] True step(4) by (simp add: xy)
    next
      case False
      then have le: "hi key y \<le> hi key x"
        using tl by (auto simp: FEndsAfter_cuts)
      note step = union_step[OF ok(2,1,3,5,4) le]
      show ?thesis
        using less.hyps[OF _ ok(1) tl(2) step(1,3,2)] False step(4)[of k] by (simp add: xy disj_ac)
    qed
  qed
qed

lemma intersect_step:
  assumes x: "ranges_ok pcomp fam (x # xs)" and y: "ranges_ok pcomp fam (y # ys)" and n: "ranges_ok pcomp fam new"
    and f: "\<forall>r \<in> set new. follows [r] (x # xs) \<or> follows [r] (y # ys)" and le: "hi key x \<le> hi key y"
    and cuts: "rng_cuts res (max (lo key x) (lo key y)) (min (hi key x) (hi key y))"
  defines "new' \<equiv> (case res of None \<Rightarrow> new | Some r \<Rightarrow> new @ [r])"
  shows "ranges_ok pcomp fam new'" "\<forall>r \<in> set new'. follows [r] xs \<or> follows [r] (y # ys)"
    "cov new' k \<or> cov xs k \<and> cov (y # ys) k \<longleftrightarrow> cov new k \<or> cov (x # xs) k \<and> cov (y # ys) k"
proof -
  have ok: "range_ok pcomp fam x" "range_ok pcomp fam y" "\<forall>q \<in> set xs. hi key x \<le> lo key q"
    "\<forall>q \<in> set ys. hi key x \<le> lo key q"
    using x y le by (auto simp: ranges_ok_Cons)
  have min: "min (hi key x) (hi key y) = hi key x"
    using le by (rule min_absorb1)
  show "ranges_ok pcomp fam new'"
    using n f cuts by (auto simp: new'_def rng_cuts_def ranges_ok_append ranges_ok_Cons le_max_iff_disj
        split: option.splits)
  show "\<forall>r \<in> set new'. follows [r] xs \<or> follows [r] (y # ys)"
    using f ok(3) cuts by (auto simp: new'_def rng_cuts_def min split: option.splits)
  have "\<not> (before_cut k (hi key x) \<and> cov ys k)"
    using cov_beyond[OF ok(4)] by blast
  then show "cov new' k \<or> cov xs k \<and> cov (y # ys) k \<longleftrightarrow> cov new k \<or> cov (x # xs) k \<and> cov (y # ys) k"
    using cuts before_cut_mono[OF le, of k] before_cut_mono[of "hi key x" "max (lo key x) (lo key y)" k]
    by (auto simp: new'_def rng_cuts_def min split: option.splits)
qed

lemma intersect_loop_spec:
  assumes "ranges_ok pcomp fam xs" "ranges_ok pcomp fam ys" "ranges_ok pcomp fam new"
    and "\<forall>r \<in> set new. follows [r] xs \<or> follows [r] ys"
  shows "ranges_ok pcomp fam (intersect_loop pcomp xs ys new) \<and>
    (cov (intersect_loop pcomp xs ys new) k \<longleftrightarrow> cov new k \<or> cov xs k \<and> cov ys k)"
  using assms
proof (induction "length xs + length ys" arbitrary: xs ys new rule: less_induct)
  case less
  show ?case
  proof (cases "xs = [] \<or> ys = []")
    case True
    then show ?thesis
      using less.prems by (auto simp: neq_Nil_conv)
  next
    case False
    then obtain x xs' y ys' where xy: "xs = x # xs'" "ys = y # ys'"
      by (auto simp: neq_Nil_conv)
    note ok = less.prems[unfolded xy]
    have tl: "ranges_ok pcomp fam xs'" "ranges_ok pcomp fam ys'" "range_ok pcomp fam x" "range_ok pcomp fam y"
      using ok by (auto simp: ranges_ok_Cons)
    show ?thesis
    proof (cases "FEndsAfter pcomp y x")
      case True
      then have le: "hi key x \<le> hi key y"
        using tl by (auto simp: FEndsAfter_cuts)
      note step = intersect_step[OF ok le PrngIntersect_cuts[OF tl(3,4)]]
      show ?thesis
        using less.hyps[OF _ tl(1) ok(2) step(1,2)] True step(3)[of k] by (simp add: xy)
    next
      case False
      then have le: "hi key y \<le> hi key x"
        using tl by (auto simp: FEndsAfter_cuts)
      have f: "\<forall>r \<in> set new. follows [r] (y # ys') \<or> follows [r] (x # xs')"
        using ok(4) by blast
      note step = intersect_step[OF ok(2,1,3) f le PrngIntersect_cuts[OF tl(4,3)]]
      have f': "\<forall>r \<in> set (case PrngIntersect pcomp y x of None \<Rightarrow> new | Some r \<Rightarrow> new @ [r]).
          follows [r] (x # xs') \<or> follows [r] ys'"
        using step(2) by blast
      show ?thesis
        using less.hyps[OF _ ok(1) tl(2) step(1) f'] False step(3)[of k] by (simp add: xy conj_commute)
    qed
  qed
qed

lemma difference_step_drop:
  assumes t: "ranges_ok pcomp fam (t # xs)" and y: "ranges_ok pcomp fam (y # ys)" and n: "ranges_ok pcomp fam new"
    and f: "follows new (t # xs)" and le: "hi key t \<le> hi key y"
  defines "new' \<equiv> AppendOrExtend pcomp new (PrngDifferenceLeft pcomp t y)"
  shows "ranges_ok pcomp fam new'" "follows new' xs"
    "cov new' k \<or> cov xs k \<and> \<not> cov (y # ys) k \<longleftrightarrow> cov new k \<or> cov (t # xs) k \<and> \<not> cov (y # ys) k"
proof -
  have ok: "range_ok pcomp fam t" "range_ok pcomp fam y" "\<forall>q \<in> set xs. hi key t \<le> lo key q"
    "\<forall>q \<in> set ys. lo key y \<le> lo key q" "\<forall>r \<in> set new. hi key r \<le> lo key t" "follows new xs"
    using t y f ranges_ok_head_before[OF y] by (auto simp: ranges_ok_Cons less_imp_le)
  note spec = AppendOrExtend_spec[OF n PrngDifferenceLeft_cuts[OF ok(1,2)] ok(5), folded new'_def]
  show "ranges_ok pcomp fam new'" "follows new' xs"
    using spec(1,3) ok by (auto simp: min.coboundedI1)
  show "cov new' k \<or> cov xs k \<and> \<not> cov (y # ys) k \<longleftrightarrow> cov new k \<or> cov (t # xs) k \<and> \<not> cov (y # ys) k"
    using spec(2) before_cut_mono[OF le, of k] cov_beyond[OF ok(4), of k] by auto
qed

lemma difference_step_residual:
  assumes t: "ranges_ok pcomp fam (t # xs)" and y: "ranges_ok pcomp fam (y # ys)" and n: "ranges_ok pcomp fam new"
    and f: "follows new (t # xs)" and less: "hi key y < hi key t" and overlap: "lo key t < hi key y"
  obtains ret q where "PrangeDiffWithRightResidual pcomp t y = (ret, Some q)"
    and "ranges_ok pcomp fam (q # xs)" "ranges_ok pcomp fam (AppendOrExtend pcomp new ret)"
    and "follows (AppendOrExtend pcomp new ret) (q # xs)" "\<forall>y' \<in> set ys. lo key q \<le> lo key y'"
    and "\<And>k. cov (AppendOrExtend pcomp new ret) k \<or> cov (q # xs) k \<and> \<not> cov ys k \<longleftrightarrow>
      cov new k \<or> cov (t # xs) k \<and> \<not> cov (y # ys) k"
proof -
  have ok: "range_ok pcomp fam t" "range_ok pcomp fam y" "\<forall>q \<in> set xs. hi key t \<le> lo key q"
    "\<forall>q \<in> set ys. hi key y \<le> lo key q" "\<forall>r \<in> set new. hi key r \<le> lo key t" "follows new xs"
    "ranges_ok pcomp fam xs"
    using t y f by (auto simp: ranges_ok_Cons)
  have ylo: "lo key y < hi key y" by (rule range_ok_cuts[OF ok(2)])
  have max: "max (lo key t) (hi key y) = hi key y" and min: "min (hi key t) (lo key y) = lo key y"
    using overlap less ylo by (auto simp: max_def min_def)
  define ret where "ret = (if rng_Contains pcomp t y then PrngDifferenceLeft pcomp t y else None)"
  obtain q where q: "PrngDifferenceRight pcomp t y = Some q" "range_ok pcomp fam q" "lo key q = hi key y"
      "hi key q = hi key t"
    using PrngDifferenceRight_cuts[OF ok(1,2)] less
    by (auto simp: rng_cuts_def max split: option.splits)
  have ret: "rng_cuts ret (lo key t) (lo key y)"
    using PrngDifferenceLeft_cuts[OF ok(1,2)] less
    by (auto simp: ret_def min rng_Contains_def relation_cuts ok rng_cuts_def)
  note spec = AppendOrExtend_spec[OF n ret ok(5)]
  have eq: "PrangeDiffWithRightResidual pcomp t y = (ret, Some q)"
    using overlap q(1) by (auto simp: PrangeDiffWithRightResidual_def FDisjointLeft_cuts ok ret_def)
  have fol: "follows (AppendOrExtend pcomp new ret) (q # xs)"
    using ok ylo less q(3) overlap f by (intro spec(3)) auto
  have cov: "cov (AppendOrExtend pcomp new ret) k \<or> cov (q # xs) k \<and> \<not> cov ys k \<longleftrightarrow>
      cov new k \<or> cov (t # xs) k \<and> \<not> cov (y # ys) k" for k
  proof -
    have mono: "before_cut k (lo key y) \<Longrightarrow> before_cut k (hi key y)" "before_cut k (hi key y) \<Longrightarrow> before_cut k (hi key t)"
      "before_cut k (lo key t) \<Longrightarrow> before_cut k (hi key y)"
      using ylo less overlap before_cut_mono by (meson less_imp_le)+
    show ?thesis
      using spec(2)[of k] cov_beyond[OF ok(3), of k] cov_beyond[OF ok(4), of k] mono q(3,4) by auto
  qed
  show ?thesis
    using that[OF eq _ spec(1) fol _ cov] q ok by (simp add: ranges_ok_Cons)
qed

lemma difference_step_disjoint:
  assumes "ranges_ok pcomp fam (t # xs)" "hi key y \<le> lo key t"
  shows "\<not> (cov (t # xs) k \<and> \<not> before_cut k (lo key y) \<and> before_cut k (hi key y))"
proof -
  have "\<forall>q \<in> set (t # xs). hi key y \<le> lo key q"
    using assms ranges_ok_head_before by force
  then show ?thesis
    using cov_beyond by blast
qed

definition eff :: "'d CRange list \<Rightarrow> 'd CRange option \<Rightarrow> 'd CRange list" where
  "eff xs residual = (case residual of None \<Rightarrow> xs | Some r \<Rightarrow> r # tl xs)"

lemma difference_loop_spec:
  assumes "ranges_ok pcomp fam (eff xs res)" "ranges_ok pcomp fam ys" "ranges_ok pcomp fam new"
    and "follows new (eff xs res)"
    and "\<And>r. res = Some r \<Longrightarrow> xs \<noteq> [] \<and> (\<forall>y \<in> set ys. lo key r \<le> lo key y)"
  shows "case difference_loop pcomp xs ys res new of (xs', res', new') \<Rightarrow>
    ranges_ok pcomp fam (eff xs' res') \<and> ranges_ok pcomp fam new' \<and> follows new' (eff xs' res') \<and>
    (cov new' k \<or> cov (eff xs' res') k \<longleftrightarrow> cov new k \<or> cov (eff xs res) k \<and> \<not> cov ys k)"
  using assms
proof (induction "length xs + length ys" arbitrary: xs ys new res rule: less_induct)
  case less
  show ?case
  proof (cases "xs = [] \<or> ys = []")
    case True
    then show ?thesis
      using less.prems by (cases res) (auto simp: neq_Nil_conv eff_def)
  next
    case False
    then obtain x xs' y ys' where xy: "xs = x # xs'" "ys = y # ys'"
      by (auto simp: neq_Nil_conv)
    define t where "t = (case res of None \<Rightarrow> x | Some r \<Rightarrow> r)"
    have eff_t: "eff xs res = t # xs'"
      by (simp add: eff_def t_def xy split: option.splits)
    note ok = less.prems(1-4)[unfolded eff_t xy(2)]
    have tl: "ranges_ok pcomp fam xs'" "ranges_ok pcomp fam ys'" "range_ok pcomp fam t" "range_ok pcomp fam y"
      using ok by (auto simp: ranges_ok_Cons)
    show ?thesis
    proof (cases "FEndsWithOrAfter pcomp y t")
      case True
      then have le: "hi key t \<le> hi key y"
        using tl by (simp add: FEndsWithOrAfter_cuts)
      note step = difference_step_drop[OF ok le]
      show ?thesis
        using less.hyps[of xs' ys None, OF _ _ _ step(1)] True step ok tl eff_t
        by (simp add: xy t_def[symmetric] eff_def)
    next
      case end_inside: False
      then have le: "hi key y < hi key t"
        using tl by (auto simp: FEndsWithOrAfter_cuts)
      show ?thesis
      proof (cases "hi key y \<le> lo key t")
        case True
        then have "res = None"
          using less.prems(5) range_ok_cuts[OF tl(4)] by (cases res) (auto simp: xy t_def)
        moreover have "PrangeDiffWithRightResidual pcomp t y = (None, None)"
          using True tl by (simp add: PrangeDiffWithRightResidual_def FDisjointLeft_cuts)
        moreover note difference_step_disjoint[OF ok(1) True, of k]
        ultimately show ?thesis
          using less.hyps[of xs ys' None new] end_inside ok tl eff_t
          by (auto simp: xy t_def eff_def AppendOrExtend_def)
      next
        case False
        then obtain ret q where q: "PrangeDiffWithRightResidual pcomp t y = (ret, Some q)"
          and step: "ranges_ok pcomp fam (q # xs')" "ranges_ok pcomp fam (AppendOrExtend pcomp new ret)"
            "follows (AppendOrExtend pcomp new ret) (q # xs')" "\<forall>y' \<in> set ys'. lo key q \<le> lo key y'"
          and cov: "\<And>k. cov (AppendOrExtend pcomp new ret) k \<or> cov (q # xs') k \<and> \<not> cov ys' k \<longleftrightarrow>
            cov new k \<or> cov (t # xs') k \<and> \<not> cov (y # ys') k"
          using difference_step_residual[OF ok le] by (auto simp: not_le)
        have eff_q: "eff xs (Some q) = q # xs'"
          by (simp add: eff_def xy)
        show ?thesis
          using less.hyps[of xs ys' "Some q" "AppendOrExtend pcomp new ret", unfolded eff_q] end_inside step tl(2) cov[of k]
          by (simp add: eff_t[unfolded xy(1)] xy t_def[symmetric] q)
      qed
    qed
  qed
qed

subsection \<open>The algebra\<close>

lemma pci_holds_cov:
  "pci_ok pcomp fam a \<Longrightarrow> IsNull v \<or> fam v \<Longrightarrow>
    pci_holds pcomp a v \<longleftrightarrow> (if IsNull v then m_fIncludesNull a else cov (m_pdrgprng a) (key v))"
  by (auto simp: pci_holds_def pci_ok_def covers_cov)

lemma PciIntersect_spec:
  assumes "pci_ok pcomp fam a" "pci_ok pcomp fam b"
  shows "pci_ok pcomp fam (PciIntersect pcomp a b)"
    "IsNull v \<or> fam v \<Longrightarrow> pci_holds pcomp (PciIntersect pcomp a b) v \<longleftrightarrow> pci_holds pcomp a v \<and> pci_holds pcomp b v"
proof -
  have spec: "ranges_ok pcomp fam (m_pdrgprng (PciIntersect pcomp a b))"
    "cov (m_pdrgprng (PciIntersect pcomp a b)) k \<longleftrightarrow> cov (m_pdrgprng a) k \<and> cov (m_pdrgprng b) k" for k
    using assms intersect_loop_spec[of "m_pdrgprng a" "m_pdrgprng b" "[]"]
    by (simp_all add: PciIntersect_def pci_ok_def)
  then show "pci_ok pcomp fam (PciIntersect pcomp a b)"
    by (simp add: pci_ok_def)
  then show "IsNull v \<or> fam v \<Longrightarrow> pci_holds pcomp (PciIntersect pcomp a b) v \<longleftrightarrow> pci_holds pcomp a v \<and> pci_holds pcomp b v"
    using assms spec(2) by (simp add: pci_holds_cov) (simp add: PciIntersect_def)
qed

lemma PciUnion_spec:
  assumes "pci_ok pcomp fam a" "pci_ok pcomp fam b"
  shows "pci_ok pcomp fam (PciUnion pcomp a b)"
    "IsNull v \<or> fam v \<Longrightarrow> pci_holds pcomp (PciUnion pcomp a b) v \<longleftrightarrow> pci_holds pcomp a v \<or> pci_holds pcomp b v"
proof -
  obtain xs ys new where loop: "union_loop pcomp (m_pdrgprng a) (m_pdrgprng b) [] = (xs, ys, new)"
    by (metis prod_cases3)
  have inv: "ranges_ok pcomp fam xs" "ranges_ok pcomp fam ys" "ranges_ok pcomp fam new" "follows new xs"
    "follows new ys" "xs = [] \<or> ys = []"
    "cov new k \<or> cov xs k \<or> cov ys k \<longleftrightarrow> cov (m_pdrgprng a) k \<or> cov (m_pdrgprng b) k" for k
    using assms union_loop_spec[of "m_pdrgprng a" "m_pdrgprng b" "[]"] by (simp_all add: pci_ok_def loop)
  have rng: "m_pdrgprng (PciUnion pcomp a b) = AddRemainingRanges pcomp ys (AddRemainingRanges pcomp xs new)"
    by (simp add: PciUnion_def loop)
  have nil: "AddRemainingRanges pcomp [] rs = rs" for rs
    by (simp add: AddRemainingRanges_def)
  have spec: "ranges_ok pcomp fam (m_pdrgprng (PciUnion pcomp a b))"
    "cov (m_pdrgprng (PciUnion pcomp a b)) k \<longleftrightarrow> cov (m_pdrgprng a) k \<or> cov (m_pdrgprng b) k" for k
    using inv(6) AddRemainingRanges_spec[OF inv(3,1,4)] AddRemainingRanges_spec[OF inv(3,2,5)] inv(7)[of k]
    by (auto simp: rng nil)
  then show "pci_ok pcomp fam (PciUnion pcomp a b)"
    by (simp add: pci_ok_def)
  then show "IsNull v \<or> fam v \<Longrightarrow> pci_holds pcomp (PciUnion pcomp a b) v \<longleftrightarrow> pci_holds pcomp a v \<or> pci_holds pcomp b v"
    using assms spec(2) by (simp add: pci_holds_cov) (simp add: PciUnion_def loop)
qed

lemma PciDifference_spec:
  assumes "pci_ok pcomp fam a" "pci_ok pcomp fam b"
  shows "pci_ok pcomp fam (PciDifference pcomp a b)"
    "IsNull v \<or> fam v \<Longrightarrow> pci_holds pcomp (PciDifference pcomp a b) v \<longleftrightarrow> pci_holds pcomp a v \<and> \<not> pci_holds pcomp b v"
proof -
  obtain xs res new where loop: "difference_loop pcomp (m_pdrgprng a) (m_pdrgprng b) None [] = (xs, res, new)"
    by (metis prod_cases3)
  have inv: "ranges_ok pcomp fam (eff xs res)" "ranges_ok pcomp fam new" "follows new (eff xs res)"
    "cov new k \<or> cov (eff xs res) k \<longleftrightarrow> cov (m_pdrgprng a) k \<and> \<not> cov (m_pdrgprng b) k" for k
    using assms difference_loop_spec[of "m_pdrgprng a" None "m_pdrgprng b" "[]"]
    by (simp_all add: pci_ok_def loop eff_def)
  have rng: "m_pdrgprng (PciDifference pcomp a b) = AddRemainingRanges pcomp (eff xs res) new"
    by (cases res) (simp_all add: PciDifference_def loop eff_def AddRemainingRanges_def AppendOrExtend_def)
  have spec: "ranges_ok pcomp fam (m_pdrgprng (PciDifference pcomp a b))"
    "cov (m_pdrgprng (PciDifference pcomp a b)) k \<longleftrightarrow> cov (m_pdrgprng a) k \<and> \<not> cov (m_pdrgprng b) k" for k
    using AddRemainingRanges_spec[OF inv(2,1,3)] inv(4)[of k] by (simp_all add: rng)
  then show "pci_ok pcomp fam (PciDifference pcomp a b)"
    by (simp add: pci_ok_def)
  then show "IsNull v \<or> fam v \<Longrightarrow> pci_holds pcomp (PciDifference pcomp a b) v \<longleftrightarrow> pci_holds pcomp a v \<and> \<not> pci_holds pcomp b v"
    using assms spec(2) by (simp add: pci_holds_cov) (simp add: PciDifference_def loop Let_def)
qed

end

subsection \<open>The values of a column\<close>

text \<open>
  The non-null values of a column: the comparator orders them, and a boolean column has the two truth
  values.
\<close>

locale column_domain = datum_order "Pcomp ctxt" fam key
  for ctxt :: "'d opt_ctxt" and fam :: "'d IDatum \<Rightarrow> bool" and key :: "'d IDatum \<Rightarrow> 'k::linorder" +
  fixes mdid :: mdid
  assumes non_null: "fam v \<Longrightarrow> \<not> IsNull v"
    and bool_fam: "RetrieveType ctxt mdid = EtiBool \<Longrightarrow> fam (CreateBoolDatum ctxt b False)"
    and bool_less: "RetrieveType ctxt mdid = EtiBool \<Longrightarrow>
      key (CreateBoolDatum ctxt False False) < key (CreateBoolDatum ctxt True False)"
    and bool_cases: "\<lbrakk>RetrieveType ctxt mdid = EtiBool; fam v\<rbrakk> \<Longrightarrow>
      key v = key (CreateBoolDatum ctxt False False) \<or> key v = key (CreateBoolDatum ctxt True False)"
begin

abbreviation value_of_column :: "'d IDatum \<Rightarrow> bool" where
  "value_of_column v \<equiv> IsNull v \<or> fam v"

lemma PciUnbounded_spec:
  assumes "FConstrainableType ctxt mdid" "col_mdid colref = mdid"
  obtains u where "PciUnbounded ctxt colref n = Some u" "m_pcr u = colref" "pci_ok (Pcomp ctxt) fam u"
    "\<And>w. value_of_column w \<Longrightarrow> pci_holds (Pcomp ctxt) u w \<longleftrightarrow> (IsNull w \<longrightarrow> n)"
proof (cases "RetrieveType ctxt mdid = EtiBool")
  case True
  let ?F = "CreateBoolDatum ctxt False False" and ?T = "CreateBoolDatum ctxt True False"
  let ?r = "rng_new mdid (Some ?F) EriIncluded (Some ?T) EriIncluded"
  note dom = bool_fam[OF True] bool_less[OF True]
  then have "range_ok (Pcomp ctxt) fam ?r"
    by (simp add: range_ok_def rng_new_def cmp_keys)
  moreover have "in_range (Pcomp ctxt) ?r w" if "fam w" for w
    using bool_cases[OF True that] dom that by (auto simp: in_range_def rng_new_def cmp_keys)
  ultimately show ?thesis
    using True assms
    by (intro that[of "pci_new colref [?r] n"]) (auto simp: PciUnbounded_def pci_ok_def ranges_ok_def pci_holds_def covers_def)
next
  case False
  then show ?thesis
    using assms
    by (intro that[of "pci_new colref [rng_new mdid None EriExcluded None EriExcluded] n"])
      (auto simp: PciUnbounded_def pci_ok_def ranges_ok_def pci_holds_def covers_def range_ok_def in_range_def rng_new_def)
qed

lemma PciComplement_spec:
  assumes "FConstrainableType ctxt mdid" "pci_ok (Pcomp ctxt) fam a" "col_mdid (m_pcr a) = mdid"
  shows "pci_ok (Pcomp ctxt) fam (PciComplement ctxt a)" "m_pcr (PciComplement ctxt a) = m_pcr a"
    "value_of_column v \<Longrightarrow> pci_holds (Pcomp ctxt) (PciComplement ctxt a) v \<longleftrightarrow> \<not> pci_holds (Pcomp ctxt) a v"
proof -
  obtain u where u: "PciUnbounded ctxt (m_pcr a) True = Some u" "m_pcr u = m_pcr a" "pci_ok (Pcomp ctxt) fam u"
    "\<And>w. value_of_column w \<Longrightarrow> pci_holds (Pcomp ctxt) u w \<longleftrightarrow> (IsNull w \<longrightarrow> True)"
    using PciUnbounded_spec[OF assms(1,3)] by metis
  then show "pci_ok (Pcomp ctxt) fam (PciComplement ctxt a)"
    "value_of_column v \<Longrightarrow> pci_holds (Pcomp ctxt) (PciComplement ctxt a) v \<longleftrightarrow> \<not> pci_holds (Pcomp ctxt) a v"
    using PciDifference_spec[OF u(3) assms(2)] by (auto simp: PciComplement_def)
  show "m_pcr (PciComplement ctxt a) = m_pcr a"
    using u by (auto simp: PciComplement_def PciDifference_def Let_def split: prod.splits)
qed

lemma bool_open_range_empty:
  assumes "RetrieveType ctxt mdid = EtiBool" "fam l" "fam v" "fam h"
  shows "\<not> (key l < key v \<and> key v < key h)"
  using bool_cases[OF assms(1,2)] bool_cases[OF assms(1,3)] bool_cases[OF assms(1,4)] by auto

lemma FContradiction_sound:
  assumes "pci_ok (Pcomp ctxt) fam a" "col_mdid (m_pcr a) = mdid" "value_of_column v" "FContradiction ctxt a"
  shows "\<not> pci_holds (Pcomp ctxt) a v"
proof (cases "m_pdrgprng a = []")
  case True
  then show ?thesis
    using assms by (auto simp: FContradiction_def pci_holds_def covers_def split: if_splits)
next
  case False
  then have bool: "RetrieveType ctxt mdid = EtiBool" "\<not> m_fIncludesNull a" and "length (m_pdrgprng a) = 1"
    using assms by (auto simp: FContradiction_def split: if_splits)
  then obtain r where r: "m_pdrgprng a = [r]"
    by (auto simp: length_Suc_conv)
  then obtain l h where lh: "m_pdatumLeft r = Some l" "m_pdatumRight r = Some h"
      "m_eriLeft r = EriExcluded" "m_eriRight r = EriExcluded"
    using assms(4) bool by (auto simp: FContradiction_def split: if_splits)
  then have fam: "fam l" "fam h"
    using assms(1) by (auto simp: pci_ok_def ranges_ok_def r range_ok_def)
  then show ?thesis
    using bool_open_range_empty[OF bool(1) fam(1) _ fam(2), of v] bool(2) assms(3)
    by (auto simp: pci_holds_def covers_def r in_range_def lh cmp_keys split: if_splits)
qed

lemma unbounded_holds: "pci_IsConstraintUnbounded a \<Longrightarrow> pci_holds (Pcomp ctxt) a v"
  by (auto simp: pci_IsConstraintUnbounded_def pci_holds_def covers_def in_range_def
      rng_IsConstraintUnbounded_def length_Suc_conv)

lemma FContainsInterval_sound:
  assumes "pci_ok (Pcomp ctxt) fam a" "pci_ok (Pcomp ctxt) fam b" "col_mdid (m_pcr b) = mdid" "value_of_column v"
    and "FContainsInterval ctxt a b" "pci_holds (Pcomp ctxt) b v"
  shows "pci_holds (Pcomp ctxt) a v"
proof (cases "pci_IsConstraintUnbounded a")
  case True
  then show ?thesis by (rule unbounded_holds)
next
  case False
  then have "FContradiction ctxt (PciDifference (Pcomp ctxt) b a)"
    using assms(5) by (auto simp: FContainsInterval_def split: if_splits)
  moreover have "m_pcr (PciDifference (Pcomp ctxt) b a) = m_pcr b"
    by (simp add: PciDifference_def Let_def split: prod.splits)
  ultimately show ?thesis
    using FContradiction_sound PciDifference_spec[OF assms(2,1)] assms(3,4,6) by metis
qed

end

interpretation col: column_domain ctxt "value_family ctxt m" lint_key m for ctxt m
  by unfold_locales
    (auto simp: value_family_def CreateBoolDatum_def IsDatumMappableToLINT_def lint_key_def)

subsection \<open>Properties\<close>

text \<open>
  \<^bold>\<open>C15\<close> Intersection, union and difference of well-formed interval constraints compute the set
  operations on the values and null, for every comparator that orders the datums; the resulting arrays
  are again ascending and without overlap.
\<close>
theorem interval_algebra:
  assumes "datum_order pcomp fam key" and "pci_ok pcomp fam a" "pci_ok pcomp fam b" and "IsNull v \<or> fam v"
  shows "(pci_holds pcomp (PciIntersect pcomp a b) v \<longleftrightarrow> pci_holds pcomp a v \<and> pci_holds pcomp b v) \<and>
    (pci_holds pcomp (PciUnion pcomp a b) v \<longleftrightarrow> pci_holds pcomp a v \<or> pci_holds pcomp b v) \<and>
    (pci_holds pcomp (PciDifference pcomp a b) v \<longleftrightarrow> pci_holds pcomp a v \<and> \<not> pci_holds pcomp b v) \<and>
    pci_ok pcomp fam (PciIntersect pcomp a b) \<and> pci_ok pcomp fam (PciUnion pcomp a b) \<and>
    pci_ok pcomp fam (PciDifference pcomp a b)"
  using datum_order.PciIntersect_spec[OF assms(1-3)] datum_order.PciUnion_spec[OF assms(1-3)]
    datum_order.PciDifference_spec[OF assms(1-3)] assms(4) by blast

text \<open>The constraints \<open>2 \<le> x < 8\<close> and \<open>5 \<le> x or x is null\<close> on a four-byte integer column.\<close>

definition sample_col :: CColRef where
  "sample_col = \<lparr>col_id = 1, col_mdid = mdid_of 23\<rparr>"

definition sample_pci_left :: "unit CConstraintInterval" where
  "sample_pci_left = pci_new sample_col [sample_range_left] False"

definition sample_pci_right :: "unit CConstraintInterval" where
  "sample_pci_right = pci_new sample_col [sample_range_right] True"

lemma int4_value [simp]: "value_family (sample_ctxt e) (mdid_of 23) (int4_datum n)"
  using int4_family(1)[of e n]
  by (simp add: value_family_def internal_family_def sample_ctxt_def int4_datum_def)

lemma sample_pcis_ok:
  "pci_ok (Pcomp (sample_ctxt e)) (value_family (sample_ctxt e) (mdid_of 23)) sample_pci_left"
  "pci_ok (Pcomp (sample_ctxt e)) (value_family (sample_ctxt e) (mdid_of 23)) sample_pci_right"
  by (simp_all add: pci_ok_def ranges_ok_def range_ok_def sample_pci_left_def sample_pci_right_def
      sample_range_left_def sample_range_right_def rng_of_cmp_def rng_new_def int4_comparisons)

lemmas sample_pci_defs = sample_pci_left_def sample_pci_right_def sample_range_left_def
  sample_range_right_def rng_of_cmp_def rng_new_def sample_col_def

theorem interval_algebra_witness:
  "pci_holds (Pcomp (sample_ctxt False)) (PciUnion (Pcomp (sample_ctxt False)) sample_pci_left sample_pci_right) (int4_datum 3) \<and>
   \<not> pci_holds (Pcomp (sample_ctxt False)) (PciIntersect (Pcomp (sample_ctxt False)) sample_pci_left sample_pci_right) (int4_datum 3)"
proof -
  have "pci_holds (Pcomp (sample_ctxt False)) sample_pci_left (int4_datum 3)"
    "\<not> pci_holds (Pcomp (sample_ctxt False)) sample_pci_right (int4_datum 3)"
    by (simp_all add: pci_holds_def covers_def in_range_def sample_pci_defs int4_comparisons)
      (simp add: int4_datum_def)+
  then show ?thesis
    using interval_algebra[OF vals.datum_order_axioms sample_pcis_ok, of "int4_datum 3" False] by simp
qed

text \<open>
  \<^bold>\<open>C16\<close> On a column of a constrainable type the complement of an interval constraint holds exactly
  where the constraint does not, null included; a constraint reported as contradictory holds for no
  value; and a constraint reported to contain another one holds wherever the other one does.
\<close>
theorem interval_decisions_sound:
  assumes "FConstrainableType ctxt m" and "col_mdid (m_pcr a) = m" "col_mdid (m_pcr b) = m"
    and "pci_ok (Pcomp ctxt) (value_family ctxt m) a" "pci_ok (Pcomp ctxt) (value_family ctxt m) b"
    and "IsNull v \<or> value_family ctxt m v"
  shows "(pci_holds (Pcomp ctxt) (PciComplement ctxt a) v \<longleftrightarrow> \<not> pci_holds (Pcomp ctxt) a v) \<and>
    (FContradiction ctxt a \<longrightarrow> \<not> pci_holds (Pcomp ctxt) a v) \<and>
    (FContainsInterval ctxt a b \<and> pci_holds (Pcomp ctxt) b v \<longrightarrow> pci_holds (Pcomp ctxt) a v)"
  using col.PciComplement_spec(3)[OF assms(1,4,2,6)] col.FContradiction_sound[OF assms(4,2,6)]
    col.FContainsInterval_sound[OF assms(4,5,3,6)] by blast

theorem interval_decisions_sound_witness:
  "pci_holds (Pcomp (sample_ctxt False)) (PciComplement (sample_ctxt False) sample_pci_left) int4_null \<and>
   \<not> pci_holds (Pcomp (sample_ctxt False)) (PciComplement (sample_ctxt False) sample_pci_left) (int4_datum 3)"
proof -
  have "FConstrainableType (sample_ctxt False) (mdid_of 23)" "col_mdid (m_pcr sample_pci_left) = mdid_of 23"
    by (simp_all add: FConstrainableType_def FIntType_def sample_ctxt_def sample_pci_defs)
  note sound = interval_decisions_sound[OF this(1,2,2) sample_pcis_ok(1) sample_pcis_ok(1)]
  have "pci_holds (Pcomp (sample_ctxt False)) sample_pci_left (int4_datum 3)"
    by (simp add: pci_holds_def covers_def in_range_def sample_pci_defs int4_comparisons)
      (simp add: int4_datum_def)
  moreover have "\<not> pci_holds (Pcomp (sample_ctxt False)) sample_pci_left int4_null" "IsNull int4_null"
    by (simp_all add: pci_holds_def sample_pci_defs int4_null_def)
  ultimately show ?thesis
    using sound[of int4_null] sound[of "int4_datum 3"] by simp
qed

end
