(* ===== verification/IntervalExpr.thy ===== *)
theory IntervalExpr
  imports Intervals
begin

text \<open>
  From scalar expressions to interval constraints and back: the \<^verbatim>\<open>PciIntervalFrom...\<close> and \<^verbatim>\<open>Pexpr...\<close>
  functions of \<^verbatim>\<open>libgpopt/src/base/CConstraintInterval.cpp\<close>, the sorted set of datums of
  \<^verbatim>\<open>CDatumSortedSet.cpp\<close>, the expression tests of \<^verbatim>\<open>CPredicateUtils.cpp\<close> and \<^verbatim>\<open>CUtils.cpp\<close> they use, and
  the expressions that \<^verbatim>\<open>CRange.cpp\<close> builds.

  Whether an operator belongs to the operator family of an operand is metadata, the argument \<open>opfam\<close>;
  whether a type has an array type and an operator for a comparison is the argument \<open>arr\<close>.
  Constructing a comparison of a column with a datum of its own type inserts no cast.
\<close>

subsection \<open>Scalar expressions\<close>

datatype EBoolOperator = EboolopAnd | EboolopOr | EboolopNot

datatype EBoolTest = EbtIsTrue | EbtIsNotTrue | EbtIsFalse | EbtIsNotFalse | EbtIsUnknown | EbtIsNotUnknown

datatype EArrCmpType = EarrcmpAny | EarrcmpAll

datatype EmdindexType =
  EmdindBtree | EmdindHash | EmdindBitmap | EmdindGist | EmdindGin | EmdindBrin | EmdindSentinel

datatype 'd CExpression =
  CScalarIdent CColRef
| CScalarConst "'d IDatum"
| CScalarCast bool "'d CExpression"
| CScalarCmp ECmpType "'d CExpression" "'d CExpression"
| CScalarIsDistinctFrom "'d CExpression" "'d CExpression"
| CScalarBoolOp EBoolOperator "'d CExpression list"
| CScalarNullTest "'d CExpression"
| CScalarBooleanTest EBoolTest "'d CExpression"
| CScalarArray "'d CExpression list"
| CScalarArrayCoerce "'d CExpression"
| CScalarArrayCmp EArrCmpType ECmpType "'d CExpression" "'d CExpression"
| CScalarOther nat "'d CExpression list"

type_synonym 'd opfamily = "'d CExpression \<Rightarrow> 'd CExpression \<Rightarrow> EmdindexType \<Rightarrow> bool"

type_synonym array_metadata = "mdid \<Rightarrow> ECmpType \<Rightarrow> bool"

definition BoolValue :: "'d IDatum \<Rightarrow> bool" where
  "BoolValue datum \<longleftrightarrow> LINTMapping datum = Some 1"

definition FScalarIdent :: "'d CExpression \<Rightarrow> bool" where
  "FScalarIdent pexpr = (case pexpr of CScalarIdent _ \<Rightarrow> True | _ \<Rightarrow> False)"

definition FScalarConst :: "'d CExpression \<Rightarrow> bool" where
  "FScalarConst pexpr = (case pexpr of CScalarConst _ \<Rightarrow> True | _ \<Rightarrow> False)"

definition FScalarConstBool :: "'d CExpression \<Rightarrow> bool \<Rightarrow> bool" where
  "FScalarConstBool pexpr val =
     (case pexpr of
        CScalarConst datum \<Rightarrow>
          if GetDatumType datum = EtiBool then \<not> IsNull datum \<and> BoolValue datum = val else False
      | _ \<Rightarrow> False)"

definition FBinaryCoercibleCastedScId :: "'d CExpression \<Rightarrow> bool" where
  "FBinaryCoercibleCastedScId pexpr =
     (case pexpr of CScalarCast is_binary_coercible child \<Rightarrow> is_binary_coercible \<and> FScalarIdent child | _ \<Rightarrow> False)"

definition FBinaryCoercibleCastedConst :: "'d CExpression \<Rightarrow> bool" where
  "FBinaryCoercibleCastedConst pexpr =
     (case pexpr of CScalarCast is_binary_coercible child \<Rightarrow> is_binary_coercible \<and> FScalarConst child | _ \<Rightarrow> False)"

definition FCompareIdentToConst :: "'d CExpression \<Rightarrow> bool" where
  "FCompareIdentToConst pexpr =
     (case pexpr of
        CScalarCmp _ pexprLeft pexprRight \<Rightarrow>
          if \<not> (FScalarIdent pexprLeft \<or> FBinaryCoercibleCastedScId pexprLeft) then False
          else if \<not> (FScalarConst pexprRight \<or> FBinaryCoercibleCastedConst pexprRight) then False
          else True
      | _ \<Rightarrow> False)"

definition FIdentIDFConst :: "'d CExpression \<Rightarrow> bool" where
  "FIdentIDFConst pexpr =
     (case pexpr of
        CScalarIsDistinctFrom pexprLeft pexprRight \<Rightarrow> FScalarIdent pexprLeft \<and> FScalarConst pexprRight
      | _ \<Rightarrow> False)"

definition FScalarConstArray :: "'d CExpression \<Rightarrow> bool" where
  "FScalarConstArray pexprArray =
     (case pexprArray of CScalarArray es \<Rightarrow> list_all FScalarConst es | _ \<Rightarrow> False)"

definition PexprScalarArrayChild :: "'d CExpression \<Rightarrow> 'd CExpression" where
  "PexprScalarArrayChild child = (case child of CScalarArrayCoerce pexprArray \<Rightarrow> pexprArray | _ \<Rightarrow> child)"

definition FScalarArray :: "'d CExpression \<Rightarrow> bool" where
  "FScalarArray pexpr = (case pexpr of CScalarArray _ \<Rightarrow> True | _ \<Rightarrow> False)"

definition FCompareIdentToConstArray :: "'d CExpression \<Rightarrow> bool" where
  "FCompareIdentToConstArray pexpr =
     (case pexpr of
        CScalarArrayCmp _ _ left child \<Rightarrow>
          FScalarIdent left \<and> FScalarArray child \<and> FScalarConstArray (PexprScalarArrayChild child)
      | _ \<Rightarrow> False)"

definition FCompareCastIdentToConstArray :: "'d CExpression \<Rightarrow> bool" where
  "FCompareCastIdentToConstArray pexpr =
     (case pexpr of
        CScalarArrayCmp _ _ left child \<Rightarrow>
          FBinaryCoercibleCastedScId left \<and> FScalarConstArray (PexprScalarArrayChild child)
      | _ \<Rightarrow> False)"

definition const_datum :: "'d CExpression \<Rightarrow> 'd IDatum" where
  "const_datum pexpr = (case pexpr of CScalarConst datum \<Rightarrow> datum | CScalarCast _ (CScalarConst datum) \<Rightarrow> datum)"

subsection \<open>The sorted set of an array's constants\<close>

definition IDatumCmp :: "'d IComparator \<Rightarrow> 'd IDatum \<Rightarrow> 'd IDatum \<Rightarrow> int" where
  "IDatumCmp pcomp dat1 dat2 =
     (if Equals pcomp dat1 dat2 then 0 else if IsLessThan pcomp dat1 dat2 then - 1 else 1)"

fun IsSorted :: "('a \<Rightarrow> 'a \<Rightarrow> int) \<Rightarrow> 'a list \<Rightarrow> bool" where
  "IsSorted compare_func (x # y # zs) = (if compare_func x y > 0 then False else IsSorted compare_func (y # zs))"
| "IsSorted compare_func _ = True"

text \<open>
  \<^verbatim>\<open>Sort\<close> is the C library's sort.  It leaves the order of equal elements open; the model keeps the
  first of them first.
\<close>

fun insert_by :: "('a \<Rightarrow> 'a \<Rightarrow> int) \<Rightarrow> 'a \<Rightarrow> 'a list \<Rightarrow> 'a list" where
  "insert_by compare_func x [] = [x]"
| "insert_by compare_func x (y # ys) =
     (if compare_func x y \<le> 0 then x # y # ys else y # insert_by compare_func x ys)"

definition Sort :: "('a \<Rightarrow> 'a \<Rightarrow> int) \<Rightarrow> 'a list \<Rightarrow> 'a list" where
  "Sort compare_func xs = foldr (insert_by compare_func) xs []"

fun dedup :: "'d IComparator \<Rightarrow> 'd IDatum \<Rightarrow> 'd IDatum list \<Rightarrow> 'd IDatum list" where
  "dedup pcomp prev [] = []"
| "dedup pcomp prev (d # ds) =
     (if \<not> Equals pcomp d prev then d # dedup pcomp d ds else dedup pcomp prev ds)"

definition CDatumSortedSet :: "'d IComparator \<Rightarrow> 'd IDatum list \<Rightarrow> 'd IDatum list" where
  "CDatumSortedSet pcomp elements =
     (let datums = filter (\<lambda>d. \<not> IsNull d) elements;
          sorted_datums = (if \<not> IsSorted (IDatumCmp pcomp) datums then Sort (IDatumCmp pcomp) datums else datums)
      in case sorted_datums of [] \<Rightarrow> [] | d # ds \<Rightarrow> d # dedup pcomp d ds)"

subsection \<open>Intervals of comparisons\<close>

definition PciRangeFromColConstCmp :: "ECmpType \<Rightarrow> 'd IDatum \<Rightarrow> 'd CRange list option" where
  "PciRangeFromColConstCmp cmp_type datum =
     (if cmp_type = EcmptOther then None
      else if cmp_type = EcmptNEq \<or> cmp_type = EcmptIDF
      then Some [rng_of_cmp EcmptL datum, rng_of_cmp EcmptG datum]
      else Some [rng_of_cmp cmp_type datum])"

definition PciIntervalFromColConstCmp ::
  "CColRef \<Rightarrow> ECmpType \<Rightarrow> 'd IDatum \<Rightarrow> bool \<Rightarrow> 'd CConstraintInterval option" where
  "PciIntervalFromColConstCmp colref cmp_type datum infer_nulls_as =
     (case PciRangeFromColConstCmp cmp_type datum of
        None \<Rightarrow> None | Some rs \<Rightarrow> Some (pci_new colref rs infer_nulls_as))"

definition PciIntervalFromScalarCmp ::
  "'d opt_ctxt \<Rightarrow> 'd opfamily \<Rightarrow> 'd CExpression \<Rightarrow> CColRef \<Rightarrow> bool \<Rightarrow> EmdindexType \<Rightarrow> 'd CConstraintInterval option" where
  "PciIntervalFromScalarCmp ctxt opfam pexpr colref infer_nulls_as access_method =
     (case pexpr of
        CScalarCmp cmp_type pexprLeft pexprRight \<Rightarrow>
          if FCompareIdentToConst pexpr then
            if EopttraceConsiderOpfamiliesForDistribution ctxt \<and>
               (\<not> opfam pexprLeft pexpr access_method \<or> \<not> opfam pexprRight pexpr access_method)
            then None
            else PciIntervalFromColConstCmp colref cmp_type (const_datum pexprRight) infer_nulls_as
          else None
      | _ \<Rightarrow> None)"

definition PciIntervalFromScalarIDF ::
  "'d opt_ctxt \<Rightarrow> 'd CExpression \<Rightarrow> CColRef \<Rightarrow> 'd CConstraintInterval option" where
  "PciIntervalFromScalarIDF ctxt pexpr colref =
     (case pexpr of
        CScalarIsDistinctFrom pexprLeft pexprRight \<Rightarrow>
          if FIdentIDFConst pexpr then
            let datum = const_datum pexprRight in
            if IsNull datum then Some (PciComplement ctxt (pci_new colref [] True))
            else (case PciRangeFromColConstCmp EcmptIDF datum of
                    None \<Rightarrow> None | Some rs \<Rightarrow> Some (pci_new colref rs True))
          else None
      | _ \<Rightarrow> None)"

text \<open>The ranges of \<open>NOT IN\<close>; \<open>pprev\<close> is the datum before, at first null.\<close>

fun not_in_ranges :: "'d IDatum option \<Rightarrow> 'd IDatum list \<Rightarrow> 'd CRange list" where
  "not_in_ranges pprev [] = [rng_new (MDId (the pprev)) (Some (the pprev)) EriExcluded None EriExcluded]"
| "not_in_ranges pprev (datum # ds) =
     rng_new (MDId datum) pprev EriExcluded (Some datum) EriExcluded # not_in_ranges (Some datum) ds"

definition PcnstrIntervalFromScalarArrayCmp ::
  "'d opt_ctxt \<Rightarrow> 'd CExpression \<Rightarrow> CColRef \<Rightarrow> bool \<Rightarrow> 'd CConstraintInterval option" where
  "PcnstrIntervalFromScalarArrayCmp ctxt pexpr colref infer_nulls_as =
     (case pexpr of
        CScalarArrayCmp earrcmptype cmp_type left child \<Rightarrow>
          if \<not> (FCompareIdentToConstArray pexpr \<or> FCompareCastIdentToConstArray pexpr) then None
          else (case PexprScalarArrayChild child of
              CScalarArray elems \<Rightarrow>
                if elems = [] then None
                else let datums = CDatumSortedSet (Pcomp ctxt) (map const_datum elems) in
                  (case cmp_type of
                     EcmptEq \<Rightarrow> Some (pci_new colref (map (rng_of_cmp EcmptEq) datums) infer_nulls_as)
                   | EcmptNEq \<Rightarrow> Some (pci_new colref (not_in_ranges None datums) infer_nulls_as)
                   | _ \<Rightarrow> None)
            | _ \<Rightarrow> None)
      | _ \<Rightarrow> None)"

definition PciIntervalFromScalarNullAndUnknownTest ::
  "'d CExpression \<Rightarrow> CColRef \<Rightarrow> 'd CConstraintInterval option" where
  "PciIntervalFromScalarNullAndUnknownTest pexprChild colref =
     (if FScalarIdent pexprChild then Some (pci_new colref [] True) else None)"

definition PciIntervalFromScalarIdent ::
  "'d opt_ctxt \<Rightarrow> CColRef \<Rightarrow> bool \<Rightarrow> 'd CConstraintInterval" where
  "PciIntervalFromScalarIdent ctxt colref infer_nulls_as =
     pci_new colref [rng_of_cmp EcmptEq (CreateBoolDatum ctxt True False)] infer_nulls_as"

subsection \<open>Boolean operators\<close>

text \<open>The recursive calls on the children are arguments of the operators' definitions.\<close>

definition PciIntervalFromScalarBooleanTest ::
  "'d opt_ctxt \<Rightarrow> EBoolTest \<Rightarrow> 'd CExpression \<Rightarrow> CColRef \<Rightarrow> (bool \<Rightarrow> 'd CConstraintInterval option) \<Rightarrow>
   'd CConstraintInterval option" where
  "PciIntervalFromScalarBooleanTest ctxt ebt pexprChild colref pci_of_child =
     (case ebt of
        EbtIsTrue \<Rightarrow> pci_of_child False
      | EbtIsNotFalse \<Rightarrow> pci_of_child True
      | EbtIsNotTrue \<Rightarrow> map_option (PciComplement ctxt) (pci_of_child False)
      | EbtIsFalse \<Rightarrow> map_option (PciComplement ctxt) (pci_of_child True)
      | EbtIsUnknown \<Rightarrow> PciIntervalFromScalarNullAndUnknownTest pexprChild colref
      | EbtIsNotUnknown \<Rightarrow>
          map_option (PciComplement ctxt) (PciIntervalFromScalarNullAndUnknownTest pexprChild colref))"

fun union_round :: "'d IComparator \<Rightarrow> 'd CConstraintInterval list \<Rightarrow> 'd CConstraintInterval list" where
  "union_round pcomp (pci1 # pci2 # pcis) = PciUnion pcomp pci1 pci2 # union_round pcomp pcis"
| "union_round pcomp pcis = pcis"

lemma length_union_round [simp]: "length (union_round pcomp pcis) = (length pcis + 1) div 2"
  by (induction pcomp pcis rule: union_round.induct) auto

function union_all :: "'d IComparator \<Rightarrow> 'd CConstraintInterval list \<Rightarrow> 'd CConstraintInterval list" where
  "union_all pcomp child_constraints =
     (if length child_constraints > 1 then union_all pcomp (union_round pcomp child_constraints)
      else child_constraints)"
  by pat_completeness auto
termination by (relation "measure (\<lambda>(_, pcis). length pcis)") auto

declare union_all.simps [simp del]

definition PciIntervalFromScalarBoolOr ::
  "'d IComparator \<Rightarrow> 'd CConstraintInterval option list \<Rightarrow> 'd CConstraintInterval option" where
  "PciIntervalFromScalarBoolOr pcomp children =
     (if None \<in> set children then None else Some (union_all pcomp (map the children) ! 0))"

definition and_child ::
  "'d IComparator \<Rightarrow> 'd CConstraintInterval option \<Rightarrow> 'd CConstraintInterval option \<Rightarrow> 'd CConstraintInterval option" where
  "and_child pcomp pci pciChild =
     (case (pciChild, pci) of
        (Some child, Some acc) \<Rightarrow> Some (PciIntersect pcomp acc child)
      | (Some child, None) \<Rightarrow> Some child
      | _ \<Rightarrow> pci)"

definition PciIntervalFromScalarBoolAnd ::
  "'d IComparator \<Rightarrow> 'd CConstraintInterval option list \<Rightarrow> 'd CConstraintInterval option" where
  "PciIntervalFromScalarBoolAnd pcomp children = foldl (and_child pcomp) (children ! 0) (drop 1 children)"

fun PciIntervalFromScalarExpr ::
  "'d opt_ctxt \<Rightarrow> 'd opfamily \<Rightarrow> 'd CExpression \<Rightarrow> CColRef \<Rightarrow> bool \<Rightarrow> EmdindexType \<Rightarrow> 'd CConstraintInterval option" where
  "PciIntervalFromScalarExpr ctxt opfam (CScalarNullTest child) colref infer_nulls_as access_method =
     PciIntervalFromScalarNullAndUnknownTest child colref"
| "PciIntervalFromScalarExpr ctxt opfam (CScalarBooleanTest ebt child) colref infer_nulls_as access_method =
     PciIntervalFromScalarBooleanTest ctxt ebt child colref
       (\<lambda>fIncludesNull. PciIntervalFromScalarExpr ctxt opfam child colref fIncludesNull EmdindSentinel)"
| "PciIntervalFromScalarExpr ctxt opfam (CScalarBoolOp eboolop children) colref infer_nulls_as access_method =
     (case eboolop of
        EboolopAnd \<Rightarrow> PciIntervalFromScalarBoolAnd (Pcomp ctxt)
          (map (\<lambda>child. PciIntervalFromScalarExpr ctxt opfam child colref infer_nulls_as access_method) children)
      | EboolopOr \<Rightarrow> PciIntervalFromScalarBoolOr (Pcomp ctxt)
          (map (\<lambda>child. PciIntervalFromScalarExpr ctxt opfam child colref infer_nulls_as access_method) children)
      | EboolopNot \<Rightarrow> map_option (PciComplement ctxt)
          (map (\<lambda>child. PciIntervalFromScalarExpr ctxt opfam child colref (\<not> infer_nulls_as) EmdindSentinel) children ! 0))"
| "PciIntervalFromScalarExpr ctxt opfam (CScalarIdent _) colref infer_nulls_as access_method =
     Some (PciIntervalFromScalarIdent ctxt colref infer_nulls_as)"
| "PciIntervalFromScalarExpr ctxt opfam (CScalarCmp cmp_type l r) colref infer_nulls_as access_method =
     PciIntervalFromScalarCmp ctxt opfam (CScalarCmp cmp_type l r) colref infer_nulls_as access_method"
| "PciIntervalFromScalarExpr ctxt opfam (CScalarIsDistinctFrom l r) colref infer_nulls_as access_method =
     PciIntervalFromScalarIDF ctxt (CScalarIsDistinctFrom l r) colref"
| "PciIntervalFromScalarExpr ctxt opfam (CScalarConst datum) colref infer_nulls_as access_method =
     (if FScalarConstBool (CScalarConst datum) True then PciUnbounded ctxt colref True
      else Some (pci_new colref [] False))"
| "PciIntervalFromScalarExpr ctxt opfam (CScalarArrayCmp t cmp_type l r) colref infer_nulls_as access_method =
     (if EopttraceArrayConstraints ctxt
      then PcnstrIntervalFromScalarArrayCmp ctxt (CScalarArrayCmp t cmp_type l r) colref infer_nulls_as
      else None)"
| "PciIntervalFromScalarExpr ctxt opfam _ colref infer_nulls_as access_method = None"

subsection \<open>From intervals to expressions\<close>

definition PexprScalarConstBool :: "'d opt_ctxt \<Rightarrow> bool \<Rightarrow> 'd CExpression" where
  "PexprScalarConstBool ctxt fval = CScalarConst (CreateBoolDatum ctxt fval False)"

definition PexprScalarCmp :: "CColRef \<Rightarrow> 'd CExpression \<Rightarrow> ECmpType \<Rightarrow> 'd CExpression" where
  "PexprScalarCmp colref pexprRight cmp_type = CScalarCmp cmp_type (CScalarIdent colref) pexprRight"

definition FSkippable :: "'d CExpression \<Rightarrow> bool \<Rightarrow> bool" where
  "FSkippable pexpr fConjunction \<longleftrightarrow>
     fConjunction \<and> FScalarConstBool pexpr True \<or> \<not> fConjunction \<and> FScalarConstBool pexpr False"

definition FReducible :: "'d CExpression \<Rightarrow> bool \<Rightarrow> bool" where
  "FReducible pexpr fConjunction \<longleftrightarrow>
     fConjunction \<and> FScalarConstBool pexpr False \<or> \<not> fConjunction \<and> FScalarConstBool pexpr True"

fun conj_disj_loop :: "bool \<Rightarrow> 'd CExpression list \<Rightarrow> 'd CExpression list \<Rightarrow> 'd CExpression list option" where
  "conj_disj_loop fConjunction [] final = Some final"
| "conj_disj_loop fConjunction (pexpr # pexprs) final =
     (if FSkippable pexpr fConjunction then conj_disj_loop fConjunction pexprs final
      else if FReducible pexpr fConjunction then None
      else conj_disj_loop fConjunction pexprs (final @ [pexpr]))"

definition PexprConjDisj :: "'d opt_ctxt \<Rightarrow> 'd CExpression list \<Rightarrow> bool \<Rightarrow> 'd CExpression" where
  "PexprConjDisj ctxt pdrgpexpr fConjunction =
     (case conj_disj_loop fConjunction pdrgpexpr [] of
        None \<Rightarrow> PexprScalarConstBool ctxt (\<not> fConjunction)
      | Some [] \<Rightarrow> PexprScalarConstBool ctxt fConjunction
      | Some [pexpr] \<Rightarrow> pexpr
      | Some final \<Rightarrow> CScalarBoolOp (if fConjunction then EboolopAnd else EboolopOr) final)"

fun CollectDisjuncts :: "'d CExpression \<Rightarrow> 'd CExpression list" where
  "CollectDisjuncts (CScalarBoolOp EboolopOr children) = concat (map CollectDisjuncts children)"
| "CollectDisjuncts pexpr = [pexpr]"

definition PexprScalarCompEnd ::
  "'d IDatum option \<Rightarrow> ERangeInclusion \<Rightarrow> ECmpType \<Rightarrow> ECmpType \<Rightarrow> CColRef \<Rightarrow> 'd CExpression option" where
  "PexprScalarCompEnd datum eri ecmptIncl ecmptExcl colref =
     (case datum of
        None \<Rightarrow> None
      | Some d \<Rightarrow> Some (PexprScalarCmp colref (CScalarConst d) (if eri = EriIncluded then ecmptIncl else ecmptExcl)))"

definition PexprEquality :: "'d IComparator \<Rightarrow> 'd CRange \<Rightarrow> CColRef \<Rightarrow> 'd CExpression option" where
  "PexprEquality pcomp this colref =
     (case (m_pdatumLeft this, m_pdatumRight this) of
        (Some left, Some right) \<Rightarrow>
          if \<not> Equals pcomp left right \<or> m_eriLeft this = EriExcluded \<or> m_eriRight this = EriExcluded then None
          else Some (PexprScalarCmp colref (CScalarConst left) EcmptEq)
      | _ \<Rightarrow> None)"

definition rng_PexprScalar :: "'d opt_ctxt \<Rightarrow> 'd CRange \<Rightarrow> CColRef \<Rightarrow> 'd CExpression" where
  "rng_PexprScalar ctxt this colref =
     (case PexprEquality (Pcomp ctxt) this colref of
        Some pexprEq \<Rightarrow> pexprEq
      | None \<Rightarrow>
          let pexprLeft = PexprScalarCompEnd (m_pdatumLeft this) (m_eriLeft this) EcmptGEq EcmptG colref;
              pexprRight = PexprScalarCompEnd (m_pdatumRight this) (m_eriRight this) EcmptLEq EcmptL colref
          in PexprConjDisj ctxt
               ((case pexprLeft of None \<Rightarrow> [] | Some e \<Rightarrow> [e]) @ (case pexprRight of None \<Rightarrow> [] | Some e \<Rightarrow> [e])) True)"

definition FConvertsToIn :: "'d IComparator \<Rightarrow> 'd CConstraintInterval \<Rightarrow> bool" where
  "FConvertsToIn pcomp this \<longleftrightarrow> 1 < length (m_pdrgprng this) \<and> list_all (FPoint pcomp) (m_pdrgprng this)"

fun not_in_pattern :: "'d IComparator \<Rightarrow> 'd CRange \<Rightarrow> 'd CRange list \<Rightarrow> bool" where
  "not_in_pattern pcomp pLeftRng [] = True"
| "not_in_pattern pcomp pLeftRng (pRightRng # rngs) =
     (m_eriRight pLeftRng = EriExcluded \<and> m_eriLeft pRightRng = EriExcluded \<and>
      FUpperBoundEqualsLowerBound pcomp pLeftRng pRightRng \<and> not_in_pattern pcomp pRightRng rngs)"

definition FConvertsToNotIn :: "'d IComparator \<Rightarrow> 'd CConstraintInterval \<Rightarrow> bool" where
  "FConvertsToNotIn pcomp this =
     (if length (m_pdrgprng this) \<le> 1 then False
      else if m_pdatumLeft (hd (m_pdrgprng this)) \<noteq> None \<or> m_pdatumRight (last (m_pdrgprng this)) \<noteq> None then False
      else not_in_pattern pcomp (hd (m_pdrgprng this)) (tl (m_pdrgprng this)))"

definition PexprScalarArrayCmp ::
  "array_metadata \<Rightarrow> EArrCmpType \<Rightarrow> ECmpType \<Rightarrow> 'd CExpression list \<Rightarrow> CColRef \<Rightarrow> 'd CExpression option" where
  "PexprScalarArrayCmp arr earrcmptype ecmptype children colref =
     (if \<not> arr (col_mdid colref) ecmptype then None
      else if length children = 1 then Some (PexprScalarCmp colref (children ! 0) ecmptype)
      else Some (CScalarArrayCmp earrcmptype ecmptype (CScalarIdent colref) (CScalarArray children)))"

definition PexprConstructArrayScalar_of ::
  "'d opt_ctxt \<Rightarrow> array_metadata \<Rightarrow> 'd CConstraintInterval \<Rightarrow> bool \<Rightarrow> 'd CExpression option" where
  "PexprConstructArrayScalar_of ctxt arr this fIn =
     (let rngs = (if fIn then m_pdrgprng this else butlast (m_pdrgprng this));
          consts = map (\<lambda>r. CScalarConst (the (m_pdatumRight r))) rngs;
          pexpr = (if fIn then PexprScalarArrayCmp arr EarrcmpAny EcmptEq consts (m_pcr this)
                   else PexprScalarArrayCmp arr EarrcmpAll EcmptNEq consts (m_pcr this))
      in if m_fIncludesNull this
         then Some (PexprConjDisj ctxt
                (CollectDisjuncts (the pexpr) @ CollectDisjuncts (CScalarNullTest (CScalarIdent (m_pcr this)))) False)
         else pexpr)"

definition PexprConstructArrayScalar ::
  "'d opt_ctxt \<Rightarrow> array_metadata \<Rightarrow> 'd CConstraintInterval \<Rightarrow> 'd CExpression option" where
  "PexprConstructArrayScalar ctxt arr this =
     (if length (m_pdrgprng this) \<le> 1 then None
      else if FConvertsToIn (Pcomp ctxt) this then PexprConstructArrayScalar_of ctxt arr this True
      else if FConvertsToNotIn (Pcomp ctxt) this then PexprConstructArrayScalar_of ctxt arr this False
      else None)"

definition PexprConstructDisjunctionScalar :: "'d opt_ctxt \<Rightarrow> 'd CConstraintInterval \<Rightarrow> 'd CExpression" where
  "PexprConstructDisjunctionScalar ctxt this =
     (let pdrgpexpr = map (\<lambda>r. rng_PexprScalar ctxt r (m_pcr this)) (m_pdrgprng this);
          null_test = CScalarNullTest (CScalarIdent (m_pcr this))
      in if length pdrgpexpr = 1 \<and> FScalarConstBool (pdrgpexpr ! 0) True
         then if m_fIncludesNull this then PexprScalarConstBool ctxt True
              else CScalarBoolOp EboolopNot [null_test]
         else PexprConjDisj ctxt (if m_fIncludesNull this then pdrgpexpr @ [null_test] else pdrgpexpr) False)"

definition PexprConstructScalar ::
  "'d opt_ctxt \<Rightarrow> array_metadata \<Rightarrow> 'd CConstraintInterval \<Rightarrow> 'd CExpression" where
  "PexprConstructScalar ctxt arr this =
     (if FContradiction ctxt this then PexprScalarConstBool ctxt False
      else case (if EopttraceArrayConstraints ctxt then PexprConstructArrayScalar ctxt arr this else None) of
             Some pexpr \<Rightarrow> pexpr
           | None \<Rightarrow> PexprConstructDisjunctionScalar ctxt this)"

end
