(* ===== verification/IntervalExprCorrect.thy ===== *)
theory IntervalExprCorrect
  imports IntervalExpr
begin

text \<open>
  Soundness of the interval constraint of a scalar expression.  Expressions are evaluated in SQL's
  three-valued logic for one value of the column; an oracle gives the truth value of the
  subexpressions that have no interval.  A constraint derived with \<open>infer_nulls_as\<close> describes where the
  expression is true or null, otherwise where it is true.
\<close>

subsection \<open>Three-valued evaluation\<close>

definition tv_and :: "bool option list \<Rightarrow> bool option" where
  "tv_and ts = (if Some False \<in> set ts then Some False else if None \<in> set ts then None else Some True)"

definition tv_or :: "bool option list \<Rightarrow> bool option" where
  "tv_or ts = (if Some True \<in> set ts then Some True else if None \<in> set ts then None else Some False)"

definition bool_truth :: "'d IDatum \<Rightarrow> bool option" where
  "bool_truth d = (if IsNull d then None else Some (BoolValue d))"

definition cmp_truth :: "'d IComparator \<Rightarrow> ECmpType \<Rightarrow> 'd IDatum \<Rightarrow> 'd IDatum \<Rightarrow> bool option" where
  "cmp_truth pcomp c a b =
     (if IsNull a \<or> IsNull b then None
      else case c of
          EcmptEq \<Rightarrow> Some (Equals pcomp a b)
        | EcmptNEq \<Rightarrow> Some (\<not> Equals pcomp a b)
        | EcmptL \<Rightarrow> Some (IsLessThan pcomp a b)
        | EcmptLEq \<Rightarrow> Some (IsLessThanOrEqual pcomp a b)
        | EcmptG \<Rightarrow> Some (IsGreaterThan pcomp a b)
        | EcmptGEq \<Rightarrow> Some (IsGreaterThanOrEqual pcomp a b)
        | _ \<Rightarrow> None)"

definition distinct_truth :: "'d IComparator \<Rightarrow> 'd IDatum \<Rightarrow> 'd IDatum \<Rightarrow> bool" where
  "distinct_truth pcomp a b \<longleftrightarrow>
     (if IsNull a \<or> IsNull b then IsNull a \<noteq> IsNull b else \<not> Equals pcomp a b)"

fun scalar_value :: "'d IDatum \<Rightarrow> 'd CExpression \<Rightarrow> 'd IDatum option" where
  "scalar_value v (CScalarIdent _) = Some v"
| "scalar_value v (CScalarConst d) = Some d"
| "scalar_value v (CScalarCast True e) = scalar_value v e"
| "scalar_value v _ = None"

fun truth :: "'d IComparator \<Rightarrow> ('d CExpression \<Rightarrow> bool option) \<Rightarrow> 'd IDatum \<Rightarrow> 'd CExpression \<Rightarrow> bool option" where
  "truth pcomp orc v (CScalarIdent c) = bool_truth v"
| "truth pcomp orc v (CScalarConst d) = bool_truth d"
| "truth pcomp orc v (CScalarCmp c l r) =
     (case (scalar_value v l, scalar_value v r) of
        (Some a, Some b) \<Rightarrow> if c = EcmptOther then orc (CScalarCmp c l r) else cmp_truth pcomp c a b
      | _ \<Rightarrow> orc (CScalarCmp c l r))"
| "truth pcomp orc v (CScalarIsDistinctFrom l r) =
     (case (scalar_value v l, scalar_value v r) of
        (Some a, Some b) \<Rightarrow> Some (distinct_truth pcomp a b)
      | _ \<Rightarrow> orc (CScalarIsDistinctFrom l r))"
| "truth pcomp orc v (CScalarBoolOp op es) =
     (case op of
        EboolopAnd \<Rightarrow> tv_and (map (truth pcomp orc v) es)
      | EboolopOr \<Rightarrow> tv_or (map (truth pcomp orc v) es)
      | EboolopNot \<Rightarrow> map_option Not (map (truth pcomp orc v) es ! 0))"
| "truth pcomp orc v (CScalarNullTest e) =
     Some (case scalar_value v e of Some d \<Rightarrow> IsNull d | None \<Rightarrow> truth pcomp orc v e = None)"
| "truth pcomp orc v (CScalarBooleanTest t e) = Some (let b = truth pcomp orc v e in
     case t of
        EbtIsTrue \<Rightarrow> b = Some True | EbtIsNotTrue \<Rightarrow> b \<noteq> Some True
      | EbtIsFalse \<Rightarrow> b = Some False | EbtIsNotFalse \<Rightarrow> b \<noteq> Some False
      | EbtIsUnknown \<Rightarrow> b = None | EbtIsNotUnknown \<Rightarrow> b \<noteq> None)"
| "truth pcomp orc v (CScalarArrayCmp t c l r) =
     (case (scalar_value v l, PexprScalarArrayChild r) of
        (Some a, CScalarArray es) \<Rightarrow>
          if list_all FScalarConst es
          then (let ts = map (\<lambda>e. cmp_truth pcomp c a (const_datum e)) es in
                case t of EarrcmpAny \<Rightarrow> tv_or ts | EarrcmpAll \<Rightarrow> tv_and ts)
          else orc (CScalarArrayCmp t c l r)
      | _ \<Rightarrow> orc (CScalarArrayCmp t c l r))"
| "truth pcomp orc v e = orc e"

definition expr_holds :: "bool \<Rightarrow> bool option \<Rightarrow> bool" where
  "expr_holds infer_nulls_as t = (case t of None \<Rightarrow> infer_nulls_as | Some b \<Rightarrow> b)"

subsection \<open>Which expressions\<close>

text \<open>
  The constants of an expression belong to the type of the column, and boolean operators have operands.
\<close>

fun consts_ok :: "'d opt_ctxt \<Rightarrow> ('d IDatum \<Rightarrow> bool) \<Rightarrow> mdid \<Rightarrow> 'd CExpression \<Rightarrow> bool" where
  "consts_ok ctxt fam mdid (CScalarIdent c) \<longleftrightarrow> RetrieveType ctxt mdid = EtiBool"
| "consts_ok ctxt fam mdid (CScalarConst d) \<longleftrightarrow> GetDatumType d = EtiBool"
| "consts_ok ctxt fam mdid (CScalarCmp c l r) \<longleftrightarrow>
     (FCompareIdentToConst (CScalarCmp c l r) \<longrightarrow> fam (const_datum r) \<and> c \<noteq> EcmptIDF)"
| "consts_ok ctxt fam mdid (CScalarIsDistinctFrom l r) \<longleftrightarrow>
     (FIdentIDFConst (CScalarIsDistinctFrom l r) \<longrightarrow> IsNull (const_datum r) \<or> fam (const_datum r))"
| "consts_ok ctxt fam mdid (CScalarBoolOp op es) \<longleftrightarrow> es \<noteq> [] \<and> (\<forall>e \<in> set es. consts_ok ctxt fam mdid e)"
| "consts_ok ctxt fam mdid (CScalarBooleanTest t e) \<longleftrightarrow> consts_ok ctxt fam mdid e"
| "consts_ok ctxt fam mdid (CScalarArrayCmp t c l r) \<longleftrightarrow>
     (case PexprScalarArrayChild r of
        CScalarArray es \<Rightarrow> (\<forall>e \<in> set es. IsNull (const_datum e) \<or> fam (const_datum e)) \<and>
          (c = EcmptNEq \<longrightarrow> (\<exists>e \<in> set es. \<not> IsNull (const_datum e)))
      | _ \<Rightarrow> True)"
| "consts_ok ctxt fam mdid e \<longleftrightarrow> True"

text \<open>
  Expressions whose interval is exact: no conjunct is dropped, no null constant meets
  \<open>infer_nulls_as\<close>, and array comparisons are \<open>= ANY\<close> or \<open><> ALL\<close> with no null element that matters.
\<close>

fun exact_shape :: "'d opt_ctxt \<Rightarrow> 'd opfamily \<Rightarrow> CColRef \<Rightarrow> 'd CExpression \<Rightarrow> bool \<Rightarrow> EmdindexType \<Rightarrow> bool" where
  "exact_shape ctxt opfam colref (CScalarConst d) nulls am \<longleftrightarrow> \<not> (IsNull d \<and> nulls)"
| "exact_shape ctxt opfam colref (CScalarBoolOp op es) nulls am \<longleftrightarrow>
     (case op of
        EboolopAnd \<Rightarrow> (\<forall>e \<in> set es. PciIntervalFromScalarExpr ctxt opfam e colref nulls am \<noteq> None \<and>
                        exact_shape ctxt opfam colref e nulls am)
      | EboolopOr \<Rightarrow> (\<forall>e \<in> set es. exact_shape ctxt opfam colref e nulls am)
      | EboolopNot \<Rightarrow> (\<forall>e \<in> set es. exact_shape ctxt opfam colref e (\<not> nulls) EmdindSentinel))"
| "exact_shape ctxt opfam colref (CScalarBooleanTest t e) nulls am \<longleftrightarrow>
     exact_shape ctxt opfam colref e (t = EbtIsNotFalse \<or> t = EbtIsFalse) EmdindSentinel"
| "exact_shape ctxt opfam colref (CScalarArrayCmp t c l r) nulls am \<longleftrightarrow>
     (c = EcmptEq \<longrightarrow> t = EarrcmpAny) \<and> (c = EcmptNEq \<longrightarrow> t = EarrcmpAll) \<and>
     (case PexprScalarArrayChild r of
        CScalarArray es \<Rightarrow> (\<forall>e \<in> set es. IsNull (const_datum e) \<longrightarrow> (nulls \<longleftrightarrow> c = EcmptNEq))
      | _ \<Rightarrow> True)"
| "exact_shape ctxt opfam colref e nulls am \<longleftrightarrow> True"

text \<open>
  Expressions whose interval misses no value: a dropped conjunct is harmless except below a negation.
\<close>

fun covered_shape :: "'d opt_ctxt \<Rightarrow> 'd opfamily \<Rightarrow> CColRef \<Rightarrow> 'd CExpression \<Rightarrow> bool \<Rightarrow> EmdindexType \<Rightarrow> bool" where
  "covered_shape ctxt opfam colref (CScalarBoolOp op es) nulls am \<longleftrightarrow>
     (case op of
        EboolopNot \<Rightarrow> (\<forall>e \<in> set es. exact_shape ctxt opfam colref e (\<not> nulls) EmdindSentinel)
      | _ \<Rightarrow> (\<forall>e \<in> set es. covered_shape ctxt opfam colref e nulls am))"
| "covered_shape ctxt opfam colref (CScalarBooleanTest t e) nulls am \<longleftrightarrow>
     (if t = EbtIsTrue \<or> t = EbtIsNotFalse then covered_shape ctxt opfam colref e (t = EbtIsNotFalse) EmdindSentinel
      else exact_shape ctxt opfam colref e (t = EbtIsFalse) EmdindSentinel)"
| "covered_shape ctxt opfam colref e nulls am \<longleftrightarrow> exact_shape ctxt opfam colref e nulls am"

subsection \<open>The sorted set of constants\<close>

lemma set_insert_by: "set (insert_by f x xs) = insert x (set xs)"
  by (induction xs) auto

lemma set_Sort: "set (Sort f xs) = set xs"
  by (induction xs) (auto simp: Sort_def set_insert_by)

context datum_order
begin

abbreviation ascending :: "'d IDatum list \<Rightarrow> bool" where
  "ascending ds \<equiv> sorted_wrt (\<lambda>a b. key a \<le> key b) ds"

abbreviation strictly_ascending :: "'d IDatum list \<Rightarrow> bool" where
  "strictly_ascending ds \<equiv> sorted_wrt (\<lambda>a b. key a < key b) ds"

lemma IDatumCmp_key: "fam a \<Longrightarrow> fam b \<Longrightarrow> IDatumCmp pcomp a b \<le> 0 \<longleftrightarrow> key a \<le> key b"
  by (auto simp: IDatumCmp_def cmp_keys)

lemma insert_by_ascending:
  "\<lbrakk>fam x; \<forall>d \<in> set ds. fam d; ascending ds\<rbrakk> \<Longrightarrow> ascending (insert_by (IDatumCmp pcomp) x ds)"
  by (induction ds) (auto simp: IDatumCmp_key set_insert_by)

lemma Sort_ascending: "\<forall>d \<in> set ds. fam d \<Longrightarrow> ascending (Sort (IDatumCmp pcomp) ds)"
proof (induction ds)
  case (Cons d ds)
  have "\<forall>e \<in> set (foldr (insert_by (IDatumCmp pcomp)) ds []). fam e"
    using Cons.prems set_Sort[of "IDatumCmp pcomp" ds] by (simp add: Sort_def)
  then show ?case
    using Cons insert_by_ascending[of d] by (simp add: Sort_def)
qed (simp add: Sort_def)

lemma IsSorted_ascending: "\<forall>d \<in> set ds. fam d \<Longrightarrow> IsSorted (IDatumCmp pcomp) ds \<Longrightarrow> ascending ds"
proof (induction ds rule: induct_list012)
  case (3 x y zs)
  then have "key x \<le> key y" "ascending (y # zs)"
    by (auto simp: IDatumCmp_key[symmetric] not_less split: if_splits)
  then show ?case by auto
qed auto

lemma dedup_spec:
  assumes "fam prev" "\<forall>d \<in> set ds. fam d" "ascending (prev # ds)"
  shows "strictly_ascending (prev # dedup pcomp prev ds) \<and> set (dedup pcomp prev ds) \<subseteq> set ds \<and>
    insert (key prev) (key ` set (dedup pcomp prev ds)) = insert (key prev) (key ` set ds)"
  using assms
proof (induction ds arbitrary: prev)
  case (Cons d ds)
  show ?case
  proof (cases "Equals pcomp d prev")
    case True
    then have "key d = key prev"
      using Cons.prems by (simp add: cmp_keys)
    then show ?thesis
      using Cons.IH[of prev] Cons.prems True by (auto simp: image_iff)
  next
    case False
    then have less: "key prev < key d"
      using Cons.prems by (simp add: cmp_keys order.strict_iff_order)
    have IH: "strictly_ascending (d # dedup pcomp d ds)" "set (dedup pcomp d ds) \<subseteq> set ds"
      "insert (key d) (key ` set (dedup pcomp d ds)) = insert (key d) (key ` set ds)"
      using Cons.IH[of d] Cons.prems by auto
    then show ?thesis
      using False less by auto
  qed
qed simp

lemma CDatumSortedSet_spec:
  assumes "\<forall>d \<in> set ds. IsNull d \<or> fam d"
  shows "strictly_ascending (CDatumSortedSet pcomp ds)" "\<forall>d \<in> set (CDatumSortedSet pcomp ds). fam d \<and> \<not> IsNull d"
    "key ` set (CDatumSortedSet pcomp ds) = key ` {d \<in> set ds. \<not> IsNull d}"
proof -
  let ?ds = "filter (\<lambda>d. \<not> IsNull d) ds"
  define es where "es = (if \<not> IsSorted (IDatumCmp pcomp) ?ds then Sort (IDatumCmp pcomp) ?ds else ?ds)"
  have fam: "\<forall>d \<in> set ?ds. fam d"
    using assms by auto
  have es: "set es = {d \<in> set ds. \<not> IsNull d}" "ascending es"
    using Sort_ascending[OF fam] IsSorted_ascending[OF fam] by (auto simp: es_def set_Sort)
  have eq: "CDatumSortedSet pcomp ds = (case es of [] \<Rightarrow> [] | d # ds \<Rightarrow> d # dedup pcomp d ds)"
    by (simp add: CDatumSortedSet_def es_def)
  have all: "\<forall>d \<in> set es. fam d \<and> \<not> IsNull d"
    using es assms by auto
  show "strictly_ascending (CDatumSortedSet pcomp ds)" "\<forall>d \<in> set (CDatumSortedSet pcomp ds). fam d \<and> \<not> IsNull d"
    using dedup_spec[of "hd es" "tl es"] es(2) all by (cases es; auto simp: eq)+
  show "key ` set (CDatumSortedSet pcomp ds) = key ` {d \<in> set ds. \<not> IsNull d}"
    unfolding es(1)[symmetric] using dedup_spec[of "hd es" "tl es"] es(2) all by (cases es) (auto simp: eq)
qed

subsection \<open>Ranges of constants\<close>

lemma rng_of_cmp_cuts:
  assumes "fam d"
  shows "c \<in> {EcmptEq, EcmptL, EcmptLEq, EcmptG, EcmptGEq} \<Longrightarrow> range_ok pcomp fam (rng_of_cmp c d)"
    "lo key (rng_of_cmp EcmptEq d) = At (key d) False" "hi key (rng_of_cmp EcmptEq d) = At (key d) True"
    "hi key (rng_of_cmp EcmptL d) = At (key d) False" "lo key (rng_of_cmp EcmptG d) = At (key d) True"
  using assms by (auto simp: range_ok_def rng_of_cmp_def rng_new_def lo_def hi_def cmp_keys)

lemma PciRangeFromColConstCmp_spec:
  assumes "fam d" "PciRangeFromColConstCmp c d = Some rs"
  shows "ranges_ok pcomp fam rs"
    "\<lbrakk>fam v; \<not> IsNull v; \<not> IsNull d; c \<noteq> EcmptIDF\<rbrakk> \<Longrightarrow> covers pcomp rs v \<longleftrightarrow> cmp_truth pcomp c v d = Some True"
    "\<lbrakk>fam v; c = EcmptIDF\<rbrakk> \<Longrightarrow> covers pcomp rs v \<longleftrightarrow> \<not> Equals pcomp v d"
  using assms
  by (cases c; auto simp: PciRangeFromColConstCmp_def ranges_ok_Cons rng_of_cmp_cuts;
      auto simp: covers_def in_range_def rng_of_cmp_def rng_new_def cmp_truth_def cmp_keys)+

lemma in_ranges_spec:
  assumes "strictly_ascending ds" "\<forall>d \<in> set ds. fam d"
  shows "ranges_ok pcomp fam (map (rng_of_cmp EcmptEq) ds)"
    "fam v \<Longrightarrow> covers pcomp (map (rng_of_cmp EcmptEq) ds) v \<longleftrightarrow> key v \<in> key ` set ds"
proof -
  show "ranges_ok pcomp fam (map (rng_of_cmp EcmptEq) ds)"
    using assms by (induction ds) (auto simp: ranges_ok_Cons rng_of_cmp_cuts)
  show "fam v \<Longrightarrow> covers pcomp (map (rng_of_cmp EcmptEq) ds) v \<longleftrightarrow> key v \<in> key ` set ds"
    using assms
    by (simp add: covers_def in_range_def rng_of_cmp_def rng_new_def cmp_keys image_iff) (metis order.antisym order.refl)
qed

lemma not_in_ranges_spec:
  assumes "strictly_ascending ds" "\<forall>d \<in> set ds. fam d"
    and "case prev of None \<Rightarrow> ds \<noteq> [] | Some p \<Rightarrow> fam p \<and> (\<forall>d \<in> set ds. key p < key d)"
  shows "ranges_ok pcomp fam (not_in_ranges prev ds) \<and>
    (\<forall>r \<in> set (not_in_ranges prev ds). (case prev of None \<Rightarrow> MinusInf | Some p \<Rightarrow> At (key p) True) \<le> lo key r) \<and>
    (\<forall>k. cov (not_in_ranges prev ds) k \<longleftrightarrow> k \<notin> key ` set ds \<and> (case prev of None \<Rightarrow> True | Some p \<Rightarrow> key p < k))"
  using assms
proof (induction ds arbitrary: prev)
  case Nil
  then show ?case
    by (auto simp: ranges_ok_Cons range_ok_def rng_new_def lo_def hi_def before_cut_def split: option.splits)
next
  case (Cons d ds)
  then have IH: "ranges_ok pcomp fam (not_in_ranges (Some d) ds)"
    "\<forall>r \<in> set (not_in_ranges (Some d) ds). At (key d) True \<le> lo key r"
    "\<forall>k. cov (not_in_ranges (Some d) ds) k \<longleftrightarrow> k \<notin> key ` set ds \<and> key d < k"
    using Cons.IH[of "Some d"] by auto
  let ?r = "rng_new (MDId d) prev EriExcluded (Some d) EriExcluded"
  have r: "range_ok pcomp fam ?r" "hi key ?r = At (key d) False"
    "lo key ?r = (case prev of None \<Rightarrow> MinusInf | Some p \<Rightarrow> At (key p) True)"
    using Cons.prems by (auto simp: range_ok_def rng_new_def lo_def hi_def cmp_keys split: option.splits)
  have less: "\<forall>e \<in> set ds. key d < key e"
    using Cons.prems by auto
  have le: "(case prev of None \<Rightarrow> MinusInf | Some p \<Rightarrow> At (key p) True) \<le> At (key d) True"
    "At (key d) False \<le> At (key d) True"
    using Cons.prems by (auto split: option.splits)
  have "\<forall>q \<in> set (not_in_ranges (Some d) ds). hi key ?r \<le> lo key q"
    using IH(2) order_trans[OF le(2)] unfolding r(2) by blast
  then have ok: "ranges_ok pcomp fam (not_in_ranges prev (d # ds))"
    using IH(1) r(1) by (simp add: ranges_ok_Cons)
  have "\<forall>q \<in> set (not_in_ranges (Some d) ds). lo key ?r \<le> lo key q"
    using IH(2) order_trans[OF le(1)] unfolding r(3) by blast
  then have low: "\<forall>q \<in> set (not_in_ranges prev (d # ds)). lo key ?r \<le> lo key q"
    by simp
  have "\<not> before_cut k (lo key ?r) \<longleftrightarrow> (case prev of None \<Rightarrow> True | Some p \<Rightarrow> key p < k)" for k
    by (auto simp: r(3) before_cut_def split: option.splits)
  then have "cov (not_in_ranges prev (d # ds)) k \<longleftrightarrow>
      (case prev of None \<Rightarrow> True | Some p \<Rightarrow> key p < k) \<and> k < key d \<or> k \<notin> key ` set ds \<and> key d < k" for k
    using IH(3) by (simp add: r(2) before_cut_def)
  then have "cov (not_in_ranges prev (d # ds)) k \<longleftrightarrow>
      k \<notin> key ` set (d # ds) \<and> (case prev of None \<Rightarrow> True | Some p \<Rightarrow> key p < k)" for k
    using less Cons.prems(3) by (cases prev) (auto simp: neq_iff)
  then show ?case
    using ok low by (simp add: r(3))
qed

end

subsection \<open>Conjunctions, disjunctions, negations\<close>

lemma expr_holds_simps [simp]:
  "expr_holds nulls (Some b) = b" "expr_holds nulls None = nulls"
  "expr_holds nulls (tv_and ts) \<longleftrightarrow> (\<forall>t \<in> set ts. expr_holds nulls t)"
  "expr_holds nulls (tv_or ts) \<longleftrightarrow> (\<exists>t \<in> set ts. expr_holds nulls t)"
  "expr_holds nulls (map_option Not t) \<longleftrightarrow> \<not> expr_holds (\<not> nulls) t"
proof -
  have true: "expr_holds nulls t \<longleftrightarrow> t = Some True \<or> nulls \<and> t = None"
    and false: "expr_holds nulls t \<longleftrightarrow> t \<noteq> Some False \<and> (t = None \<longrightarrow> nulls)" for nulls t
    by (auto simp: expr_holds_def split: option.splits)
  show "expr_holds nulls (Some b) = b" "expr_holds nulls None = nulls"
    "expr_holds nulls (map_option Not t) \<longleftrightarrow> \<not> expr_holds (\<not> nulls) t"
    by (auto simp: expr_holds_def split: option.splits)
  show "expr_holds nulls (tv_and ts) \<longleftrightarrow> (\<forall>t \<in> set ts. expr_holds nulls t)"
    unfolding false by (auto simp: tv_and_def)
  show "expr_holds nulls (tv_or ts) \<longleftrightarrow> (\<exists>t \<in> set ts. expr_holds nulls t)"
    unfolding true by (auto simp: tv_or_def) (metis not_None_eq)
qed

context datum_order
begin

lemma algebra_columns [simp]:
  "m_pcr (PciIntersect pcomp a b) = m_pcr a" "m_pcr (PciUnion pcomp a b) = m_pcr a"
  by (simp_all add: PciIntersect_def PciUnion_def split: prod.splits)

definition pci_for :: "CColRef \<Rightarrow> 'd CConstraintInterval option \<Rightarrow> bool" where
  "pci_for colref res \<longleftrightarrow> (case res of None \<Rightarrow> True | Some a \<Rightarrow> pci_ok pcomp fam a \<and> m_pcr a = colref)"

definition res_holds :: "'d IDatum \<Rightarrow> 'd CConstraintInterval option \<Rightarrow> bool" where
  "res_holds v res \<longleftrightarrow> (case res of None \<Rightarrow> True | Some a \<Rightarrow> pci_holds pcomp a v)"

lemma res_simps [simp]:
  "pci_for colref None" "res_holds v None" "res_holds v (Some a) \<longleftrightarrow> pci_holds pcomp a v"
  "pci_for colref (Some a) \<longleftrightarrow> pci_ok pcomp fam a \<and> m_pcr a = colref"
  by (simp_all add: pci_for_def res_holds_def)

lemma and_child_spec:
  assumes "pci_for colref acc" "pci_for colref c"
  shows "pci_for colref (and_child pcomp acc c)"
    and "IsNull v \<or> fam v \<Longrightarrow> res_holds v (and_child pcomp acc c) \<longleftrightarrow> res_holds v acc \<and> res_holds v c"
proof -
  show "pci_for colref (and_child pcomp acc c)"
    using assms PciIntersect_spec(1) by (cases acc; cases c) (simp_all add: and_child_def)
  assume v: "IsNull v \<or> fam v"
  show "res_holds v (and_child pcomp acc c) \<longleftrightarrow> res_holds v acc \<and> res_holds v c"
    using assms PciIntersect_spec(2)[OF _ _ v] by (cases acc; cases c) (simp_all add: and_child_def)
qed

lemma BoolAnd_spec:
  assumes "pci_for colref acc" "\<forall>c \<in> set cs. pci_for colref c"
  shows "pci_for colref (foldl (and_child pcomp) acc cs) \<and>
    (IsNull v \<or> fam v \<longrightarrow>
      (res_holds v (foldl (and_child pcomp) acc cs) \<longleftrightarrow> res_holds v acc \<and> (\<forall>c \<in> set cs. res_holds v c)))"
  using assms
proof (induction cs arbitrary: acc)
  case (Cons c cs)
  have c: "pci_for colref c" and cs: "\<forall>c \<in> set cs. pci_for colref c"
    using Cons.prems(2) by simp_all
  note step = and_child_spec[OF Cons.prems(1) c]
  show ?case
    using Cons.IH[OF step(1) cs] step(2) by simp
qed simp

lemma union_round_spec:
  assumes "\<forall>a \<in> set pcis. pci_ok pcomp fam a \<and> m_pcr a = colref"
  shows "\<forall>a \<in> set (union_round pcomp pcis). pci_ok pcomp fam a \<and> m_pcr a = colref"
    and "IsNull v \<or> fam v \<Longrightarrow>
      (\<exists>a \<in> set (union_round pcomp pcis). pci_holds pcomp a v) \<longleftrightarrow> (\<exists>a \<in> set pcis. pci_holds pcomp a v)"
  using assms
proof (induction pcis rule: induct_list012)
  case (3 a b pcis)
  {
    case 1
    then have ab: "pci_ok pcomp fam a" "pci_ok pcomp fam b" "m_pcr a = colref"
      and rest: "\<forall>a \<in> set pcis. pci_ok pcomp fam a \<and> m_pcr a = colref"
      by simp_all
    show ?case
      using 3(1)[OF rest] PciUnion_spec(1)[OF ab(1,2)] ab(3) by simp
  next
    case 2
    then have ab: "pci_ok pcomp fam a" "pci_ok pcomp fam b"
      and rest: "\<forall>a \<in> set pcis. pci_ok pcomp fam a \<and> m_pcr a = colref"
      by simp_all
    show ?case
      using 3(2)[OF 2(1) rest] PciUnion_spec(2)[OF ab 2(1)] by (simp add: disj_assoc)
  }
qed simp_all

lemma union_all_spec:
  assumes "\<forall>a \<in> set as. pci_ok pcomp fam a \<and> m_pcr a = colref" "as \<noteq> []"
  shows "\<exists>r. union_all pcomp as = [r] \<and> pci_ok pcomp fam r \<and> m_pcr r = colref \<and>
    (\<forall>v. IsNull v \<or> fam v \<longrightarrow> (pci_holds pcomp r v \<longleftrightarrow> (\<exists>a \<in> set as. pci_holds pcomp a v)))"
  using assms
proof (induction "length as" arbitrary: as rule: less_induct)
  case less
  show ?case
  proof (cases "length as > 1")
    case True
    note round = union_round_spec[OF less.prems(1)]
    have len: "length (union_round pcomp as) < length as" "union_round pcomp as \<noteq> []"
      using True by (simp, simp flip: length_0_conv)
    show ?thesis
      using less.hyps[OF len(1) round(1) len(2)] True by (simp add: union_all.simps[of pcomp as] round(2))
  next
    case False
    then obtain r where "as = [r]"
      using less.prems(2) by (cases as; cases "tl as") auto
    then show ?thesis
      using less.prems by (simp add: union_all.simps)
  qed
qed

end

subsection \<open>Leaves\<close>

locale expr_domain = column_domain +
  assumes bool_value: "\<lbrakk>RetrieveType ctxt mdid = EtiBool; fam v\<rbrakk> \<Longrightarrow>
    BoolValue v \<longleftrightarrow> key v = key (CreateBoolDatum ctxt True False)"
begin

abbreviation pc :: "'a IComparator" where
  "pc \<equiv> Pcomp ctxt"

lemma pci_new_spec:
  assumes "ranges_ok pc fam rs"
  shows "pci_for colref (Some (pci_new colref rs n))"
    and "value_of_column v \<Longrightarrow> (fam v \<Longrightarrow> covers pc rs v \<longleftrightarrow> b) \<Longrightarrow>
      pci_holds pc (pci_new colref rs n) v \<longleftrightarrow> (if IsNull v then n else b)"
  using assms by (auto simp: pci_ok_def pci_holds_def)

lemma Ident_spec:
  assumes "RetrieveType ctxt mdid = EtiBool" "value_of_column v"
  shows "pci_for colref (Some (PciIntervalFromScalarIdent ctxt colref n))"
    and "pci_holds pc (PciIntervalFromScalarIdent ctxt colref n) v \<longleftrightarrow> expr_holds n (bool_truth v)"
proof -
  let ?T = "CreateBoolDatum ctxt True False"
  have T: "fam ?T" by (rule bool_fam[OF assms(1)])
  have ok: "ranges_ok pc fam [rng_of_cmp EcmptEq ?T]"
    using rng_of_cmp_cuts(1)[OF T, of EcmptEq] by (simp add: ranges_ok_Cons)
  have "fam v \<Longrightarrow> covers pc [rng_of_cmp EcmptEq ?T] v \<longleftrightarrow> BoolValue v"
    using in_ranges_spec(2)[of "[?T]" v] T bool_value[OF assms(1)] by simp
  then show "pci_for colref (Some (PciIntervalFromScalarIdent ctxt colref n))"
    "pci_holds pc (PciIntervalFromScalarIdent ctxt colref n) v \<longleftrightarrow> expr_holds n (bool_truth v)"
    using pci_new_spec[OF ok] assms(2) by (auto simp: PciIntervalFromScalarIdent_def bool_truth_def)
qed

lemma Const_spec:
  assumes "GetDatumType d = EtiBool" "FConstrainableType ctxt mdid" "col_mdid colref = mdid" "value_of_column v"
    and "PciIntervalFromScalarExpr ctxt opfam (CScalarConst d) colref n am = Some a"
  shows "pci_for colref (Some a) \<and>
    (\<not> (IsNull d \<and> n) \<longrightarrow> (pci_holds pc a v \<longleftrightarrow> expr_holds n (bool_truth d)))"
proof (cases "FScalarConstBool (CScalarConst d) True")
  case True
  then have "\<not> IsNull d" "BoolValue d"
    using assms(1) by (auto simp: FScalarConstBool_def)
  then show ?thesis
    using assms True PciUnbounded_spec[OF assms(2,3), of True] by (auto simp: bool_truth_def)
next
  case False
  then have "a = pci_new colref [] False" "IsNull d \<or> \<not> BoolValue d"
    using assms by (auto simp: FScalarConstBool_def)
  then show ?thesis
    by (auto simp: pci_ok_def pci_holds_def covers_def bool_truth_def)
qed

lemma scalar_value_ident [simp]: "FScalarIdent e \<or> FBinaryCoercibleCastedScId e \<Longrightarrow> scalar_value v e = Some v"
  by (cases e) (auto simp: FScalarIdent_def FBinaryCoercibleCastedScId_def split: CExpression.splits)

lemma scalar_value_const [simp]:
  "FScalarConst e \<or> FBinaryCoercibleCastedConst e \<Longrightarrow> scalar_value v e = Some (const_datum e)"
  by (cases e) (auto simp: FScalarConst_def FBinaryCoercibleCastedConst_def const_datum_def split: CExpression.splits)

lemma Cmp_spec:
  assumes "consts_ok ctxt fam mdid (CScalarCmp c l r)" "value_of_column v"
    and "PciIntervalFromScalarCmp ctxt opfam (CScalarCmp c l r) colref n am = Some a"
  shows "pci_for colref (Some a)" "pci_holds pc a v \<longleftrightarrow> expr_holds n (truth pc orc v (CScalarCmp c l r))"
proof -
  let ?d = "const_datum r"
  have lr: "FCompareIdentToConst (CScalarCmp c l r)"
    and "PciIntervalFromColConstCmp colref c ?d n = Some a"
    using assms(3) by (auto simp: PciIntervalFromScalarCmp_def split: if_splits)
  then obtain rs where rs: "PciRangeFromColConstCmp c ?d = Some rs" "a = pci_new colref rs n"
    by (auto simp: PciIntervalFromColConstCmp_def split: option.splits)
  have d: "fam ?d" "\<not> IsNull ?d" "c \<noteq> EcmptIDF" "c \<noteq> EcmptOther"
    using assms(1) lr rs non_null by (auto simp: PciRangeFromColConstCmp_def)
  have "FScalarIdent l \<or> FBinaryCoercibleCastedScId l" "FScalarConst r \<or> FBinaryCoercibleCastedConst r"
    using lr by (auto simp: FCompareIdentToConst_def split: if_splits)
  then have truth: "truth pc orc v (CScalarCmp c l r) = cmp_truth pc c v ?d"
    using d by simp
  note ok = PciRangeFromColConstCmp_spec(1)[OF d(1) rs(1)]
  have "fam v \<Longrightarrow> covers pc rs v \<longleftrightarrow> cmp_truth pc c v ?d = Some True"
    using PciRangeFromColConstCmp_spec(2)[OF d(1) rs(1)] d non_null by simp
  note holds = pci_new_spec(2)[OF ok assms(2) this]
  have "IsNull v \<Longrightarrow> cmp_truth pc c v ?d = None" "\<not> IsNull v \<Longrightarrow> \<exists>b. cmp_truth pc c v ?d = Some b"
    using d by (cases c; auto simp: cmp_truth_def)+
  then show "pci_for colref (Some a)" "pci_holds pc a v \<longleftrightarrow> expr_holds n (truth pc orc v (CScalarCmp c l r))"
    using pci_new_spec(1)[OF ok] holds unfolding truth rs(2) by auto
qed

lemma IDF_spec:
  assumes "consts_ok ctxt fam mdid (CScalarIsDistinctFrom l r)" "value_of_column v"
    and "FConstrainableType ctxt mdid" "col_mdid colref = mdid"
    and "PciIntervalFromScalarIDF ctxt (CScalarIsDistinctFrom l r) colref = Some a"
  shows "pci_for colref (Some a)" "pci_holds pc a v \<longleftrightarrow> expr_holds n (truth pc orc v (CScalarIsDistinctFrom l r))"
proof -
  let ?d = "const_datum r"
  have lr: "FIdentIDFConst (CScalarIsDistinctFrom l r)"
    using assms(5) by (auto simp: PciIntervalFromScalarIDF_def split: if_splits)
  then have truth: "truth pc orc v (CScalarIsDistinctFrom l r) = Some (distinct_truth pc v ?d)"
    by (simp add: FIdentIDFConst_def)
  have empty: "pci_ok pc fam (pci_new colref [] True)"
    by (simp add: pci_ok_def)
  have "pci_for colref (Some a) \<and> (pci_holds pc a v \<longleftrightarrow> distinct_truth pc v ?d)"
  proof (cases "IsNull ?d")
    case True
    then have "a = PciComplement ctxt (pci_new colref [] True)"
      using assms(5) lr by (simp add: PciIntervalFromScalarIDF_def)
    then show ?thesis
      using PciComplement_spec[OF assms(3) empty] assms(2,4) True
      by (auto simp: pci_holds_def covers_def distinct_truth_def)
  next
    case False
    then obtain rs where rs: "PciRangeFromColConstCmp EcmptIDF ?d = Some rs" "a = pci_new colref rs True"
      using assms(5) lr by (auto simp: PciIntervalFromScalarIDF_def Let_def split: option.splits)
    have d: "fam ?d"
      using assms(1) lr False by simp
    show ?thesis
      using pci_new_spec[OF PciRangeFromColConstCmp_spec(1)[OF d rs(1)]] PciRangeFromColConstCmp_spec(3)[OF d rs(1)]
        assms(2) False by (auto simp: rs(2) distinct_truth_def)
  qed
  then show "pci_for colref (Some a)"
    "pci_holds pc a v \<longleftrightarrow> expr_holds n (truth pc orc v (CScalarIsDistinctFrom l r))"
    unfolding truth by simp_all
qed

lemma array_ranges_spec:
  assumes "\<forall>d \<in> set ds. IsNull d \<or> fam d" "value_of_column v" "ds \<noteq> []"
  shows "ranges_ok pc fam (map (rng_of_cmp EcmptEq) (CDatumSortedSet pc ds))"
    and "\<forall>d \<in> set ds. IsNull d \<longrightarrow> \<not> n \<Longrightarrow>
      pci_holds pc (pci_new colref (map (rng_of_cmp EcmptEq) (CDatumSortedSet pc ds)) n) v \<longleftrightarrow>
      (\<exists>d \<in> set ds. expr_holds n (cmp_truth pc EcmptEq v d))"
    and "\<exists>d \<in> set ds. \<not> IsNull d \<Longrightarrow> ranges_ok pc fam (not_in_ranges None (CDatumSortedSet pc ds))"
    and "\<exists>d \<in> set ds. \<not> IsNull d \<Longrightarrow> \<forall>d \<in> set ds. IsNull d \<longrightarrow> n \<Longrightarrow>
      pci_holds pc (pci_new colref (not_in_ranges None (CDatumSortedSet pc ds)) n) v \<longleftrightarrow>
      (\<forall>d \<in> set ds. expr_holds n (cmp_truth pc EcmptNEq v d))"
proof -
  note set_spec = CDatumSortedSet_spec[OF assms(1)]
  let ?S = "CDatumSortedSet pc ds"
  have fam: "\<forall>d \<in> set ?S. fam d"
    using set_spec(2) by blast
  have key_in: "key v \<in> key ` set ?S \<longleftrightarrow> (\<exists>d \<in> set ds. \<not> IsNull d \<and> key v = key d)"
    unfolding set_spec(3) by auto
  have cmp: "cmp_truth pc EcmptEq v d = (if IsNull v \<or> IsNull d then None else Some (key v = key d))"
    "cmp_truth pc EcmptNEq v d = (if IsNull v \<or> IsNull d then None else Some (key v \<noteq> key d))" if "d \<in> set ds" for d
    using that assms(1,2) by (auto simp: cmp_truth_def cmp_keys)
  obtain d0 where d0: "d0 \<in> set ds"
    using assms(3) hd_in_set by blast
  show ok: "ranges_ok pc fam (map (rng_of_cmp EcmptEq) ?S)"
    by (rule in_ranges_spec(1)[OF set_spec(1) fam])
  note holds = pci_new_spec(2)[OF ok assms(2) in_ranges_spec(2)[OF set_spec(1) fam]]
  show "pci_holds pc (pci_new colref (map (rng_of_cmp EcmptEq) ?S) n) v \<longleftrightarrow>
      (\<exists>d \<in> set ds. expr_holds n (cmp_truth pc EcmptEq v d))" if "\<forall>d \<in> set ds. IsNull d \<longrightarrow> \<not> n"
    using that d0 by (auto simp: holds key_in cmp split: if_splits)
  assume ex: "\<exists>d \<in> set ds. \<not> IsNull d"
  then have "key ` set ?S \<noteq> {}"
    unfolding set_spec(3) by blast
  then have "?S \<noteq> []" by auto
  then have not_in: "ranges_ok pc fam (not_in_ranges None ?S)"
    "\<And>k. cov (not_in_ranges None ?S) k \<longleftrightarrow> k \<notin> key ` set ?S"
    using not_in_ranges_spec[OF set_spec(1) fam, of None] by simp_all
  then show "ranges_ok pc fam (not_in_ranges None ?S)"
    by blast
  have "fam v \<Longrightarrow> covers pc (not_in_ranges None ?S) v \<longleftrightarrow> key v \<notin> key ` set ?S"
    by (simp add: covers_cov[OF not_in(1)] not_in(2))
  note holds' = pci_new_spec(2)[OF not_in(1) assms(2) this]
  show "pci_holds pc (pci_new colref (not_in_ranges None ?S) n) v \<longleftrightarrow>
      (\<forall>d \<in> set ds. expr_holds n (cmp_truth pc EcmptNEq v d))" if "\<forall>d \<in> set ds. IsNull d \<longrightarrow> n"
    using that d0 by (auto simp: holds' key_in cmp split: if_splits)
qed

lemma Array_spec:
  assumes "consts_ok ctxt fam mdid (CScalarArrayCmp t c l r)" "value_of_column v"
    and "PcnstrIntervalFromScalarArrayCmp ctxt (CScalarArrayCmp t c l r) colref n = Some a"
  shows "pci_for colref (Some a) \<and> (exact_shape ctxt opfam colref (CScalarArrayCmp t c l r) n am \<longrightarrow>
    (pci_holds pc a v \<longleftrightarrow> expr_holds n (truth pc orc v (CScalarArrayCmp t c l r))))"
proof -
  obtain es where es: "PexprScalarArrayChild r = CScalarArray es" "list_all FScalarConst es" "es \<noteq> []"
    and l: "FScalarIdent l \<or> FBinaryCoercibleCastedScId l" and c: "c = EcmptEq \<or> c = EcmptNEq"
    using assms(3)
    by (auto simp: PcnstrIntervalFromScalarArrayCmp_def FCompareIdentToConstArray_def FCompareCastIdentToConstArray_def
        FScalarConstArray_def Let_def split: if_splits CExpression.splits ECmpType.splits)
  let ?ds = "map const_datum es"
  have ds: "\<forall>d \<in> set ?ds. IsNull d \<or> fam d" "?ds \<noteq> []" "c = EcmptNEq \<Longrightarrow> \<exists>d \<in> set ?ds. \<not> IsNull d"
    using assms(1) es by auto
  note spec = array_ranges_spec[OF ds(1) assms(2) ds(2)]
  have truth: "truth pc orc v (CScalarArrayCmp t c l r) =
      (case t of EarrcmpAny \<Rightarrow> tv_or (map (cmp_truth pc c v) ?ds) | EarrcmpAll \<Rightarrow> tv_and (map (cmp_truth pc c v) ?ds))"
    using l es by (simp add: o_def Let_def split: EArrCmpType.split)
  have a: "a = pci_new colref (if c = EcmptEq then map (rng_of_cmp EcmptEq) (CDatumSortedSet pc ?ds)
      else not_in_ranges None (CDatumSortedSet pc ?ds)) n"
    using assms(3) es c by (auto simp: PcnstrIntervalFromScalarArrayCmp_def Let_def split: if_splits)
  show ?thesis
    using c
  proof
    assume "c = EcmptEq"
    then show ?thesis
      using spec(1,2) es(1) unfolding truth a by (auto simp: pci_ok_def)
  next
    assume "c = EcmptNEq"
    then show ?thesis
      using spec(3,4) ds(3) es(1) unfolding truth a by (auto simp: pci_ok_def)
  qed
qed

subsection \<open>All expressions\<close>

text \<open>What holds of an expression and a value of the column.\<close>

definition sound_at ::
  "'a opfamily \<Rightarrow> CColRef \<Rightarrow> ('a CExpression \<Rightarrow> bool option) \<Rightarrow> 'a IDatum \<Rightarrow> 'a CExpression \<Rightarrow> bool \<Rightarrow> EmdindexType \<Rightarrow> bool"
  where
  "sound_at opfam colref orc v e n am \<longleftrightarrow>
     (case PciIntervalFromScalarExpr ctxt opfam e colref n am of None \<Rightarrow> True
      | Some a \<Rightarrow> pci_for colref (Some a) \<and>
          (exact_shape ctxt opfam colref e n am \<longrightarrow> (pci_holds pc a v \<longleftrightarrow> expr_holds n (truth pc orc v e))) \<and>
          (covered_shape ctxt opfam colref e n am \<longrightarrow> expr_holds n (truth pc orc v e) \<longrightarrow> pci_holds pc a v))"

lemma sound_at_resI:
  assumes "sound_at opfam colref orc v e n am"
  shows "pci_for colref (PciIntervalFromScalarExpr ctxt opfam e colref n am)"
    and "exact_shape ctxt opfam colref e n am \<Longrightarrow> PciIntervalFromScalarExpr ctxt opfam e colref n am \<noteq> None \<Longrightarrow>
      res_holds v (PciIntervalFromScalarExpr ctxt opfam e colref n am) \<longleftrightarrow> expr_holds n (truth pc orc v e)"
    and "covered_shape ctxt opfam colref e n am \<Longrightarrow> expr_holds n (truth pc orc v e) \<Longrightarrow>
      res_holds v (PciIntervalFromScalarExpr ctxt opfam e colref n am)"
  using assms by (auto simp: sound_at_def split: option.splits)

lemma sound_at_None: "PciIntervalFromScalarExpr ctxt opfam e colref n am = None \<Longrightarrow> sound_at opfam colref orc v e n am"
  by (simp add: sound_at_def)

lemma sound_atI:
  assumes "PciIntervalFromScalarExpr ctxt opfam e colref n am = Some a" "pci_for colref (Some a)"
    and "exact_shape ctxt opfam colref e n am \<Longrightarrow> pci_holds pc a v \<longleftrightarrow> expr_holds n (truth pc orc v e)"
    and "\<lbrakk>covered_shape ctxt opfam colref e n am; expr_holds n (truth pc orc v e)\<rbrakk> \<Longrightarrow> pci_holds pc a v"
  shows "sound_at opfam colref orc v e n am"
  using assms by (simp add: sound_at_def)

lemma sound_at_And:
  assumes "\<forall>e \<in> set es. sound_at opfam colref orc v e n am" "es \<noteq> []" "value_of_column v"
  shows "sound_at opfam colref orc v (CScalarBoolOp EboolopAnd es) n am"
proof -
  let ?D = "\<lambda>e. PciIntervalFromScalarExpr ctxt opfam e colref n am"
  obtain e0 es' where es: "es = e0 # es'"
    using assms(2) by (auto simp: neq_Nil_conv)
  have ok: "pci_for colref (?D e0)" "\<forall>c \<in> set (map ?D es'). pci_for colref c"
    using assms(1) sound_at_resI(1) by (auto simp: es)
  have D: "?D (CScalarBoolOp EboolopAnd es) = foldl (and_child pc) (?D e0) (map ?D es')"
    by (simp add: PciIntervalFromScalarBoolAnd_def es)
  have res: "pci_for colref (?D (CScalarBoolOp EboolopAnd es))"
    "res_holds v (?D (CScalarBoolOp EboolopAnd es)) \<longleftrightarrow> (\<forall>e \<in> set es. res_holds v (?D e))"
    using BoolAnd_spec[OF ok, of v] assms(3) unfolding D by (simp_all add: es)
  show ?thesis
  proof (cases "?D (CScalarBoolOp EboolopAnd es)")
    case None
    then show ?thesis by (rule sound_at_None)
  next
    case (Some a)
    have "res_holds v (?D e) \<longleftrightarrow> expr_holds n (truth pc orc v e)"
      if "exact_shape ctxt opfam colref (CScalarBoolOp EboolopAnd es) n am" "e \<in> set es" for e
      using that assms(1) by (intro sound_at_resI(2)) simp_all
    then have "exact_shape ctxt opfam colref (CScalarBoolOp EboolopAnd es) n am \<Longrightarrow>
        pci_holds pc a v \<longleftrightarrow> expr_holds n (truth pc orc v (CScalarBoolOp EboolopAnd es))"
      using res(2) unfolding Some by simp
    moreover have "covered_shape ctxt opfam colref (CScalarBoolOp EboolopAnd es) n am \<Longrightarrow>
        expr_holds n (truth pc orc v (CScalarBoolOp EboolopAnd es)) \<Longrightarrow> pci_holds pc a v"
      using res(2) assms(1) sound_at_resI(3)[where orc = orc] unfolding Some by simp
    ultimately show ?thesis
      by (rule sound_atI[OF Some res(1)[unfolded Some]])
  qed
qed

lemma sound_at_Or:
  assumes "\<forall>e \<in> set es. sound_at opfam colref orc v e n am" "es \<noteq> []" "value_of_column v"
  shows "sound_at opfam colref orc v (CScalarBoolOp EboolopOr es) n am"
proof (cases "\<exists>e \<in> set es. PciIntervalFromScalarExpr ctxt opfam e colref n am = None")
  case True
  then have "PciIntervalFromScalarExpr ctxt opfam (CScalarBoolOp EboolopOr es) colref n am = None"
    by (auto simp: PciIntervalFromScalarBoolOr_def image_iff intro: rev_bexI)
  then show ?thesis by (rule sound_at_None)
next
  case False
  let ?D = "\<lambda>e. PciIntervalFromScalarExpr ctxt opfam e colref n am"
  have some: "?D e = Some (the (?D e))" if "e \<in> set es" for e
    using False that by auto
  have "pci_ok pc fam (the (?D e)) \<and> m_pcr (the (?D e)) = colref" if "e \<in> set es" for e
    using sound_at_resI(1)[OF bspec[OF assms(1) that]] unfolding res_simps(4)[symmetric] some[OF that, symmetric] .
  then have "\<forall>a \<in> set (map (the \<circ> ?D) es). pci_ok pc fam a \<and> m_pcr a = colref"
    by simp
  from union_all_spec[OF this] assms(2)
  obtain r where r: "union_all pc (map (the \<circ> ?D) es) = [r]" "pci_ok pc fam r" "m_pcr r = colref"
    and all: "\<forall>v. value_of_column v \<longrightarrow>
      (pci_holds pc r v \<longleftrightarrow> (\<exists>a \<in> set (map (the \<circ> ?D) es). pci_holds pc a v))"
    by (simp only: map_is_Nil_conv) blast
  have holds: "pci_holds pc r v \<longleftrightarrow> (\<exists>e \<in> set es. pci_holds pc (the (?D e)) v)"
    using all[rule_format, OF assms(3)] by simp
  have D: "?D (CScalarBoolOp EboolopOr es) = Some r"
    using False r(1) by (auto simp: PciIntervalFromScalarBoolOr_def comp_def image_iff)
  have res: "res_holds v (?D e) \<longleftrightarrow> pci_holds pc (the (?D e)) v" if "e \<in> set es" for e
    using some[OF that] res_simps(3) by metis
  have "pci_holds pc (the (?D e)) v \<longleftrightarrow> expr_holds n (truth pc orc v e)"
    if "exact_shape ctxt opfam colref (CScalarBoolOp EboolopOr es) n am" "e \<in> set es" for e
    unfolding res[OF that(2), symmetric] using that assms(1) False by (intro sound_at_resI(2)) simp_all
  then have "exact_shape ctxt opfam colref (CScalarBoolOp EboolopOr es) n am \<Longrightarrow>
      pci_holds pc r v \<longleftrightarrow> expr_holds n (truth pc orc v (CScalarBoolOp EboolopOr es))"
    unfolding holds by simp
  moreover have "pci_holds pc r v"
    if covered: "covered_shape ctxt opfam colref (CScalarBoolOp EboolopOr es) n am"
      and true: "expr_holds n (truth pc orc v (CScalarBoolOp EboolopOr es))"
  proof -
    obtain e where e: "e \<in> set es" "expr_holds n (truth pc orc v e)" "covered_shape ctxt opfam colref e n am"
      using covered true by auto
    then have "pci_holds pc (the (?D e)) v"
      unfolding res[OF e(1), symmetric] using sound_at_resI(3)[OF bspec[OF assms(1) e(1)]] by simp
    then show ?thesis
      unfolding holds using e(1) by blast
  qed
  ultimately show ?thesis
    using r by (intro sound_atI[OF D]) simp_all
qed

lemma sound_at_complement:
  assumes "sound_at opfam colref orc v e (\<not> n) EmdindSentinel"
    and "FConstrainableType ctxt mdid" "col_mdid colref = mdid" "value_of_column v"
    and "PciIntervalFromScalarExpr ctxt opfam e colref (\<not> n) EmdindSentinel = Some a"
  shows "pci_for colref (Some (PciComplement ctxt a))"
    and "exact_shape ctxt opfam colref e (\<not> n) EmdindSentinel \<Longrightarrow>
      pci_holds pc (PciComplement ctxt a) v \<longleftrightarrow> \<not> expr_holds (\<not> n) (truth pc orc v e)"
proof -
  have a: "pci_ok pc fam a" "m_pcr a = colref"
    using sound_at_resI(1)[OF assms(1)] by (simp_all add: assms(5))
  note compl = PciComplement_spec[OF assms(2) a(1)]
  show "pci_for colref (Some (PciComplement ctxt a))"
    using compl a(2) assms(3) by simp
  show "pci_holds pc (PciComplement ctxt a) v \<longleftrightarrow> \<not> expr_holds (\<not> n) (truth pc orc v e)"
    if "exact_shape ctxt opfam colref e (\<not> n) EmdindSentinel"
    using compl(3) a(2) assms(3,4) sound_at_resI(2)[OF assms(1) that] by (simp add: assms(5))
qed

lemma sound_at_Not:
  assumes "\<forall>e \<in> set es. sound_at opfam colref orc v e (\<not> n) EmdindSentinel" "es \<noteq> []"
    and "FConstrainableType ctxt mdid" "col_mdid colref = mdid" "value_of_column v"
  shows "sound_at opfam colref orc v (CScalarBoolOp EboolopNot es) n am"
proof (cases "PciIntervalFromScalarExpr ctxt opfam (es ! 0) colref (\<not> n) EmdindSentinel")
  case None
  then show ?thesis
    using assms(2) by (intro sound_at_None) simp
next
  case (Some a)
  have e: "es ! 0 \<in> set es"
    using assms(2) by simp
  note compl = sound_at_complement[OF bspec[OF assms(1) e] assms(3-5) Some]
  have D: "PciIntervalFromScalarExpr ctxt opfam (CScalarBoolOp EboolopNot es) colref n am = Some (PciComplement ctxt a)"
    using Some assms(2) by simp
  show ?thesis
    using compl e assms(2) by (intro sound_atI[OF D]) simp_all
qed

lemma null_test_spec:
  shows "pci_for colref (PciIntervalFromScalarNullAndUnknownTest e colref)"
    and "PciIntervalFromScalarNullAndUnknownTest e colref = Some a \<Longrightarrow> pci_holds pc a v \<longleftrightarrow> IsNull v"
    and "PciIntervalFromScalarNullAndUnknownTest e colref = Some a \<Longrightarrow> FScalarIdent e"
  by (auto simp: PciIntervalFromScalarNullAndUnknownTest_def pci_ok_def pci_holds_def covers_def split: if_splits)

lemma sound_at_BooleanTest:
  assumes "\<And>n. sound_at opfam colref orc v e n EmdindSentinel"
    and "FConstrainableType ctxt mdid" "col_mdid colref = mdid" "value_of_column v"
  shows "sound_at opfam colref orc v (CScalarBooleanTest t e) n am"
proof (cases "PciIntervalFromScalarExpr ctxt opfam (CScalarBooleanTest t e) colref n am")
  case None
  then show ?thesis by (rule sound_at_None)
next
  case (Some a)
  have tv: "expr_holds True b \<longleftrightarrow> b \<noteq> Some False" "expr_holds False b \<longleftrightarrow> b = Some True" for b
    by (auto simp: expr_holds_def split: option.splits)
  note child = sound_at_resI[OF assms(1)]
  have null_test: "pci_for colref (PciIntervalFromScalarNullAndUnknownTest e colref)"
    "PciIntervalFromScalarNullAndUnknownTest e colref = Some b \<Longrightarrow> pci_holds pc b v \<longleftrightarrow> IsNull v"
    "PciIntervalFromScalarNullAndUnknownTest e colref = Some b \<Longrightarrow> truth pc orc v e = None \<longleftrightarrow> IsNull v" for b
    using null_test_spec[where e = e and colref = colref] by (auto simp: FScalarIdent_def bool_truth_def split: CExpression.splits)
  show ?thesis
  proof (cases t)
    case EbtIsTrue
    then show ?thesis
      using Some child(1)[of False] child(2,3)[where n = False]
      by (intro sound_atI[OF Some]) (auto simp: PciIntervalFromScalarBooleanTest_def tv)
  next
    case EbtIsNotFalse
    then show ?thesis
      using Some child(1)[of True] child(2,3)[where n = True]
      by (intro sound_atI[OF Some]) (auto simp: PciIntervalFromScalarBooleanTest_def tv)
  next
    case EbtIsNotTrue
    then obtain b where "PciIntervalFromScalarExpr ctxt opfam e colref (\<not> True) EmdindSentinel = Some b"
        "a = PciComplement ctxt b"
      using Some by (auto simp: PciIntervalFromScalarBooleanTest_def)
    with sound_at_complement[OF assms this(1)] EbtIsNotTrue show ?thesis
      by (intro sound_atI[OF Some]) (simp_all add: tv)
  next
    case EbtIsFalse
    then obtain b where "PciIntervalFromScalarExpr ctxt opfam e colref (\<not> False) EmdindSentinel = Some b"
        "a = PciComplement ctxt b"
      using Some by (auto simp: PciIntervalFromScalarBooleanTest_def)
    with sound_at_complement[OF assms this(1)] EbtIsFalse show ?thesis
      by (intro sound_atI[OF Some]) (simp_all add: tv)
  next
    case EbtIsUnknown
    then show ?thesis
      using Some null_test(1) null_test(2,3)[of a]
      by (intro sound_atI[OF Some]) (auto simp: PciIntervalFromScalarBooleanTest_def)
  next
    case EbtIsNotUnknown
    then obtain b where b: "PciIntervalFromScalarNullAndUnknownTest e colref = Some b" "a = PciComplement ctxt b"
      using Some by (auto simp: PciIntervalFromScalarBooleanTest_def)
    then have "pci_ok pc fam b" "m_pcr b = colref"
      using null_test(1) by auto
    then show ?thesis
      using EbtIsNotUnknown PciComplement_spec[OF assms(2), where a = b] assms(3,4) null_test(2,3)[of b] b
      by (intro sound_atI[OF Some]) auto
  qed
qed

lemma sound_at_leaf:
  assumes "\<And>a. PciIntervalFromScalarExpr ctxt opfam e colref n am = Some a \<Longrightarrow>
      pci_for colref (Some a) \<and>
      (exact_shape ctxt opfam colref e n am \<longrightarrow> (pci_holds pc a v \<longleftrightarrow> expr_holds n (truth pc orc v e)))"
    and "covered_shape ctxt opfam colref e n am \<longleftrightarrow> exact_shape ctxt opfam colref e n am"
  shows "sound_at opfam colref orc v e n am"
  using assms by (auto simp: sound_at_def split: option.splits)

lemma scalar_expr_sound:
  assumes "consts_ok ctxt fam mdid e" "FConstrainableType ctxt mdid" "col_mdid colref = mdid" "value_of_column v"
  shows "sound_at opfam colref orc v e n am"
  using assms(1)
proof (induction e arbitrary: n am)
  case (CScalarBoolOp op es n am)
  then have IH: "\<forall>e \<in> set es. sound_at opfam colref orc v e n am" "es \<noteq> []" for n am
    by auto
  show ?case
    by (cases op) (simp_all add: sound_at_And sound_at_Or sound_at_Not IH assms)
next
  case (CScalarBooleanTest t e n am)
  then show ?case
    using assms by (intro sound_at_BooleanTest) simp_all
next
  case (CScalarIdent c n am)
  then show ?case
    using Ident_spec[OF _ assms(4), of colref n] by (intro sound_atI) simp_all
next
  case (CScalarConst d n am)
  show ?case
  proof (rule sound_at_leaf)
    fix a assume "PciIntervalFromScalarExpr ctxt opfam (CScalarConst d) colref n am = Some a"
    from Const_spec[OF _ assms(2-4) this] CScalarConst
    show "pci_for colref (Some a) \<and> (exact_shape ctxt opfam colref (CScalarConst d) n am \<longrightarrow>
        (pci_holds pc a v \<longleftrightarrow> expr_holds n (truth pc orc v (CScalarConst d))))"
      unfolding exact_shape.simps truth.simps consts_ok.simps by blast
  qed simp
next
  case (CScalarCmp c l r n am)
  show ?case
    using Cmp_spec[OF CScalarCmp.prems assms(4)] by (intro sound_at_leaf) (simp_all only: PciIntervalFromScalarExpr.simps covered_shape.simps, blast)
next
  case (CScalarIsDistinctFrom l r n am)
  show ?case
    using IDF_spec[OF CScalarIsDistinctFrom.prems assms(4,2,3)]
    by (intro sound_at_leaf) (simp_all only: PciIntervalFromScalarExpr.simps covered_shape.simps, blast)
next
  case (CScalarArrayCmp t c l r n am)
  show ?case
    using Array_spec[OF CScalarArrayCmp.prems assms(4)]
    by (intro sound_at_leaf) (simp_all only: PciIntervalFromScalarExpr.simps covered_shape.simps option.distinct split: if_splits, blast)
next
  case (CScalarNullTest e n am)
  show ?case
    using null_test_spec[where e = e and colref = colref]
    by (intro sound_at_leaf) (auto simp: FScalarIdent_def split: CExpression.splits)
qed (simp_all add: sound_at_None)

end

interpretation ex: expr_domain ctxt "value_family ctxt m" lint_key m for ctxt m
  by unfold_locales (auto simp: value_family_def BoolValue_def CreateBoolDatum_def lint_key_def)

subsection \<open>Properties\<close>


text \<open>The predicate \<open>x \<ge> 2 AND f(x)\<close>, where \<open>f\<close> has no interval.\<close>

definition sample_conjunction :: "unit CExpression" where
  "sample_conjunction = CScalarBoolOp EboolopAnd
     [CScalarCmp EcmptGEq (CScalarIdent sample_col) (CScalarConst (int4_datum 2)),
      CScalarOther 0 [CScalarIdent sample_col]]"

lemma sample_constrainable: "FConstrainableType (sample_ctxt e) (mdid_of 23)" "col_mdid sample_col = mdid_of 23"
  by (simp_all add: FConstrainableType_def FIntType_def sample_ctxt_def sample_col_def)

lemmas interval_eval = PciIntervalFromScalarCmp_def PciIntervalFromColConstCmp_def PciRangeFromColConstCmp_def
  FCompareIdentToConst_def FScalarIdent_def FScalarConst_def const_datum_def PciIntervalFromScalarBoolAnd_def and_child_def




end
