(* ===== verification/IntervalPrint.thy ===== *)
theory IntervalPrint
  imports IntervalExprCorrect
begin

text \<open>
  The scalar expression that \<^verbatim>\<open>CConstraintInterval::PexprScalar\<close> builds from an interval constraint accepts
  exactly the values of the constraint, and deriving the interval of that expression gives a
  constraint with the same values again.
\<close>

subsection \<open>The expressions built\<close>

inductive printable :: "'d opt_ctxt \<Rightarrow> ('d IDatum \<Rightarrow> bool) \<Rightarrow> CColRef \<Rightarrow> 'd CExpression \<Rightarrow> bool"
  for ctxt fam colref where
  cmp: "\<lbrakk>fam d; c \<noteq> EcmptOther; c \<noteq> EcmptIDF\<rbrakk> \<Longrightarrow>
    printable ctxt fam colref (CScalarCmp c (CScalarIdent colref) (CScalarConst d))"
| is_null: "printable ctxt fam colref (CScalarNullTest (CScalarIdent colref))"
| not_null: "printable ctxt fam colref (CScalarBoolOp EboolopNot [CScalarNullTest (CScalarIdent colref)])"
| bool_const: "printable ctxt fam colref (PexprScalarConstBool ctxt b)"
| connective: "\<lbrakk>op \<noteq> EboolopNot; es \<noteq> []; \<forall>e \<in> set es. printable ctxt fam colref e\<rbrakk> \<Longrightarrow>
    printable ctxt fam colref (CScalarBoolOp op es)"
| array: "\<lbrakk>EopttraceArrayConstraints ctxt; (t, c) \<in> {(EarrcmpAny, EcmptEq), (EarrcmpAll, EcmptNEq)}; ds \<noteq> [];
    \<forall>d \<in> set ds. fam d\<rbrakk> \<Longrightarrow>
    printable ctxt fam colref (CScalarArrayCmp t c (CScalarIdent colref) (CScalarArray (map CScalarConst ds)))"

lemma list_all_FScalarConst [simp]: "list_all FScalarConst (map CScalarConst ds)"
  by (simp add: list_all_iff FScalarConst_def)

lemma const_datum_CScalarConst [simp]: "const_datum (CScalarConst d) = d"
  by (simp add: const_datum_def)

lemma foldl_and_child_None: "foldl (and_child pcomp) acc xs = None \<Longrightarrow> acc = None"
proof (induction xs arbitrary: acc)
  case (Cons x xs)
  then have "and_child pcomp acc x = None" by simp
  then show ?case
    by (simp add: and_child_def split: option.splits)
qed simp

lemma BoolAnd_not_None:
  "\<lbrakk>xs \<noteq> []; None \<notin> set xs\<rbrakk> \<Longrightarrow> PciIntervalFromScalarBoolAnd pcomp xs \<noteq> None"
  using foldl_and_child_None[of pcomp "xs ! 0"] by (cases xs) (auto simp: PciIntervalFromScalarBoolAnd_def)

lemma BoolOr_not_None: "None \<notin> set xs \<Longrightarrow> PciIntervalFromScalarBoolOr pcomp xs \<noteq> None"
  by (simp add: PciIntervalFromScalarBoolOr_def)

lemma const_bool [simp]:
  "FScalarConstBool (PexprScalarConstBool ctxt b) b' \<longleftrightarrow> b = b'" "truth pcomp orc v (PexprScalarConstBool ctxt b) = Some b"
  by (auto simp: FScalarConstBool_def PexprScalarConstBool_def CreateBoolDatum_def BoolValue_def bool_truth_def)

lemma FScalarConstBool_truth: "FScalarConstBool e b \<Longrightarrow> truth pcomp orc v e = Some b"
  by (cases e) (auto simp: FScalarConstBool_def bool_truth_def split: if_splits)

subsection \<open>Conjunctions and disjunctions\<close>

lemma conj_disj_loop_Some:
  "conj_disj_loop c es fin = Some r \<Longrightarrow> r = fin @ filter (\<lambda>e. \<not> FSkippable e c) es"
  by (induction c es fin rule: conj_disj_loop.induct) (auto split: if_splits)

lemma conj_disj_loop_None: "conj_disj_loop c es fin = None \<Longrightarrow> \<exists>e \<in> set es. FReducible e c"
  by (induction c es fin rule: conj_disj_loop.induct) (auto split: if_splits)

lemma PexprConjDisj_cases:
  obtains (reduced) e where "e \<in> set es" "FReducible e c" "PexprConjDisj ctxt es c = PexprScalarConstBool ctxt (\<not> c)"
  | (empty) "filter (\<lambda>e. \<not> FSkippable e c) es = []" "PexprConjDisj ctxt es c = PexprScalarConstBool ctxt c"
  | (single) e where "filter (\<lambda>e. \<not> FSkippable e c) es = [e]" "PexprConjDisj ctxt es c = e"
  | (many) "filter (\<lambda>e. \<not> FSkippable e c) es \<noteq> []"
      "PexprConjDisj ctxt es c =
         CScalarBoolOp (if c then EboolopAnd else EboolopOr) (filter (\<lambda>e. \<not> FSkippable e c) es)"
proof (cases "conj_disj_loop c es []")
  case None
  then show ?thesis
    using conj_disj_loop_None reduced by (fastforce simp: PexprConjDisj_def)
next
  case (Some r)
  then have r: "filter (\<lambda>e. \<not> FSkippable e c) es = r"
    using conj_disj_loop_Some by fastforce
  show ?thesis
    using empty single many unfolding r PexprConjDisj_def Some
    by (cases r rule: remdups_adj.cases) simp_all
qed

lemma PexprConjDisj_holds:
  "expr_holds n (truth pcomp orc v (PexprConjDisj ctxt es c)) \<longleftrightarrow>
     (if c then \<forall>e \<in> set es. expr_holds n (truth pcomp orc v e) else \<exists>e \<in> set es. expr_holds n (truth pcomp orc v e))"
proof -
  have skip: "expr_holds n (truth pcomp orc v e) \<longleftrightarrow> c" if "FSkippable e c" for e
    using that FScalarConstBool_truth[of e c] by (auto simp: FSkippable_def)
  have filtered: "(if c then \<forall>e \<in> set es. expr_holds n (truth pcomp orc v e) else \<exists>e \<in> set es. expr_holds n (truth pcomp orc v e)) \<longleftrightarrow>
      (if c then \<forall>e \<in> set (filter (\<lambda>e. \<not> FSkippable e c) es). expr_holds n (truth pcomp orc v e)
       else \<exists>e \<in> set (filter (\<lambda>e. \<not> FSkippable e c) es). expr_holds n (truth pcomp orc v e))"
    using skip by auto
  show ?thesis
  proof (cases rule: PexprConjDisj_cases[of es c ctxt])
    case (reduced e)
    then have "expr_holds n (truth pcomp orc v e) \<longleftrightarrow> \<not> c"
      using FScalarConstBool_truth[of e "\<not> c"] by (auto simp: FReducible_def)
    then show ?thesis
      using reduced by auto
  next
    case empty
    show ?thesis
      unfolding filtered empty by simp
  next
    case (single e)
    show ?thesis
      unfolding filtered single by simp
  next
    case many
    show ?thesis
      unfolding filtered many(2) by simp
  qed
qed

lemma PexprConjDisj_printable:
  assumes "\<forall>e \<in> set es. printable ctxt fam colref e"
  shows "printable ctxt fam colref (PexprConjDisj ctxt es c)"
proof (cases rule: PexprConjDisj_cases[of es c ctxt])
  case (single e)
  then have "e \<in> set (filter (\<lambda>e. \<not> FSkippable e c) es)"
    by simp
  then show ?thesis
    using single(2) assms by simp
next
  case many
  then show ?thesis
    using assms by (auto intro!: printable.connective)
qed (simp_all add: printable.bool_const)

subsection \<open>Ranges\<close>

context expr_domain
begin

lemma printable_interval:
  assumes "printable ctxt fam colref e" "FConstrainableType ctxt mdid" "col_mdid colref = mdid"
    and "EopttraceConsiderOpfamiliesForDistribution ctxt \<Longrightarrow> \<forall>l op am. opfam l op am"
  shows "consts_ok ctxt fam mdid e \<and> exact_shape ctxt opfam colref e n am \<and>
    PciIntervalFromScalarExpr ctxt opfam e colref n am \<noteq> None"
  using assms(1)
proof (induction arbitrary: n am)
  case (cmp d c)
  then show ?case
    using assms(4) by (auto simp: interval_eval)
next
  case (bool_const b)
  obtain u where "PciUnbounded ctxt colref True = Some u"
    using PciUnbounded_spec[OF assms(2,3), of True] by metis
  then show ?case
    by (simp add: PexprScalarConstBool_def CreateBoolDatum_def)
next
  case (connective op es)
  then have each: "consts_ok ctxt fam mdid e" "exact_shape ctxt opfam colref e n am"
    "PciIntervalFromScalarExpr ctxt opfam e colref n am \<noteq> None" if "e \<in> set es" for e
    using that by blast+
  then have some: "None \<notin> set (map (\<lambda>child. PciIntervalFromScalarExpr ctxt opfam child colref n am) es)"
    by (metis (no_types, lifting) image_iff list.set_map)
  show ?case
    using connective(1,2) each BoolAnd_not_None[OF _ some, of pc] BoolOr_not_None[OF some, of pc] by (cases op) simp_all
next
  case (array t c ds)
  have "PcnstrIntervalFromScalarArrayCmp ctxt (CScalarArrayCmp t c (CScalarIdent colref)
      (CScalarArray (map CScalarConst ds))) colref n \<noteq> None"
    using array by (auto simp: PcnstrIntervalFromScalarArrayCmp_def FCompareIdentToConstArray_def FScalarIdent_def
        FScalarArray_def FScalarConstArray_def PexprScalarArrayChild_def Let_def)
  then show ?case
    using array non_null by (auto simp: PexprScalarArrayChild_def intro: hd_in_set)
qed (simp_all add: PciIntervalFromScalarNullAndUnknownTest_def FScalarIdent_def)

lemma cmp_truth_key:
  assumes "fam d" "value_of_column v"
  shows "cmp_truth pc EcmptGEq v d = (if IsNull v then None else Some (key d \<le> key v))"
    "cmp_truth pc EcmptG v d = (if IsNull v then None else Some (key d < key v))"
    "cmp_truth pc EcmptLEq v d = (if IsNull v then None else Some (key v \<le> key d))"
    "cmp_truth pc EcmptL v d = (if IsNull v then None else Some (key v < key d))"
    "cmp_truth pc EcmptEq v d = (if IsNull v then None else Some (key v = key d))"
    "cmp_truth pc EcmptNEq v d = (if IsNull v then None else Some (key v \<noteq> key d))"
  using assms non_null[of d] by (auto simp: cmp_truth_def cmp_keys)

lemma rng_PexprScalar_spec:
  assumes "range_ok pc fam r" "value_of_column v"
  shows "printable ctxt fam colref (rng_PexprScalar ctxt r colref)"
    and "expr_holds False (truth pc orc v (rng_PexprScalar ctxt r colref)) \<longleftrightarrow>
      (if IsNull v then rng_IsConstraintUnbounded r else in_range pc r v)"
    and "FScalarConstBool (rng_PexprScalar ctxt r colref) True \<longleftrightarrow> rng_IsConstraintUnbounded r"
proof -
  show "expr_holds False (truth pc orc v (rng_PexprScalar ctxt r colref)) \<longleftrightarrow>
      (if IsNull v then rng_IsConstraintUnbounded r else in_range pc r v)"
    using assms by (cases "m_pdatumLeft r"; cases "m_pdatumRight r")
      (auto simp: rng_PexprScalar_def PexprEquality_def PexprConjDisj_holds PexprScalarCompEnd_def PexprScalarCmp_def
        cmp_truth_key range_ok_def rng_IsConstraintUnbounded_def in_range_def cmp_keys)
  show "printable ctxt fam colref (rng_PexprScalar ctxt r colref)"
    using assms(1) by (cases "m_pdatumLeft r"; cases "m_pdatumRight r")
      (auto simp: rng_PexprScalar_def PexprEquality_def PexprScalarCompEnd_def PexprScalarCmp_def range_ok_def
        intro!: PexprConjDisj_printable printable.cmp)
  have no_const: "\<not> FScalarConstBool (CScalarCmp c l e) b" "\<not> FScalarConstBool (CScalarBoolOp op es) b" for c l e op es b
    by (simp_all add: FScalarConstBool_def)
  show "FScalarConstBool (rng_PexprScalar ctxt r colref) True \<longleftrightarrow> rng_IsConstraintUnbounded r"
    by (cases "m_pdatumLeft r"; cases "m_pdatumRight r")
      (auto simp: rng_PexprScalar_def PexprEquality_def PexprConjDisj_def PexprScalarCompEnd_def PexprScalarCmp_def
        rng_IsConstraintUnbounded_def FSkippable_def FReducible_def no_const)
qed

lemma unbounded_range_alone:
  assumes "ranges_ok pc fam rs" "r \<in> set rs" "rng_IsConstraintUnbounded r"
  shows "rs = [r]"
proof -
  have inf: "lo key r = MinusInf" "hi key r = PlusInf"
    using assms(3) by (simp_all add: rng_IsConstraintUnbounded_def lo_def hi_def)
  obtain ps qs where rs: "rs = ps @ r # qs"
    using assms(2) split_list by fast
  then have ok: "ranges_ok pc fam ps" "ranges_ok pc fam qs" "follows ps (r # qs)" "\<forall>q \<in> set qs. hi key r \<le> lo key q"
    using assms(1) by (auto simp: ranges_ok_append ranges_ok_Cons)
  have "ps = []"
    using ok(1,3) inf range_ok_infinite(4) by (cases ps) (auto simp: ranges_ok_Cons)
  moreover have "qs = []"
    using ok(2,4) inf range_ok_infinite(3) by (cases qs) (auto simp: ranges_ok_Cons)
  ultimately show ?thesis
    using rs by simp
qed

lemma disjunction_spec:
  assumes "pci_ok pc fam a" "value_of_column v"
  shows "printable ctxt fam (m_pcr a) (PexprConstructDisjunctionScalar ctxt a)"
    and "expr_holds False (truth pc orc v (PexprConstructDisjunctionScalar ctxt a)) \<longleftrightarrow> pci_holds pc a v"
proof -
  let ?rs = "m_pdrgprng a" and ?es = "map (\<lambda>r. rng_PexprScalar ctxt r (m_pcr a)) (m_pdrgprng a)"
  have ok: "\<forall>r \<in> set ?rs. range_ok pc fam r"
    using assms(1) by (simp add: pci_ok_def ranges_ok_def)
  note spec = rng_PexprScalar_spec(1)[OF bspec[OF ok] assms(2), where colref = "m_pcr a"]
    rng_PexprScalar_spec(2)[OF bspec[OF ok] assms(2), where colref = "m_pcr a" and orc = orc]
    rng_PexprScalar_spec(3)[OF bspec[OF ok] assms(2), where colref = "m_pcr a"]
  have "printable ctxt fam (m_pcr a) (PexprConstructDisjunctionScalar ctxt a) \<and>
    (expr_holds False (truth pc orc v (PexprConstructDisjunctionScalar ctxt a)) \<longleftrightarrow> pci_holds pc a v)"
  proof (cases "length ?es = 1 \<and> FScalarConstBool (?es ! 0) True")
    case True
    then obtain r where r: "?rs = [r]"
      by (auto simp: length_Suc_conv)
    then have "rng_IsConstraintUnbounded r"
      using True spec(3)[of r] by simp
    then have "covers pc ?rs v"
      by (simp add: r covers_def in_range_def rng_IsConstraintUnbounded_def)
    then show ?thesis
      using True by (auto simp: PexprConstructDisjunctionScalar_def pci_holds_def printable.not_null printable.bool_const
          split: if_splits)
  next
    case False
    have bounded: "\<not> rng_IsConstraintUnbounded r" if "r \<in> set ?rs" for r
      using unbounded_range_alone[of ?rs r] assms(1) that False spec(3)[OF that] by (auto simp: pci_ok_def)
    have "expr_holds False (truth pc orc v (rng_PexprScalar ctxt r (m_pcr a))) \<longleftrightarrow> \<not> IsNull v \<and> in_range pc r v"
      if "r \<in> set ?rs" for r
      using spec(2)[OF that] bounded[OF that] by simp
    then show ?thesis
      using False spec(1)
      by (auto simp: PexprConstructDisjunctionScalar_def PexprConjDisj_holds pci_holds_def covers_def Let_def
          intro!: PexprConjDisj_printable printable.is_null)
  qed
  then show "printable ctxt fam (m_pcr a) (PexprConstructDisjunctionScalar ctxt a)"
    "expr_holds False (truth pc orc v (PexprConstructDisjunctionScalar ctxt a)) \<longleftrightarrow> pci_holds pc a v"
    by simp_all
qed

lemma FPoint_range:
  assumes "range_ok pc fam r" "FPoint pc r"
  shows "fam (the (m_pdatumRight r))" "fam v \<Longrightarrow> in_range pc r v \<longleftrightarrow> key v = key (the (m_pdatumRight r))"
  using assms by (cases "m_pdatumLeft r"; cases "m_pdatumRight r";
    auto simp: FPoint_def range_ok_def in_range_def cmp_keys)+

lemma not_in_cov:
  assumes "ranges_ok pc fam (r # rs)" "not_in_pattern pc r rs" "m_pdatumRight (last (r # rs)) = None"
  shows "cov (r # rs) k \<longleftrightarrow> \<not> before_cut k (lo key r) \<and> k \<notin> (\<lambda>r. key (the (m_pdatumRight r))) ` set (butlast (r # rs))"
    and "\<forall>q \<in> set (butlast (r # rs)). \<exists>h. m_pdatumRight q = Some h \<and> fam h"
proof -
  have "(cov (r # rs) k \<longleftrightarrow> \<not> before_cut k (lo key r) \<and> k \<notin> (\<lambda>r. key (the (m_pdatumRight r))) ` set (butlast (r # rs))) \<and>
      (\<forall>q \<in> set (butlast (r # rs)). \<exists>h. m_pdatumRight q = Some h \<and> fam h)"
    using assms
  proof (induction rs arbitrary: r)
    case Nil
    then show ?case
      by (simp add: hi_def before_cut_def)
  next
    case (Cons r' rs)
    have ok: "range_ok pc fam r" "ranges_ok pc fam (r' # rs)" "\<forall>q \<in> set (r' # rs). hi key r \<le> lo key q"
      using Cons.prems(1) by (simp_all add: ranges_ok_Cons[of r])
    have IH: "cov (r' # rs) k \<longleftrightarrow> \<not> before_cut k (lo key r') \<and> k \<notin> (\<lambda>r. key (the (m_pdatumRight r))) ` set (butlast (r' # rs))"
      "\<forall>q \<in> set (butlast (r' # rs)). \<exists>h. m_pdatumRight q = Some h \<and> fam h"
      using Cons.IH[OF ok(2)] Cons.prems(2,3) by simp_all
    obtain h where h: "m_pdatumRight r = Some h" "fam h" "hi key r = At (key h) False" "lo key r' = At (key h) True"
    proof -
      have "hi key r \<noteq> PlusInf"
        using ok(3) range_ok_infinite(3)[of r'] ok(2) by (auto simp: ranges_ok_Cons)
      then obtain h where "m_pdatumRight r = Some h"
        using range_ok_infinite(2)[OF ok(1)] by blast
      then show ?thesis
        using Cons.prems(2) ok(1,2) that[of h]
        by (auto simp: FUpperBoundEqualsLowerBound_def ranges_ok_Cons range_ok_def hi_def lo_def cmp_keys
            split: option.splits)
    qed
    have later: "key h < key (the (m_pdatumRight q))" if q: "q \<in> set (butlast (r' # rs))" for q
    proof -
      have "q \<in> set (r' # rs)"
        using q by (rule in_set_butlastD)
      then have "lo key r' \<le> lo key q" "lo key q < hi key q"
        using ok(2) ranges_ok_head_before[OF ok(2), of q] range_ok_cuts[of q] by (auto simp: ranges_ok_def)
      then have "At (key h) True < hi key q"
        unfolding h(4) by (rule le_less_trans)
      moreover obtain h' where "m_pdatumRight q = Some h'"
        using bspec[OF IH(2) q] by blast
      ultimately show ?thesis
        by (simp add: hi_def)
    qed
    have "lo key r < At (key h) False"
      using range_ok_cuts[OF ok(1)] h(3) by simp
    then have above: "key h < k \<Longrightarrow> \<not> before_cut k (lo key r)"
      by (cases "lo key r") (auto simp: before_cut_def)
    have ends: "before_cut k (hi key r) \<longleftrightarrow> k < key h" "before_cut k (lo key r') \<longleftrightarrow> k \<le> key h"
      by (auto simp: h before_cut_def)
    have below: "k \<le> key h \<Longrightarrow> k \<notin> (\<lambda>r. key (the (m_pdatumRight r))) ` set (butlast (r' # rs))"
      using later by (metis (no_types, lifting) imageE leD)
    have "cov (r # r' # rs) k \<longleftrightarrow>
        \<not> before_cut k (lo key r) \<and> k \<noteq> key h \<and> k \<notin> (\<lambda>r. key (the (m_pdatumRight r))) ` set (butlast (r' # rs))"
      unfolding cov_simps(2)[of r] IH(1) ends using above below
      by (cases k "key h" rule: linorder_cases) (auto simp del: butlast.simps)
    then show ?case
      using IH(2) h(1,2) by simp
  qed
  then show "cov (r # rs) k \<longleftrightarrow> \<not> before_cut k (lo key r) \<and> k \<notin> (\<lambda>r. key (the (m_pdatumRight r))) ` set (butlast (r # rs))"
    "\<forall>q \<in> set (butlast (r # rs)). \<exists>h. m_pdatumRight q = Some h \<and> fam h"
    by simp_all
qed

lemma array_expr_spec:
  assumes "\<forall>d \<in> set ds. fam d" "ds \<noteq> []" "value_of_column v" "EopttraceArrayConstraints ctxt"
    and tc: "(t, c) \<in> {(EarrcmpAny, EcmptEq), (EarrcmpAll, EcmptNEq)}"
    and "PexprScalarArrayCmp arr t c (map CScalarConst ds) colref = Some e"
  shows "printable ctxt fam colref e" "CollectDisjuncts e = [e]"
    and "expr_holds False (truth pc orc v e) \<longleftrightarrow>
      \<not> IsNull v \<and> (if t = EarrcmpAny then key v \<in> key ` set ds else key v \<notin> key ` set ds)"
proof -
  have truth: "cmp_truth pc c v d = (if IsNull v then None else Some (if t = EarrcmpAny then key v = key d else key v \<noteq> key d))"
    if "d \<in> set ds" for d
    using that assms(1) tc cmp_truth_key[OF _ assms(3)] by auto
  obtain d0 where d0: "d0 \<in> set ds"
    using assms(2) hd_in_set by blast
  have "printable ctxt fam colref e \<and> CollectDisjuncts e = [e] \<and> (expr_holds False (truth pc orc v e) \<longleftrightarrow>
      \<not> IsNull v \<and> (if t = EarrcmpAny then key v \<in> key ` set ds else key v \<notin> key ` set ds))"
  proof (cases "length ds = 1")
    case True
    then obtain d where d: "ds = [d]"
      by (auto simp: length_Suc_conv)
    then have "e = CScalarCmp c (CScalarIdent colref) (CScalarConst d)"
      using assms(6) by (simp add: PexprScalarArrayCmp_def PexprScalarCmp_def split: if_splits)
    then show ?thesis
      using truth[of d] tc assms(1) d by (auto intro!: printable.cmp)
  next
    case False
    then have e: "e = CScalarArrayCmp t c (CScalarIdent colref) (CScalarArray (map CScalarConst ds))"
      using assms(6) by (simp add: PexprScalarArrayCmp_def split: if_splits)
    then show ?thesis
      using truth tc assms(1,2,4) d0
      by (auto simp: PexprScalarArrayChild_def Let_def o_def intro!: printable.array split: if_splits)
  qed
  then show "printable ctxt fam colref e" "CollectDisjuncts e = [e]" "expr_holds False (truth pc orc v e) \<longleftrightarrow>
      \<not> IsNull v \<and> (if t = EarrcmpAny then key v \<in> key ` set ds else key v \<notin> key ` set ds)"
    by simp_all
qed

lemma array_values:
  assumes "pci_ok pc fam a" "1 < length (m_pdrgprng a)"
  shows "FConvertsToIn pc a \<Longrightarrow> (\<forall>r \<in> set (m_pdrgprng a). fam (the (m_pdatumRight r))) \<and>
      (\<forall>v. fam v \<longrightarrow> (covers pc (m_pdrgprng a) v \<longleftrightarrow> key v \<in> key ` (\<lambda>r. the (m_pdatumRight r)) ` set (m_pdrgprng a)))"
    and "FConvertsToNotIn pc a \<Longrightarrow> (\<forall>r \<in> set (butlast (m_pdrgprng a)). fam (the (m_pdatumRight r))) \<and>
      (\<forall>v. fam v \<longrightarrow> (covers pc (m_pdrgprng a) v \<longleftrightarrow> key v \<notin> key ` (\<lambda>r. the (m_pdatumRight r)) ` set (butlast (m_pdrgprng a))))"
proof -
  assume "FConvertsToIn pc a"
  then have "range_ok pc fam r \<and> FPoint pc r" if "r \<in> set (m_pdrgprng a)" for r
    using assms(1) that by (auto simp: FConvertsToIn_def list_all_iff pci_ok_def ranges_ok_def)
  then show "(\<forall>r \<in> set (m_pdrgprng a). fam (the (m_pdatumRight r))) \<and>
      (\<forall>v. fam v \<longrightarrow> (covers pc (m_pdrgprng a) v \<longleftrightarrow> key v \<in> key ` (\<lambda>r. the (m_pdatumRight r)) ` set (m_pdrgprng a)))"
    using FPoint_range unfolding covers_def image_image image_iff by blast
next
  assume not_in: "FConvertsToNotIn pc a"
  obtain r rs where rs: "m_pdrgprng a = r # rs"
    using assms(2) by (cases "m_pdrgprng a") auto
  have ok: "ranges_ok pc fam (r # rs)" "not_in_pattern pc r rs" "m_pdatumRight (last (r # rs)) = None" "m_pdatumLeft r = None"
    using assms(1) not_in by (auto simp: pci_ok_def rs FConvertsToNotIn_def split: if_splits)
  note spec = not_in_cov[OF ok(1-3)]
  have "\<not> before_cut k (lo key r)" for k
    by (simp add: lo_def ok(4) before_cut_def)
  then show "(\<forall>r \<in> set (butlast (m_pdrgprng a)). fam (the (m_pdatumRight r))) \<and>
      (\<forall>v. fam v \<longrightarrow> (covers pc (m_pdrgprng a) v \<longleftrightarrow> key v \<notin> key ` (\<lambda>r. the (m_pdatumRight r)) ` set (butlast (m_pdrgprng a))))"
    using spec covers_cov[OF ok(1)] unfolding rs image_image by fastforce
qed

lemma array_scalar_spec:
  assumes "pci_ok pc fam a" "value_of_column v" "EopttraceArrayConstraints ctxt"
    and "m_fIncludesNull a \<Longrightarrow> \<forall>c. arr (col_mdid (m_pcr a)) c"
    and "PexprConstructArrayScalar ctxt arr a = Some e"
  shows "printable ctxt fam (m_pcr a) e \<and> (expr_holds False (truth pc orc v e) \<longleftrightarrow> pci_holds pc a v)"
proof -
  define fIn where "fIn = FConvertsToIn pc a"
  define rs where "rs = (if fIn then m_pdrgprng a else butlast (m_pdrgprng a))"
  define ds where "ds = map (\<lambda>r. the (m_pdatumRight r)) rs"
  define t where "t = (if fIn then EarrcmpAny else EarrcmpAll)"
  define c where "c = (if fIn then EcmptEq else EcmptNEq)"
  have len: "1 < length (m_pdrgprng a)" and conv: "\<not> fIn \<Longrightarrow> FConvertsToNotIn pc a"
    and e: "PexprConstructArrayScalar_of ctxt arr a fIn = Some e"
    using assms(5) by (auto simp: PexprConstructArrayScalar_def fIn_def split: if_splits)
  have ds: "\<forall>d \<in> set ds. fam d" and cov: "fam v \<Longrightarrow> covers pc (m_pdrgprng a) v \<longleftrightarrow> (key v \<in> key ` set ds) = fIn"
    using array_values[OF assms(1) len] conv by (cases fIn; simp add: ds_def rs_def fIn_def)+
  have "ds \<noteq> []"
    using len by (cases "m_pdrgprng a" rule: rev_cases) (auto simp: ds_def rs_def)
  moreover have tc: "(t, c) \<in> {(EarrcmpAny, EcmptEq), (EarrcmpAll, EcmptNEq)}" "t = EarrcmpAny \<longleftrightarrow> fIn"
    by (auto simp: t_def c_def)
  ultimately have spec: "printable ctxt fam (m_pcr a) e' \<and> CollectDisjuncts e' = [e'] \<and>
      (expr_holds False (truth pc orc v e') \<longleftrightarrow> \<not> IsNull v \<and> covers pc (m_pdrgprng a) v)"
    if "PexprScalarArrayCmp arr t c (map CScalarConst ds) (m_pcr a) = Some e'" for e'
    using array_expr_spec[OF ds _ assms(2,3) tc(1) that] cov assms(2) by auto
  have e_eq: "(if m_fIncludesNull a
      then Some (PexprConjDisj ctxt (CollectDisjuncts (the (PexprScalarArrayCmp arr t c (map CScalarConst ds) (m_pcr a))) @
        [CScalarNullTest (CScalarIdent (m_pcr a))]) False)
      else PexprScalarArrayCmp arr t c (map CScalarConst ds) (m_pcr a)) = Some e"
    using e by (cases fIn) (simp_all add: PexprConstructArrayScalar_of_def ds_def rs_def t_def c_def o_def Let_def split: if_splits)
  show ?thesis
  proof (cases "m_fIncludesNull a")
    case True
    then have "PexprScalarArrayCmp arr t c (map CScalarConst ds) (m_pcr a) \<noteq> None"
      using assms(4) by (simp add: PexprScalarArrayCmp_def)
    then obtain e' where e': "PexprScalarArrayCmp arr t c (map CScalarConst ds) (m_pcr a) = Some e'"
      by blast
    then show ?thesis
      using spec[OF e'] e_eq True
      by (auto simp: PexprConjDisj_holds pci_holds_def intro!: PexprConjDisj_printable printable.is_null)
  next
    case False
    then show ?thesis
      using spec e_eq by (auto simp: pci_holds_def)
  qed
qed

lemma PexprConstructScalar_spec:
  assumes "pci_ok pc fam a" "col_mdid (m_pcr a) = mdid" "value_of_column v"
    and "m_fIncludesNull a \<Longrightarrow> \<forall>c. arr (col_mdid (m_pcr a)) c"
  shows "printable ctxt fam (m_pcr a) (PexprConstructScalar ctxt arr a)"
    and "expr_holds False (truth pc orc v (PexprConstructScalar ctxt arr a)) \<longleftrightarrow> pci_holds pc a v"
proof -
  have "printable ctxt fam (m_pcr a) (PexprConstructScalar ctxt arr a) \<and>
    (expr_holds False (truth pc orc v (PexprConstructScalar ctxt arr a)) \<longleftrightarrow> pci_holds pc a v)"
  proof (cases "FContradiction ctxt a")
    case True
    then show ?thesis
      using FContradiction_sound[OF assms(1-3)] by (simp add: PexprConstructScalar_def printable.bool_const)
  next
    case False
    then show ?thesis
      using disjunction_spec(1)[OF assms(1,3)] disjunction_spec(2)[OF assms(1,3), of orc]
        array_scalar_spec[where arr = arr and orc = orc, OF assms(1,3) _ assms(4)]
      by (auto simp: PexprConstructScalar_def split: option.split if_splits)
  qed
  then show "printable ctxt fam (m_pcr a) (PexprConstructScalar ctxt arr a)"
    "expr_holds False (truth pc orc v (PexprConstructScalar ctxt arr a)) \<longleftrightarrow> pci_holds pc a v"
    by simp_all
qed

end

subsection \<open>Properties\<close>



end
