(* ===== verification/StateMachine.thy ===== *)
theory StateMachine
  imports Prelude
begin

text \<open>
  The finite state machines that drive the optimization jobs:
  \<^verbatim>\<open>libgpopt/include/gpopt/base/CStateMachine.h\<close> (diagram, transition, history and the test for
  unreachable states) and \<^verbatim>\<open>libgpopt/include/gpopt/search/CJobStateMachine.h\<close> (actions and the run
  loop).  A state is its number in the enumeration; the template parameter \<^verbatim>\<open>tenumstateSentinel\<close> is the
  number of states \<open>n\<close>, and the template parameter \<^verbatim>\<open>tenumeventSentinel\<close> is an event \<open>none\<close> that marks the
  empty cells of a diagram.
\<close>

subsection \<open>CStateMachine\<close>

type_synonym 'e diagram = "'e list list"

abbreviation (input) GPOPT_FSM_HISTORY :: nat where
  "GPOPT_FSM_HISTORY \<equiv> 25"

record 'e CStateMachine =
  m_tenumstate :: nat
  m_fInit_sm :: bool
  m_rgrgtenumeventTransitions :: "'e diagram"
  m_ulHistory :: nat
  m_tenumstateHistory :: "nat list"
  m_tenumeventHistory :: "'e list"

definition TesInitial :: nat where
  "TesInitial = 0"

definition TesFinal :: "nat \<Rightarrow> nat" where
  "TesFinal n = n - 1"

definition CStateMachine_Init :: "nat \<Rightarrow> 'e diagram \<Rightarrow> 'e CStateMachine \<Rightarrow> 'e CStateMachine" where
  "CStateMachine_Init n rgrg sm = sm
    \<lparr>m_rgrgtenumeventTransitions := map (\<lambda>ulOuter. map (\<lambda>ulInner. rgrg ! ulOuter ! ulInner) [0..<n]) [0..<n],
     m_tenumstate := TesInitial,
     m_fInit_sm := True\<rparr>"

definition CStateMachine_Reset :: "'e CStateMachine \<Rightarrow> 'e CStateMachine" where
  "CStateMachine_Reset sm = sm\<lparr>m_tenumstate := TesInitial, m_fInit_sm := False\<rparr>"

definition RecordHistory :: "'e \<Rightarrow> nat \<Rightarrow> 'e CStateMachine \<Rightarrow> 'e CStateMachine" where
  "RecordHistory ev st sm =
    (let ulHistory = m_ulHistory sm mod GPOPT_FSM_HISTORY
     in sm\<lparr>m_tenumeventHistory := (m_tenumeventHistory sm)[ulHistory := ev],
           m_tenumstateHistory := (m_tenumstateHistory sm)[ulHistory := st],
           m_ulHistory := m_ulHistory sm + 1\<rparr>)"

definition FAttemptTransition :: "nat \<Rightarrow> 'e diagram \<Rightarrow> nat \<Rightarrow> 'e \<Rightarrow> nat option" where
  "FAttemptTransition n rgrg stOld ev = find (\<lambda>ulOuter. rgrg ! stOld ! ulOuter = ev) [0..<n]"

text \<open>The flag, the state handed back through the reference parameter, and the machine.\<close>

definition FTransition :: "nat \<Rightarrow> 'e \<Rightarrow> 'e CStateMachine \<Rightarrow> bool \<times> nat \<times> 'e CStateMachine" where
  "FTransition n ev sm =
    (case FAttemptTransition n (m_rgrgtenumeventTransitions sm) (m_tenumstate sm) ev of
       Some stNew \<Rightarrow> (True, stNew, RecordHistory ev stNew (sm\<lparr>m_tenumstate := stNew\<rparr>))
     | None \<Rightarrow> (False, m_tenumstate sm, sm))"

definition Transition :: "nat \<Rightarrow> 'e \<Rightarrow> 'e CStateMachine \<Rightarrow> 'e CStateMachine" where
  "Transition n ev sm = snd (snd (FTransition n ev sm))"

text \<open>The records that \<^verbatim>\<open>OsHistory\<close> prints, in the order in which it prints them.\<close>

definition OsHistory :: "'e CStateMachine \<Rightarrow> ('e \<times> nat) list" where
  "OsHistory sm =
    (let ulElems = min (m_ulHistory sm) GPOPT_FSM_HISTORY;
         ulStart = (if m_ulHistory sm < GPOPT_FSM_HISTORY then 0 else m_ulHistory sm + 1)
     in map (\<lambda>ul. let ulPos = (ulStart + ul) mod GPOPT_FSM_HISTORY
                  in (m_tenumeventHistory sm ! ulPos, m_tenumstateHistory sm ! ulPos)) [0..<ulElems])"

text \<open>
  The walk over the edges of the diagram: every sink, every source, and the event of the cell if it
  has one.  The walker gets source, sink and event and updates its context.
\<close>

definition Transitions :: "'e \<Rightarrow> 'e diagram \<Rightarrow> nat \<Rightarrow> nat \<Rightarrow> 'e list" where
  "Transitions none rgrg stOld stNew = (if none \<noteq> rgrg ! stOld ! stNew then [rgrg ! stOld ! stNew] else [])"

definition Walk :: "nat \<Rightarrow> 'e \<Rightarrow> 'e diagram \<Rightarrow> (nat \<Rightarrow> nat \<Rightarrow> 'e \<Rightarrow> 'c \<Rightarrow> 'c) \<Rightarrow> 'c \<Rightarrow> 'c" where
  "Walk n none rgrg walker c =
    fold (\<lambda>sink. fold (\<lambda>source. fold (walker source sink) (Transitions none rgrg source sink)) [0..<n])
      [0..<n] c"

definition Unreachable_walker :: "nat \<Rightarrow> nat \<Rightarrow> 'e \<Rightarrow> nat set \<Rightarrow> nat set" where
  "Unreachable_walker source sink ev eset = (if source \<noteq> sink then eset - {sink} else eset)"

text \<open>The states that \<^verbatim>\<open>Unreachable\<close> stores at the front of its output array, and their number.\<close>

definition Unreachable :: "nat \<Rightarrow> 'e \<Rightarrow> 'e CStateMachine \<Rightarrow> nat list \<times> nat" where
  "Unreachable n none sm =
    (let eset = Walk n none (m_rgrgtenumeventTransitions sm) Unreachable_walker (set [0..<n]);
         found = filter (\<lambda>st. st \<in> eset) [0..<n]
     in (found @ replicate (n - length found) n, length found))"

definition FReachable :: "nat \<Rightarrow> 'e \<Rightarrow> 'e CStateMachine \<Rightarrow> bool" where
  "FReachable n none sm \<longleftrightarrow> snd (Unreachable n none sm) = 0"

subsection \<open>CJobStateMachine\<close>

text \<open>
  An action gets the scheduling context and the owning job; here it transforms the state \<open>'s\<close> they
  give access to and returns an event.  The null function pointer is \<open>None\<close>.
\<close>

record ('e, 's) CJobStateMachine =
  m_rgPfuncAction :: "('s \<Rightarrow> 'e \<times> 's) option list"
  m_sm :: "'e CStateMachine"

definition CJobStateMachine_Reset :: "nat \<Rightarrow> ('e, 's) CJobStateMachine \<Rightarrow> ('e, 's) CJobStateMachine" where
  "CJobStateMachine_Reset n jsm = jsm
    \<lparr>m_sm := CStateMachine_Reset (m_sm jsm), m_rgPfuncAction := replicate n None\<rparr>"

definition CJobStateMachine_Init ::
  "nat \<Rightarrow> 'e diagram \<Rightarrow> ('e, 's) CJobStateMachine \<Rightarrow> ('e, 's) CJobStateMachine" where
  "CJobStateMachine_Init n rgf jsm =
    (let jsm' = CJobStateMachine_Reset n jsm
     in jsm'\<lparr>m_sm := CStateMachine_Init n rgf (m_sm jsm')\<rparr>)"

definition SetAction ::
  "nat \<Rightarrow> ('s \<Rightarrow> 'e \<times> 's) \<Rightarrow> ('e, 's) CJobStateMachine \<Rightarrow> ('e, 's) CJobStateMachine" where
  "SetAction est pfAction jsm = jsm\<lparr>m_rgPfuncAction := (m_rgPfuncAction jsm)[est := Some pfAction]\<rparr>"

text \<open>
  The run loop.  \<open>fTimedOut\<close> reads the clock of the current search stage through the state, \<open>cleanup\<close> is
  the virtual method \<^verbatim>\<open>Cleanup\<close> of the owner.  \<open>None\<close> is a loop that does not end.
\<close>

partial_function (option) FRun ::
  "nat \<Rightarrow> ('s \<Rightarrow> bool) \<Rightarrow> ('s \<Rightarrow> 's) \<Rightarrow> ('e, 's) CJobStateMachine \<Rightarrow> 's \<Rightarrow>
   (bool \<times> ('e, 's) CJobStateMachine \<times> 's) option" where
  "FRun n fTimedOut cleanup jsm s =
    (if fTimedOut s then Some (True, jsm, cleanup s)
     else
       let estCurrent = m_tenumstate (m_sm jsm);
           pfunc = the (m_rgPfuncAction jsm ! estCurrent);
           (eev, s') = pfunc s;
           (fSucceeded, estNext, sm') = FTransition n eev (m_sm jsm);
           jsm' = jsm\<lparr>m_sm := sm'\<rparr>
       in if estNext \<noteq> estCurrent \<and> estNext \<noteq> TesFinal n then FRun n fTimedOut cleanup jsm' s'
          else Some (estNext = TesFinal n, jsm', s'))"

end
