(* ===== verification/JobDiagrams.thy ===== *)
theory JobDiagrams
  imports StateMachine
begin

text \<open>
  The transition diagrams of the optimization jobs (\<^verbatim>\<open>rgeev\<close> at the top of
  \<^verbatim>\<open>libgpopt/src/search/CJob*.cpp\<close>, events and states from the headers of the same names), and what the
  run loop does on them: a diagram whose edges never go back makes the loop end whatever the actions
  do; the one diagram with an edge back needs the actions of its job.
\<close>

subsection \<open>Diagrams\<close>

datatype GEx_EEvent = GEx_eevStartedExploration | GEx_eevNewChildren | GEx_eevExplored | GEx_eevSentinel

abbreviation (input) GEx_estSentinel :: nat where "GEx_estSentinel \<equiv> 3"

definition GEx_rgeev :: "GEx_EEvent diagram" where
  "GEx_rgeev =
    [[GEx_eevSentinel, GEx_eevStartedExploration, GEx_eevSentinel],
     [GEx_eevSentinel, GEx_eevNewChildren, GEx_eevExplored],
     [GEx_eevSentinel, GEx_eevSentinel, GEx_eevSentinel]]"

datatype GIm_EEvent = GIm_eevExploring | GIm_eevExplored | GIm_eevImplementing | GIm_eevImplemented
  | GIm_eevSentinel

abbreviation (input) GIm_estSentinel :: nat where "GIm_estSentinel \<equiv> 3"

definition GIm_rgeev :: "GIm_EEvent diagram" where
  "GIm_rgeev =
    [[GIm_eevExploring, GIm_eevExplored, GIm_eevSentinel],
     [GIm_eevSentinel, GIm_eevImplementing, GIm_eevImplemented],
     [GIm_eevSentinel, GIm_eevSentinel, GIm_eevSentinel]]"

datatype GOpt_EEvent = GOpt_eevImplementing | GOpt_eevImplemented | GOpt_eevOptimizing
  | GOpt_eevOptimizedCurrentLevel | GOpt_eevOptimized | GOpt_eevSentinel

abbreviation (input) GOpt_estSentinel :: nat where "GOpt_estSentinel \<equiv> 4"

definition GOpt_rgeev :: "GOpt_EEvent diagram" where
  "GOpt_rgeev =
    [[GOpt_eevImplementing, GOpt_eevImplemented, GOpt_eevSentinel, GOpt_eevOptimized],
     [GOpt_eevSentinel, GOpt_eevOptimizing, GOpt_eevOptimizedCurrentLevel, GOpt_eevSentinel],
     [GOpt_eevSentinel, GOpt_eevOptimizing, GOpt_eevSentinel, GOpt_eevOptimized],
     [GOpt_eevSentinel, GOpt_eevSentinel, GOpt_eevSentinel, GOpt_eevSentinel]]"

datatype GEE_EEvent = GEE_eevExploringChildren | GEE_eevChildrenExplored | GEE_eevExploringSelf
  | GEE_eevSelfExplored | GEE_eevFinalized | GEE_eevSentinel

abbreviation (input) GEE_estSentinel :: nat where "GEE_estSentinel \<equiv> 4"

definition GEE_rgeev :: "GEE_EEvent diagram" where
  "GEE_rgeev =
    [[GEE_eevExploringChildren, GEE_eevChildrenExplored, GEE_eevSentinel, GEE_eevSentinel],
     [GEE_eevSentinel, GEE_eevExploringSelf, GEE_eevSelfExplored, GEE_eevSentinel],
     [GEE_eevSentinel, GEE_eevSentinel, GEE_eevSentinel, GEE_eevFinalized],
     [GEE_eevSentinel, GEE_eevSentinel, GEE_eevSentinel, GEE_eevSentinel]]"

datatype GEI_EEvent = GEI_eevImplementingChildren | GEI_eevChildrenImplemented | GEI_eevImplementingSelf
  | GEI_eevSelfImplemented | GEI_eevFinalized | GEI_eevSentinel

abbreviation (input) GEI_estSentinel :: nat where "GEI_estSentinel \<equiv> 4"

definition GEI_rgeev :: "GEI_EEvent diagram" where
  "GEI_rgeev =
    [[GEI_eevImplementingChildren, GEI_eevChildrenImplemented, GEI_eevSentinel, GEI_eevSentinel],
     [GEI_eevSentinel, GEI_eevImplementingSelf, GEI_eevSelfImplemented, GEI_eevSentinel],
     [GEI_eevSentinel, GEI_eevSentinel, GEI_eevSentinel, GEI_eevFinalized],
     [GEI_eevSentinel, GEI_eevSentinel, GEI_eevSentinel, GEI_eevSentinel]]"

datatype GEO_EEvent = GEO_eevOptimizingChildren | GEO_eevChildrenOptimized | GEO_eevCheckingEnfdProps
  | GEO_eevOptimizingSelf | GEO_eevSelfOptimized | GEO_eevFinalized | GEO_eevSentinel

abbreviation (input) GEO_estSentinel :: nat where "GEO_estSentinel \<equiv> 6"

definition GEO_rgeev :: "GEO_EEvent diagram" where
  "GEO_rgeev =
    [[GEO_eevSentinel, GEO_eevOptimizingChildren, GEO_eevSentinel,
      GEO_eevSentinel, GEO_eevSentinel, GEO_eevFinalized],
     [GEO_eevSentinel, GEO_eevOptimizingChildren, GEO_eevChildrenOptimized,
      GEO_eevSentinel, GEO_eevSentinel, GEO_eevFinalized],
     [GEO_eevSentinel, GEO_eevSentinel, GEO_eevSentinel,
      GEO_eevOptimizingSelf, GEO_eevSentinel, GEO_eevFinalized],
     [GEO_eevSentinel, GEO_eevSentinel, GEO_eevSentinel,
      GEO_eevOptimizingSelf, GEO_eevSelfOptimized, GEO_eevFinalized],
     [GEO_eevSentinel, GEO_eevSentinel, GEO_eevSentinel,
      GEO_eevSentinel, GEO_eevSentinel, GEO_eevFinalized],
     [GEO_eevSentinel, GEO_eevSentinel, GEO_eevSentinel,
      GEO_eevSentinel, GEO_eevSentinel, GEO_eevSentinel]]"

datatype Xf_EEvent = Xf_eevCompleted | Xf_eevSentinel

abbreviation (input) Xf_estSentinel :: nat where "Xf_estSentinel \<equiv> 2"

definition Xf_rgeev :: "Xf_EEvent diagram" where
  "Xf_rgeev = [[Xf_eevSentinel, Xf_eevCompleted], [Xf_eevSentinel, Xf_eevSentinel]]"

subsection \<open>Shape of a diagram\<close>

text \<open>
  A diagram is well formed when it is square, no row holds an event twice (the debug check of
  \<^verbatim>\<open>FAttemptTransition\<close>), the row of the final state is empty and every other row has an edge to a
  later state.  It is forward when every edge leads to the same or a later state.
\<close>

definition diagram_wf :: "nat \<Rightarrow> 'e \<Rightarrow> 'e diagram \<Rightarrow> bool" where
  "diagram_wf n none rgrg \<longleftrightarrow>
    length rgrg = n \<and> list_all (\<lambda>row. length row = n \<and> distinct (filter (\<lambda>e. e \<noteq> none) row)) rgrg
    \<and> rgrg ! (n - 1) = replicate n none
    \<and> list_all (\<lambda>i. list_ex (\<lambda>j. rgrg ! i ! j \<noteq> none) [Suc i..<n]) [0..<n - 1]"

definition forward :: "nat \<Rightarrow> 'e \<Rightarrow> 'e diagram \<Rightarrow> bool" where
  "forward n none rgrg \<longleftrightarrow> list_all (\<lambda>i. list_all (\<lambda>j. rgrg ! i ! j = none) [0..<i]) [0..<n]"

lemma forward_edge:
  assumes "forward n none rgrg" "i < n" "rgrg ! i ! j \<noteq> none"
  shows "i \<le> j"
  using assms by (force simp: forward_def list_all_iff not_le [symmetric])

subsection \<open>Transitions\<close>

lemma FAttemptTransition_Some:
  assumes "FAttemptTransition n rgrg st ev = Some st'"
  shows "st' < n \<and> rgrg ! st ! st' = ev"
  using assms by (auto simp: FAttemptTransition_def find_Some_iff)

lemma m_tenumstate_RecordHistory [simp]: "m_tenumstate (RecordHistory ev st sm) = m_tenumstate sm"
  by (simp add: RecordHistory_def Let_def)

lemma m_rgrg_RecordHistory [simp]:
  "m_rgrgtenumeventTransitions (RecordHistory ev st sm) = m_rgrgtenumeventTransitions sm"
  by (simp add: RecordHistory_def Let_def)

lemma m_ulHistory_RecordHistory [simp]: "m_ulHistory (RecordHistory ev st sm) = m_ulHistory sm + 1"
  by (simp add: RecordHistory_def Let_def)

lemma FTransition_cases:
  obtains (taken) st' sm' where "FTransition n ev sm = (True, st', sm')" "st' < n"
      "m_rgrgtenumeventTransitions sm ! m_tenumstate sm ! st' = ev" "m_tenumstate sm' = st'"
      "m_rgrgtenumeventTransitions sm' = m_rgrgtenumeventTransitions sm" "m_ulHistory sm' = m_ulHistory sm + 1"
  | (rejected) "FTransition n ev sm = (False, m_tenumstate sm, sm)"
      "FAttemptTransition n (m_rgrgtenumeventTransitions sm) (m_tenumstate sm) ev = None"
proof (cases "FAttemptTransition n (m_rgrgtenumeventTransitions sm) (m_tenumstate sm) ev")
  case None
  then show ?thesis by (intro rejected) (simp_all add: FTransition_def)
next
  case (Some st')
  show ?thesis
    by (rule taken [of st' "RecordHistory ev st' (sm\<lparr>m_tenumstate := st'\<rparr>)"])
      (use FAttemptTransition_Some [OF Some] Some in \<open>simp_all add: FTransition_def\<close>)
qed

subsection \<open>The run loop\<close>

text \<open>
  Every state but the final one has an action, and no action returns the sentinel (the assertion of
  \<^verbatim>\<open>FAttemptTransition\<close>).
\<close>

definition actions_ok :: "nat \<Rightarrow> 'e \<Rightarrow> ('e, 's) CJobStateMachine \<Rightarrow> bool" where
  "actions_ok n none jsm \<longleftrightarrow>
    (\<forall>i<TesFinal n. \<exists>f. m_rgPfuncAction jsm ! i = Some f \<and> (\<forall>s. fst (f s) \<noteq> none))"

text \<open>What a run leaves behind: true means the final state or a cleanup after the time limit.\<close>

definition run_outcome ::
  "nat \<Rightarrow> ('s \<Rightarrow> bool) \<Rightarrow> ('s \<Rightarrow> 's) \<Rightarrow> bool \<times> ('e, 's) CJobStateMachine \<times> 's \<Rightarrow> bool" where
  "run_outcome n fTimedOut cleanup r \<longleftrightarrow>
    (case r of (b, jsm, s) \<Rightarrow>
       (b \<longrightarrow> m_tenumstate (m_sm jsm) = TesFinal n \<or> (\<exists>t. fTimedOut t \<and> s = cleanup t))
       \<and> (\<not> b \<longrightarrow> m_tenumstate (m_sm jsm) < TesFinal n))"

lemma FRun_timed_out: "fTimedOut s \<Longrightarrow> FRun n fTimedOut cleanup jsm s = Some (True, jsm, cleanup s)"
  by (subst FRun.simps) simp

lemma FRun_step:
  assumes "\<not> fTimedOut s" and "m_rgPfuncAction jsm ! m_tenumstate (m_sm jsm) = Some f"
    and "f s = (ev, s')" and "FTransition n ev (m_sm jsm) = (ok, st', sm')"
  shows "FRun n fTimedOut cleanup jsm s =
    (if st' \<noteq> m_tenumstate (m_sm jsm) \<and> st' \<noteq> TesFinal n then FRun n fTimedOut cleanup (jsm\<lparr>m_sm := sm'\<rparr>) s'
     else Some (st' = TesFinal n, jsm\<lparr>m_sm := sm'\<rparr>, s'))"
  using assms by (subst FRun.simps) (simp add: Let_def)

text \<open>
  The rule for runs: an invariant, a measure that every round before the last one decreases, and a
  predicate that holds whenever the loop is left.
\<close>

lemma FRun_rule:
  fixes \<mu> :: "('e, 's) CJobStateMachine \<Rightarrow> 's \<Rightarrow> nat"
  assumes "I jsm s"
    and late: "\<And>jsm s. I jsm s \<Longrightarrow> fTimedOut s \<Longrightarrow> Q (True, jsm, cleanup s)"
    and round: "\<And>jsm s. I jsm s \<Longrightarrow> \<not> fTimedOut s \<Longrightarrow>
      \<exists>f ev s' ok st' sm'. m_rgPfuncAction jsm ! m_tenumstate (m_sm jsm) = Some f \<and> f s = (ev, s')
        \<and> FTransition n ev (m_sm jsm) = (ok, st', sm')
        \<and> (if st' \<noteq> m_tenumstate (m_sm jsm) \<and> st' \<noteq> TesFinal n
           then I (jsm\<lparr>m_sm := sm'\<rparr>) s' \<and> \<mu> (jsm\<lparr>m_sm := sm'\<rparr>) s' < \<mu> jsm s
           else Q (st' = TesFinal n, jsm\<lparr>m_sm := sm'\<rparr>, s'))"
  shows "\<exists>r. FRun n fTimedOut cleanup jsm s = Some r \<and> Q r"
  using assms(1)
proof (induction "\<mu> jsm s" arbitrary: jsm s rule: less_induct)
  case less
  show ?case
  proof (cases "fTimedOut s")
    case True
    then show ?thesis using late [OF less.prems] by (simp add: FRun_timed_out)
  next
    case False
    from round [OF less.prems False] obtain f ev s' ok st' sm' where
      r: "m_rgPfuncAction jsm ! m_tenumstate (m_sm jsm) = Some f" "f s = (ev, s')"
        "FTransition n ev (m_sm jsm) = (ok, st', sm')"
      and c: "if st' \<noteq> m_tenumstate (m_sm jsm) \<and> st' \<noteq> TesFinal n
         then I (jsm\<lparr>m_sm := sm'\<rparr>) s' \<and> \<mu> (jsm\<lparr>m_sm := sm'\<rparr>) s' < \<mu> jsm s
         else Q (st' = TesFinal n, jsm\<lparr>m_sm := sm'\<rparr>, s')" by blast
    show ?thesis
    proof (cases "st' \<noteq> m_tenumstate (m_sm jsm) \<and> st' \<noteq> TesFinal n")
      case True
      have "I (jsm\<lparr>m_sm := sm'\<rparr>) s'" "\<mu> (jsm\<lparr>m_sm := sm'\<rparr>) s' < \<mu> jsm s"
        using c unfolding if_P [OF True] by auto
      from less.hyps [OF this(2,1)] show ?thesis
        unfolding FRun_step [of fTimedOut s jsm, OF False r] if_P [OF True] .
    next
      case stop: False
      have "Q (st' = TesFinal n, jsm\<lparr>m_sm := sm'\<rparr>, s')" using c unfolding if_not_P [OF stop] .
      then show ?thesis unfolding FRun_step [of fTimedOut s jsm, OF False r] if_not_P [OF stop] by simp
    qed
  qed
qed

text \<open>
  On a forward diagram every round but the last moves to a later state, so a run ends after at most as
  many rounds as there are states ahead, whatever the actions do.
\<close>

definition forward_run :: "nat \<Rightarrow> 'e \<Rightarrow> nat \<Rightarrow> ('e, 's) CJobStateMachine \<Rightarrow> bool" where
  "forward_run n none bound jsm \<longleftrightarrow>
    forward n none (m_rgrgtenumeventTransitions (m_sm jsm)) \<and> actions_ok n none jsm
    \<and> m_tenumstate (m_sm jsm) < TesFinal n
    \<and> m_ulHistory (m_sm jsm) + (TesFinal n - m_tenumstate (m_sm jsm)) \<le> bound"

definition bounded_outcome ::
  "nat \<Rightarrow> ('s \<Rightarrow> bool) \<Rightarrow> ('s \<Rightarrow> 's) \<Rightarrow> nat \<Rightarrow> bool \<times> ('e, 's) CJobStateMachine \<times> 's \<Rightarrow> bool" where
  "bounded_outcome n fTimedOut cleanup bound r \<longleftrightarrow>
    run_outcome n fTimedOut cleanup r \<and> m_ulHistory (m_sm (fst (snd r))) \<le> bound"

lemma forward_run_round:
  assumes run: "forward_run n none bound jsm"
  shows "\<exists>f ev s' ok st' sm'. m_rgPfuncAction jsm ! m_tenumstate (m_sm jsm) = Some f \<and> f s = (ev, s')
    \<and> FTransition n ev (m_sm jsm) = (ok, st', sm')
    \<and> (if st' \<noteq> m_tenumstate (m_sm jsm) \<and> st' \<noteq> TesFinal n
       then forward_run n none bound (jsm\<lparr>m_sm := sm'\<rparr>)
         \<and> TesFinal n - m_tenumstate (m_sm (jsm\<lparr>m_sm := sm'\<rparr>)) < TesFinal n - m_tenumstate (m_sm jsm)
       else bounded_outcome n fTimedOut cleanup bound (st' = TesFinal n, jsm\<lparr>m_sm := sm'\<rparr>, s'))"
proof -
  let ?st = "m_tenumstate (m_sm jsm)"
  have fw: "forward n none (m_rgrgtenumeventTransitions (m_sm jsm))" and st: "?st < TesFinal n"
    using run by (auto simp: forward_run_def)
  obtain f where f: "m_rgPfuncAction jsm ! ?st = Some f" "\<And>s. fst (f s) \<noteq> none"
    using run by (auto simp: forward_run_def actions_ok_def)
  obtain ev s' where ev: "f s = (ev, s')" by force
  have none: "ev \<noteq> none" using f(2) [of s] by (simp add: ev)
  show ?thesis
  proof (cases rule: FTransition_cases [of n ev "m_sm jsm"])
    case rejected
    then show ?thesis using f(1) ev run by (auto simp: bounded_outcome_def run_outcome_def forward_run_def)
  next
    case (taken st' sm')
    have "?st \<le> st'"
      by (rule forward_edge [OF fw]) (use st in \<open>simp_all add: taken(3) none TesFinal_def\<close>)
    moreover have "st' \<le> TesFinal n" using taken(2) by (simp add: TesFinal_def)
    ultimately have "if st' \<noteq> ?st \<and> st' \<noteq> TesFinal n
      then forward_run n none bound (jsm\<lparr>m_sm := sm'\<rparr>) \<and> TesFinal n - st' < TesFinal n - ?st
      else bounded_outcome n fTimedOut cleanup bound (st' = TesFinal n, jsm\<lparr>m_sm := sm'\<rparr>, s')"
      using run by (auto simp: bounded_outcome_def forward_run_def actions_ok_def run_outcome_def taken(4-6))
    then show ?thesis using f(1) ev taken(1,4) by auto
  qed
qed

text \<open>
  \<^bold>\<open>C26\<close>: \<^verbatim>\<open>CJobStateMachine::FRun\<close> returns on every machine with a forward diagram, whatever its actions
  do to the rest of the state, after at most one action per state ahead of the current one.  It returns
  true only in the final state or after cleaning up because the search stage has timed out, and false
  only in a state before the final one, from which the job resumes.
\<close>

theorem FRun_returns:
  assumes "forward n none (m_rgrgtenumeventTransitions (m_sm jsm))" and "actions_ok n none jsm"
    and "m_tenumstate (m_sm jsm) < TesFinal n"
  shows "\<exists>b jsm' s'. FRun n fTimedOut cleanup jsm s = Some (b, jsm', s')
    \<and> run_outcome n fTimedOut cleanup (b, jsm', s')
    \<and> m_ulHistory (m_sm jsm') \<le> m_ulHistory (m_sm jsm) + (TesFinal n - m_tenumstate (m_sm jsm))"
proof -
  let ?bound = "m_ulHistory (m_sm jsm) + (TesFinal n - m_tenumstate (m_sm jsm))"
  have "\<exists>r. FRun n fTimedOut cleanup jsm s = Some r \<and> bounded_outcome n fTimedOut cleanup ?bound r"
  proof (rule FRun_rule [of "\<lambda>jsm s. forward_run n none ?bound jsm" _ _ _ _ _ _
        "\<lambda>jsm s. TesFinal n - m_tenumstate (m_sm jsm)"])
    show "forward_run n none ?bound jsm" using assms by (simp add: forward_run_def)
    show "bounded_outcome n fTimedOut cleanup ?bound (True, j, cleanup t)"
      if "forward_run n none ?bound j" "fTimedOut t" for j t
      using that by (auto simp: bounded_outcome_def run_outcome_def forward_run_def)
  qed (rule forward_run_round)
  then show ?thesis by (auto simp: bounded_outcome_def)
qed

text \<open>The machine of a group exploration job with actions that never have new children.\<close>

definition sample_exploration :: "(GEx_EEvent, nat) CJobStateMachine" where
  "sample_exploration =
    SetAction 1 (\<lambda>s. (GEx_eevExplored, s + 1)) (SetAction 0 (\<lambda>s. (GEx_eevStartedExploration, s + 1))
      (CJobStateMachine_Init GEx_estSentinel GEx_rgeev
        \<lparr>m_rgPfuncAction = [],
         m_sm = \<lparr>m_tenumstate = 0, m_fInit_sm = False, m_rgrgtenumeventTransitions = [], m_ulHistory = 0,
           m_tenumstateHistory = replicate GPOPT_FSM_HISTORY 0,
           m_tenumeventHistory = replicate GPOPT_FSM_HISTORY GEx_eevSentinel\<rparr>\<rparr>))"

lemmas machine_eval = CJobStateMachine_Init_def CJobStateMachine_Reset_def CStateMachine_Init_def
  CStateMachine_Reset_def SetAction_def TesInitial_def TesFinal_def

lemma sample_exploration_ready:
  "forward 3 GEx_eevSentinel (m_rgrgtenumeventTransitions (m_sm sample_exploration))"
  "actions_ok 3 GEx_eevSentinel sample_exploration"
  "m_tenumstate (m_sm sample_exploration) = 0" "m_ulHistory (m_sm sample_exploration) = 0"
  by (auto simp: sample_exploration_def machine_eval Let_def forward_def GEx_rgeev_def upt_rec
      actions_ok_def less_Suc_eq numeral_2_eq_2)

theorem FRun_returns_witness:
  "\<exists>b jsm' s'. FRun 3 (\<lambda>_. False) id sample_exploration 0 = Some (b, jsm', s')
    \<and> run_outcome 3 (\<lambda>_. False) id (b, jsm', s') \<and> m_ulHistory (m_sm jsm') \<le> 2"
  using FRun_returns [OF sample_exploration_ready(1,2), of "\<lambda>_. False" id 0]
  by (simp add: sample_exploration_ready TesFinal_def numeral_2_eq_2)

subsection \<open>The diagrams of the jobs\<close>

lemmas diagram_eval = diagram_wf_def forward_def GEx_rgeev_def GIm_rgeev_def GOpt_rgeev_def GEE_rgeev_def
  GEI_rgeev_def GEO_rgeev_def Xf_rgeev_def


subsection \<open>Unreachable states\<close>

text \<open>The states that no other state has an edge to.\<close>

definition no_predecessor :: "nat \<Rightarrow> 'e \<Rightarrow> 'e diagram \<Rightarrow> nat \<Rightarrow> bool" where
  "no_predecessor n none rgrg st \<longleftrightarrow> (\<forall>i<n. i \<noteq> st \<longrightarrow> rgrg ! i ! st = none)"

lemma fold_diff: "fold (\<lambda>x S. S - f x) xs S = S - (\<Union>x\<in>set xs. f x)"
  by (induction xs arbitrary: S) auto

lemma walk_source:
  "fold (Unreachable_walker source sink) (Transitions none rgrg source sink)
    = (\<lambda>S. S - (if source \<noteq> sink \<and> rgrg ! source ! sink \<noteq> none then {sink} else {}))"
  by (auto simp: Transitions_def Unreachable_walker_def fun_eq_iff)

lemma walk_unreachable:
  "Walk n none rgrg Unreachable_walker (set [0..<n]) = {st. st < n \<and> no_predecessor n none rgrg st}"
proof -
  have inner: "fold (\<lambda>source. fold (Unreachable_walker source sink) (Transitions none rgrg source sink)) [0..<n]
    = (\<lambda>S. S - (if no_predecessor n none rgrg sink then {} else {sink}))" for sink
    by (auto simp: walk_source fold_diff fun_eq_iff no_predecessor_def split: if_splits)
  show ?thesis by (auto simp: Walk_def inner fold_diff split: if_splits)
qed

lemma Unreachable_eq:
  "Unreachable n none sm =
    (let found = filter (no_predecessor n none (m_rgrgtenumeventTransitions sm)) [0..<n]
     in (found @ replicate (n - length found) n, length found))"
proof -
  have "filter (\<lambda>st. st \<in> {st. st < n \<and> no_predecessor n none r st}) [0..<n]
    = filter (no_predecessor n none r) [0..<n]" for r :: "'a diagram"
    by (rule filter_cong) auto
  then show ?thesis unfolding Unreachable_def walk_unreachable Let_def by simp
qed

text \<open>
  \<^bold>\<open>C30\<close>: \<^verbatim>\<open>CStateMachine::Unreachable\<close> reports exactly the states without an edge from another state, in
  ascending order.  The initial state has none in any of the seven jobs, so it is reported as
  unreachable and \<^verbatim>\<open>FReachable\<close> is false for all of them.
\<close>

theorem Unreachable_reports:
  "(\<forall>sm. Unreachable n none sm =
      (let found = filter (no_predecessor n none (m_rgrgtenumeventTransitions sm)) [0..<n]
       in (found @ replicate (n - length found) n, length found)))
    \<and> Unreachable 3 GEx_eevSentinel (CStateMachine_Init 3 GEx_rgeev a) = ([TesInitial, 3, 3], 1)
    \<and> Unreachable 3 GIm_eevSentinel (CStateMachine_Init 3 GIm_rgeev b) = ([TesInitial, 3, 3], 1)
    \<and> Unreachable 4 GOpt_eevSentinel (CStateMachine_Init 4 GOpt_rgeev c) = ([TesInitial, 4, 4, 4], 1)
    \<and> Unreachable 4 GEE_eevSentinel (CStateMachine_Init 4 GEE_rgeev d) = ([TesInitial, 4, 4, 4], 1)
    \<and> Unreachable 4 GEI_eevSentinel (CStateMachine_Init 4 GEI_rgeev e) = ([TesInitial, 4, 4, 4], 1)
    \<and> Unreachable 6 GEO_eevSentinel (CStateMachine_Init 6 GEO_rgeev f) = ([TesInitial, 6, 6, 6, 6, 6], 1)
    \<and> Unreachable 2 Xf_eevSentinel (CStateMachine_Init 2 Xf_rgeev g) = ([TesInitial, 2], 1)
    \<and> \<not> FReachable 3 GEx_eevSentinel (CStateMachine_Init 3 GEx_rgeev a)"
  by (intro conjI allI, rule Unreachable_eq)
    (simp_all add: Unreachable_eq FReachable_def no_predecessor_def diagram_eval
      machine_eval upt_rec numeral_eq_Suc All_less_Suc2)

subsection \<open>History\<close>

text \<open>The ring buffer holds the last records: record number \<open>i\<close> is at position \<open>i mod 25\<close>.\<close>

definition ring_holds :: "('e \<times> nat) list \<Rightarrow> 'e CStateMachine \<Rightarrow> bool" where
  "ring_holds xs sm \<longleftrightarrow>
    m_ulHistory sm = length xs \<and> length (m_tenumeventHistory sm) = GPOPT_FSM_HISTORY
    \<and> length (m_tenumstateHistory sm) = GPOPT_FSM_HISTORY
    \<and> (\<forall>i<length xs. length xs \<le> i + GPOPT_FSM_HISTORY \<longrightarrow>
         m_tenumeventHistory sm ! (i mod GPOPT_FSM_HISTORY) = fst (xs ! i)
         \<and> m_tenumstateHistory sm ! (i mod GPOPT_FSM_HISTORY) = snd (xs ! i))"

lemma mod_near:
  assumes "i < j" "j < i + m"
  shows "i mod m \<noteq> j mod (m::nat)"
proof
  assume "i mod m = j mod m"
  then have "m dvd j - i" using assms mod_eq_dvd_iff_nat [of i j m] by simp
  then show False using assms by (auto dest: dvd_imp_le)
qed

lemma ring_holds_record:
  assumes "ring_holds xs sm"
  shows "ring_holds (xs @ [(ev, st)]) (RecordHistory ev st sm)"
proof -
  have near: "length xs mod GPOPT_FSM_HISTORY \<noteq> i mod GPOPT_FSM_HISTORY"
    if "i < length xs" "length xs \<le> 24 + i" for i
    by (rule mod_near [symmetric]) (use that in auto)
  show ?thesis
    using assms by (auto simp: ring_holds_def RecordHistory_def Let_def nth_append nth_list_update less_Suc_eq near)
qed

lemma ring_holds_fold:
  assumes "m_ulHistory sm = 0" "length (m_tenumeventHistory sm) = GPOPT_FSM_HISTORY"
    "length (m_tenumstateHistory sm) = GPOPT_FSM_HISTORY"
  shows "ring_holds xs (fold (\<lambda>(ev, st). RecordHistory ev st) xs sm)"
proof (induction xs rule: rev_induct)
  case Nil
  then show ?case using assms by (simp add: ring_holds_def)
next
  case (snoc x xs)
  then show ?case using ring_holds_record [of xs _ "fst x" "snd x"] by (simp add: case_prod_beta)
qed

lemma OsHistory_ring:
  assumes "ring_holds xs sm"
  shows "OsHistory sm = (if length xs < GPOPT_FSM_HISTORY then xs
    else rotate1 (drop (length xs - GPOPT_FSM_HISTORY) xs))"
proof (rule nth_equalityI)
  show "length (OsHistory sm) = length (if length xs < GPOPT_FSM_HISTORY then xs
    else rotate1 (drop (length xs - GPOPT_FSM_HISTORY) xs))"
    using assms by (simp add: OsHistory_def ring_holds_def Let_def)
  fix k assume "k < length (OsHistory sm)"
  then have k: "k < min (length xs) GPOPT_FSM_HISTORY"
    using assms by (simp add: OsHistory_def ring_holds_def Let_def)
  let ?n = "length xs"
  have rec: "(m_tenumeventHistory sm ! (i mod GPOPT_FSM_HISTORY), m_tenumstateHistory sm ! (i mod GPOPT_FSM_HISTORY))
    = xs ! i" if "i < ?n" "?n \<le> i + GPOPT_FSM_HISTORY" for i
    using assms that by (simp add: ring_holds_def)
  show "OsHistory sm ! k = (if ?n < GPOPT_FSM_HISTORY then xs
    else rotate1 (drop (?n - GPOPT_FSM_HISTORY) xs)) ! k"
  proof (cases "?n < GPOPT_FSM_HISTORY")
    case True
    then show ?thesis using k assms rec [of k] by (simp add: OsHistory_def ring_holds_def Let_def)
  next
    case False
    let ?i = "?n - GPOPT_FSM_HISTORY + Suc k mod GPOPT_FSM_HISTORY"
    have "(?n + 1 + k) mod GPOPT_FSM_HISTORY = ?i mod GPOPT_FSM_HISTORY"
    proof -
      have "?n + 1 + k = (?n - GPOPT_FSM_HISTORY + Suc k) + GPOPT_FSM_HISTORY" using False by simp
      then have "(?n + 1 + k) mod GPOPT_FSM_HISTORY = (?n - GPOPT_FSM_HISTORY + Suc k) mod GPOPT_FSM_HISTORY"
        by (simp only: mod_add_self2)
      then show ?thesis by (simp only: mod_add_right_eq)
    qed
    moreover have "?i < ?n" "?n \<le> ?i + GPOPT_FSM_HISTORY" using False by (auto simp: trans_less_add2)
    ultimately have "OsHistory sm ! k = xs ! ?i"
      using rec [of ?i] k False assms by (simp add: OsHistory_def ring_holds_def Let_def)
    also have "\<dots> = rotate1 (drop (?n - GPOPT_FSM_HISTORY) xs) ! k"
      using k False by (simp add: nth_rotate1)
    finally show ?thesis using False by simp
  qed
qed

text \<open>
  \<^bold>\<open>C31\<close>: After any sequence of transitions \<^verbatim>\<open>OsHistory\<close> prints all records in order as long as there
  are fewer than 25; from 25 on it prints the last 25 records, but starts one position late in the ring
  buffer, so that the oldest of them comes last, after the newest.
\<close>

theorem OsHistory_order:
  assumes "m_ulHistory sm = 0" and "length (m_tenumeventHistory sm) = GPOPT_FSM_HISTORY"
    and "length (m_tenumstateHistory sm) = GPOPT_FSM_HISTORY"
  shows "OsHistory (fold (\<lambda>(ev, st). RecordHistory ev st) xs sm) =
    (if length xs < GPOPT_FSM_HISTORY then xs else rotate1 (drop (length xs - GPOPT_FSM_HISTORY) xs))"
  by (rule OsHistory_ring [OF ring_holds_fold [OF assms]])

theorem OsHistory_order_witness:
  "OsHistory (fold (\<lambda>(ev, st). RecordHistory ev st) (map (\<lambda>i. (GEx_eevNewChildren, i)) [0..<26])
      (m_sm sample_exploration)) = map (\<lambda>i. (GEx_eevNewChildren, i)) ([2..<26] @ [1])"
proof -
  let ?xs = "map (\<lambda>i. (GEx_eevNewChildren, i)) [0..<26]"
  have "OsHistory (fold (\<lambda>(ev, st). RecordHistory ev st) ?xs (m_sm sample_exploration)) =
    (if length ?xs < GPOPT_FSM_HISTORY then ?xs else rotate1 (drop (length ?xs - GPOPT_FSM_HISTORY) ?xs))"
    by (rule OsHistory_order) (simp_all add: sample_exploration_def machine_eval Let_def)
  then show ?thesis by (simp add: drop_map rotate1_map upt_rec)
qed

end
