(* ===== verification/IntrusiveList.thy ===== *)
theory IntrusiveList
  imports Prelude
begin

text \<open>
  The doubly linked lists of \<^verbatim>\<open>libgpos/include/gpos/common/CList.h\<close> and \<^verbatim>\<open>CSyncList.h\<close>.  The links are
  members of the elements, so the operations work on a store that gives each element its link, shared
  by all lists that use the same member.  The abstraction is the list of elements from head to tail; the
  job queue and the scheduler are modelled on that abstraction.
\<close>

subsection \<open>CList\<close>

record 'a SLink =
  m_prev :: "'a option"
  m_next :: "'a option"

record 'a CList =
  m_size :: nat
  m_head :: "'a option"
  m_tail :: "'a option"

type_synonym 'a link_store = "'a \<Rightarrow> 'a SLink"

definition set_prev :: "'a \<Rightarrow> 'a option \<Rightarrow> 'a link_store \<Rightarrow> 'a link_store" where
  "set_prev x p h = h(x := (h x)\<lparr>m_prev := p\<rparr>)"

definition set_next :: "'a \<Rightarrow> 'a option \<Rightarrow> 'a link_store \<Rightarrow> 'a link_store" where
  "set_next x n h = h(x := (h x)\<lparr>m_next := n\<rparr>)"

definition CList_new :: "'a CList" where
  "CList_new = \<lparr>m_size = 0, m_head = None, m_tail = None\<rparr>"

definition Prepend_at :: "'a \<Rightarrow> 'a \<Rightarrow> 'a CList \<times> 'a link_store \<Rightarrow> 'a CList \<times> 'a link_store" where
  "Prepend_at elem next_elem = (\<lambda>(l, h).
    let prev = m_prev (h next_elem);
        h = set_prev elem prev (set_next elem (Some next_elem) h);
        h = set_prev next_elem (Some elem) h;
        (l, h) = (case prev of
            Some pv \<Rightarrow> (l, set_next pv (Some elem) h)
          | None \<Rightarrow> (l\<lparr>m_head := Some elem\<rparr>, h))
    in (l\<lparr>m_size := m_size l + 1\<rparr>, h))"

definition Append_at :: "'a \<Rightarrow> 'a \<Rightarrow> 'a CList \<times> 'a link_store \<Rightarrow> 'a CList \<times> 'a link_store" where
  "Append_at elem prev_elem = (\<lambda>(l, h).
    let nxt = m_next (h prev_elem);
        h = set_next elem nxt (set_prev elem (Some prev_elem) h);
        h = set_next prev_elem (Some elem) h;
        (l, h) = (case nxt of
            Some nx \<Rightarrow> (l, set_prev nx (Some elem) h)
          | None \<Rightarrow> (l\<lparr>m_tail := Some elem\<rparr>, h))
    in (l\<lparr>m_size := m_size l + 1\<rparr>, h))"

definition Prepend :: "'a \<Rightarrow> 'a CList \<times> 'a link_store \<Rightarrow> 'a CList \<times> 'a link_store" where
  "Prepend elem = (\<lambda>(l, h).
    case m_head l of
      None \<Rightarrow> (l\<lparr>m_head := Some elem, m_tail := Some elem, m_size := m_size l + 1\<rparr>,
               set_prev elem None (set_next elem None h))
    | Some head \<Rightarrow> Prepend_at elem head (l, h))"

definition Append :: "'a \<Rightarrow> 'a CList \<times> 'a link_store \<Rightarrow> 'a CList \<times> 'a link_store" where
  "Append elem = (\<lambda>(l, h).
    case m_tail l of
      None \<Rightarrow> Prepend elem (l, h)
    | Some tail \<Rightarrow> Append_at elem tail (l, h))"

definition Remove :: "'a \<Rightarrow> 'a CList \<times> 'a link_store \<Rightarrow> 'a CList \<times> 'a link_store" where
  "Remove elem = (\<lambda>(l, h).
    let (l, h) = (case m_next (h elem) of
            Some nx \<Rightarrow> (l, set_prev nx (m_prev (h elem)) h)
          | None \<Rightarrow> (l\<lparr>m_tail := m_prev (h elem)\<rparr>, h));
        (l, h) = (case m_prev (h elem) of
            Some pv \<Rightarrow> (l, set_next pv (m_next (h elem)) h)
          | None \<Rightarrow> (l\<lparr>m_head := m_next (h elem)\<rparr>, h));
        h = set_next elem None (set_prev elem None h)
    in (l\<lparr>m_size := m_size l - 1\<rparr>, h))"

definition RemoveHead :: "'a CList \<times> 'a link_store \<Rightarrow> 'a \<times> 'a CList \<times> 'a link_store" where
  "RemoveHead lh = (let head = the (m_head (fst lh)) in (head, Remove head lh))"

definition RemoveTail :: "'a CList \<times> 'a link_store \<Rightarrow> 'a \<times> 'a CList \<times> 'a link_store" where
  "RemoveTail lh = (let tail = the (m_tail (fst lh)) in (tail, Remove tail lh))"

definition First :: "'a CList \<Rightarrow> 'a option" where
  "First l = m_head l"

definition Last :: "'a CList \<Rightarrow> 'a option" where
  "Last l = m_tail l"

definition Next :: "'a link_store \<Rightarrow> 'a \<Rightarrow> 'a option" where
  "Next h pt = m_next (h pt)"

definition Prev :: "'a link_store \<Rightarrow> 'a \<Rightarrow> 'a option" where
  "Prev h pt = m_prev (h pt)"

definition CList_Size :: "'a CList \<Rightarrow> nat" where
  "CList_Size l = m_size l"

definition IsEmpty :: "'a CList \<Rightarrow> bool" where
  "IsEmpty l \<longleftrightarrow> First l = None"

text \<open>The loop of \<^verbatim>\<open>Find\<close> follows the links; \<open>None\<close> is a loop that does not end.\<close>

partial_function (option) Find_from :: "'a link_store \<Rightarrow> 'a \<Rightarrow> 'a option \<Rightarrow> bool option" where
  "Find_from h elem t =
    (case t of
       None \<Rightarrow> Some False
     | Some x \<Rightarrow> if elem = x then Some True else Find_from h elem (Next h x))"

definition Find :: "'a \<Rightarrow> 'a CList \<times> 'a link_store \<Rightarrow> bool option" where
  "Find elem = (\<lambda>(l, h). Find_from h elem (First l))"

subsection \<open>CSyncList\<close>

definition Push :: "'a \<Rightarrow> 'a CList \<times> 'a link_store \<Rightarrow> 'a CList \<times> 'a link_store" where
  "Push elem lh = Prepend elem lh"

definition Pop :: "'a CList \<times> 'a link_store \<Rightarrow> 'a option \<times> 'a CList \<times> 'a link_store" where
  "Pop lh = (if \<not> IsEmpty (fst lh) then case RemoveHead lh of (x, lh') \<Rightarrow> (Some x, lh') else (None, lh))"

subsection \<open>Abstraction\<close>

definition first_or :: "'a list \<Rightarrow> 'a option \<Rightarrow> 'a option" where
  "first_or xs n = (case xs of [] \<Rightarrow> n | y # _ \<Rightarrow> Some y)"

definition last_or :: "'a list \<Rightarrow> 'a option \<Rightarrow> 'a option" where
  "last_or xs p = (if xs = [] then p else Some (last xs))"

text \<open>The links of \<open>xs\<close> form a chain between the neighbours \<open>p\<close> and \<open>n\<close>.\<close>

fun chain_links :: "'a link_store \<Rightarrow> 'a option \<Rightarrow> 'a list \<Rightarrow> 'a option \<Rightarrow> bool" where
  "chain_links h p [] n \<longleftrightarrow> True"
| "chain_links h p (x # xs) n \<longleftrightarrow> m_prev (h x) = p \<and> m_next (h x) = first_or xs n \<and> chain_links h (Some x) xs n"

definition is_list :: "'a CList \<times> 'a link_store \<Rightarrow> 'a list \<Rightarrow> bool" where
  "is_list = (\<lambda>(l, h) xs. distinct xs \<and> m_size l = length xs \<and> m_head l = first_or xs None \<and> m_tail l = last_or xs None
    \<and> chain_links h None xs None)"

lemma first_or_simps [simp]: "first_or [] n = n" "first_or (x # xs) n = Some x"
  "first_or (xs @ ys) n = first_or xs (first_or ys n)"
  by (auto simp: first_or_def split: list.splits)

lemma last_or_simps [simp]: "last_or [] p = p" "last_or (xs @ [x]) p = Some x" "last_or (x # xs) p = last_or xs (Some x)"
  "last_or (xs @ ys) p = last_or ys (last_or xs p)"
  by (auto simp: last_or_def)

lemma chain_links_append [simp]:
  "chain_links h p (xs @ ys) n \<longleftrightarrow> chain_links h p xs (first_or ys n) \<and> chain_links h (last_or xs p) ys n"
  by (induction xs arbitrary: p) auto

subsection \<open>Operations\<close>

text \<open>
  Every operation touches only the links of the element and of its neighbours in the list; \<open>frame A\<close>
  says that the links of all elements outside \<open>A\<close> are kept.
\<close>

definition frame_links :: "'a set \<Rightarrow> 'a link_store \<Rightarrow> 'a link_store \<Rightarrow> bool" where
  "frame_links A h h' \<longleftrightarrow> (\<forall>x. x \<notin> A \<longrightarrow> h' x = h x)"

lemma set_link_simps [simp]:
  "m_prev (set_prev x p h y) = (if y = x then p else m_prev (h y))" "m_next (set_prev x p h y) = m_next (h y)"
  "m_next (set_next x n h y) = (if y = x then n else m_next (h y))" "m_prev (set_next x n h y) = m_prev (h y)"
  by (auto simp: set_prev_def set_next_def)

lemma set_link_other: "y \<noteq> x \<Longrightarrow> set_prev x p h y = h y" "y \<noteq> x \<Longrightarrow> set_next x p h y = h y"
  by (auto simp: set_prev_def set_next_def)

lemma chain_links_set_prev [simp]: "x \<notin> set xs \<Longrightarrow> chain_links (set_prev x q h) p xs n = chain_links h p xs n"
  by (induction xs arbitrary: p) auto

lemma chain_links_set_next [simp]: "x \<notin> set xs \<Longrightarrow> chain_links (set_next x q h) p xs n = chain_links h p xs n"
  by (induction xs arbitrary: p) auto

lemma Prepend_at_list:
  assumes "is_list (l, h) (as @ y # bs)" and "e \<notin> set (as @ y # bs)" and "Prepend_at e y (l, h) = (l', h')"
  shows "is_list (l', h') (as @ e # y # bs)" and "frame_links (insert e (set (as @ y # bs))) h h'"
proof -
  have "is_list (l', h') (as @ e # y # bs) \<and> frame_links (insert e (set (as @ y # bs))) h h'"
  proof (cases as rule: rev_cases)
    case Nil
    then show ?thesis using assms
      by (auto simp: is_list_def Prepend_at_def Let_def frame_links_def set_link_other)
  next
    case (snoc cs z)
    then show ?thesis using assms
      by (auto simp: is_list_def Prepend_at_def Let_def frame_links_def set_link_other)
  qed
  then show "is_list (l', h') (as @ e # y # bs)" and "frame_links (insert e (set (as @ y # bs))) h h'" by auto
qed

lemma Append_at_list:
  assumes "is_list (l, h) (as @ y # bs)" and "e \<notin> set (as @ y # bs)" and "Append_at e y (l, h) = (l', h')"
  shows "is_list (l', h') (as @ y # e # bs)" and "frame_links (insert e (set (as @ y # bs))) h h'"
proof -
  have "is_list (l', h') (as @ y # e # bs) \<and> frame_links (insert e (set (as @ y # bs))) h h'"
    using assms
    by (cases bs) (auto simp: is_list_def Append_at_def Let_def frame_links_def set_link_other)
  then show "is_list (l', h') (as @ y # e # bs)" and "frame_links (insert e (set (as @ y # bs))) h h'" by auto
qed

lemma Remove_list:
  assumes "is_list (l, h) (as @ e # bs)" and "Remove e (l, h) = (l', h')"
  shows "is_list (l', h') (as @ bs)" and "frame_links (set (as @ e # bs)) h h'"
    and "m_prev (h' e) = None" and "m_next (h' e) = None"
proof -
  have "is_list (l', h') (as @ bs) \<and> frame_links (set (as @ e # bs)) h h' \<and> m_prev (h' e) = None \<and> m_next (h' e) = None"
  proof (cases as rule: rev_cases)
    case Nil
    then show ?thesis using assms
      by (cases bs) (auto simp: is_list_def Remove_def Let_def frame_links_def set_link_other)
  next
    case (snoc cs z)
    then show ?thesis using assms
      by (cases bs) (auto simp: is_list_def Remove_def Let_def frame_links_def set_link_other)
  qed
  then show "is_list (l', h') (as @ bs)" and "frame_links (set (as @ e # bs)) h h'"
    and "m_prev (h' e) = None" and "m_next (h' e) = None" by auto
qed

lemma is_list_empty: "is_list (l, h) [] \<Longrightarrow> m_head l = None \<and> m_tail l = None \<and> m_size l = 0"
  by (simp add: is_list_def)

lemma Prepend_list:
  assumes "is_list (l, h) xs" and "e \<notin> set xs" and "Prepend e (l, h) = (l', h')"
  shows "is_list (l', h') (e # xs) \<and> frame_links (insert e (set xs)) h h'"
proof (cases xs)
  case Nil
  then show ?thesis using assms by (auto simp: is_list_def Prepend_def frame_links_def set_link_other)
next
  case (Cons y ys)
  have "m_head l = Some y" using assms(1) Cons by (simp add: is_list_def)
  then have "Prepend_at e y (l, h) = (l', h')" using assms(3) by (simp add: Prepend_def)
  then show ?thesis using Prepend_at_list [of l h "[]" y ys e l' h'] assms(1,2) Cons by simp
qed

lemma Append_list:
  assumes "is_list (l, h) xs" and "e \<notin> set xs" and "Append e (l, h) = (l', h')"
  shows "is_list (l', h') (xs @ [e]) \<and> frame_links (insert e (set xs)) h h'"
proof (cases xs rule: rev_cases)
  case Nil
  then have "Prepend e (l, h) = (l', h')" using assms(1,3) by (simp add: Append_def is_list_def)
  then show ?thesis using Prepend_list [OF assms(1,2)] Nil by simp
next
  case (snoc ys y)
  have "m_tail l = Some y" using assms(1) snoc by (simp add: is_list_def)
  then have "Append_at e y (l, h) = (l', h')" using assms(3) by (simp add: Append_def)
  then show ?thesis using Append_at_list [of l h ys y "[]" e l' h'] assms(1,2) snoc by simp
qed

lemma Remove_member:
  assumes "is_list (l, h) xs" and "e \<in> set xs" and "Remove e (l, h) = (l', h')"
  shows "is_list (l', h') (remove1 e xs) \<and> frame_links (set xs) h h'"
proof -
  obtain as bs where xs: "xs = as @ e # bs" "e \<notin> set as" using split_list_first [OF assms(2)] by blast
  then show ?thesis using Remove_list [of l h as e bs l' h'] assms by (simp add: remove1_append)
qed

lemma Find_from_list:
  "chain_links h p xs None \<Longrightarrow> Find_from h e (first_or xs None) = Some (e \<in> set xs)"
proof (induction xs arbitrary: p)
  case Nil
  then show ?case by (subst Find_from.simps) simp
next
  case (Cons x xs)
  then show ?case by (subst Find_from.simps) (auto simp: Next_def)
qed

lemma chain_links_nth:
  assumes "chain_links h p xs n" and "i < length xs"
  shows "m_next (h (xs ! i)) = (if Suc i < length xs then Some (xs ! Suc i) else n)"
    and "m_prev (h (xs ! i)) = (if i = 0 then p else Some (xs ! (i - 1)))"
proof -
  have split: "xs = take i xs @ xs ! i # drop (Suc i) xs" using assms(2) by (rule id_take_nth_drop)
  have "chain_links h p (take i xs @ xs ! i # drop (Suc i) xs) n" using assms(1) split by simp
  then have at: "m_next (h (xs ! i)) = first_or (drop (Suc i) xs) n" "m_prev (h (xs ! i)) = last_or (take i xs) p"
    by simp_all
  show "m_next (h (xs ! i)) = (if Suc i < length xs then Some (xs ! Suc i) else n)"
    using assms(2) by (auto simp: at(1) first_or_def Cons_nth_drop_Suc [symmetric])
  show "m_prev (h (xs ! i)) = (if i = 0 then p else Some (xs ! (i - 1)))"
    using assms(2) at(2) by (cases i) (auto simp: last_or_def take_Suc_conv_app_nth)
qed

lemma chain_links_frame:
  "frame_links A h h' \<Longrightarrow> set xs \<inter> A = {} \<Longrightarrow> chain_links h p xs n \<Longrightarrow> chain_links h' p xs n"
  by (induction xs arbitrary: p) (auto simp: frame_links_def)

lemma is_list_frame: "is_list (l, h) xs \<Longrightarrow> frame_links A h h' \<Longrightarrow> set xs \<inter> A = {} \<Longrightarrow> is_list (l, h') xs"
  using chain_links_frame [of A h h' xs None None] by (auto simp: is_list_def)

lemma Pop_list:
  assumes "is_list (l, h) xs"
  shows "case xs of [] \<Rightarrow> Pop (l, h) = (None, (l, h))
    | x # ys \<Rightarrow> fst (Pop (l, h)) = Some x \<and> is_list (snd (Pop (l, h))) ys"
proof (cases xs)
  case Nil
  then show ?thesis using assms by (simp add: Pop_def IsEmpty_def First_def is_list_def)
next
  case (Cons x ys)
  have "m_head l = Some x" using assms Cons by (simp add: is_list_def)
  moreover obtain l' h' where r: "Remove x (l, h) = (l', h')" by force
  moreover have "is_list (l', h') ys" using Remove_member [OF assms _ r] Cons by simp
  ultimately show ?thesis using Cons by (simp add: Pop_def IsEmpty_def First_def RemoveHead_def)
qed

text \<open>
  \<^bold>\<open>C28\<close>: The operations of the intrusive lists implement operations on sequences.  A new element can be
  put at either end, a member can be taken out at any place, the ends, the neighbours, the size and the
  search agree with the sequence, and \<^verbatim>\<open>Pop\<close> takes the element that was pushed last.  Another list over
  the same links without common members is not disturbed.
\<close>

theorem list_operations_refine:
  assumes "is_list (l, h) xs"
  shows "(\<forall>e. e \<notin> set xs \<longrightarrow> is_list (Prepend e (l, h)) (e # xs) \<and> is_list (Append e (l, h)) (xs @ [e])
      \<and> is_list (Push e (l, h)) (e # xs))
    \<and> (\<forall>e\<in>set xs. is_list (Remove e (l, h)) (remove1 e xs))
    \<and> (case xs of [] \<Rightarrow> Pop (l, h) = (None, (l, h)) | x # ys \<Rightarrow> fst (Pop (l, h)) = Some x \<and> is_list (snd (Pop (l, h))) ys)
    \<and> First l = first_or xs None \<and> Last l = last_or xs None \<and> CList_Size l = length xs
    \<and> (\<forall>i<length xs. Next h (xs ! i) = (if Suc i < length xs then Some (xs ! Suc i) else None)
         \<and> Prev h (xs ! i) = (if i = 0 then None else Some (xs ! (i - 1))))
    \<and> (\<forall>e. Find e (l, h) = Some (e \<in> set xs))
    \<and> (\<forall>l2 ys. is_list (l2, h) ys \<and> set ys \<inter> set xs = {} \<longrightarrow>
         (\<forall>e\<in>set xs. is_list (l2, snd (Remove e (l, h))) ys)
         \<and> (\<forall>e. e \<notin> set xs \<union> set ys \<longrightarrow> is_list (l2, snd (Append e (l, h))) ys))"
proof (intro conjI allI ballI impI)
  fix e
  show "is_list (Prepend e (l, h)) (e # xs)" "is_list (Push e (l, h)) (e # xs)" if "e \<notin> set xs"
    using Prepend_list [OF assms that] by (cases "Prepend e (l, h)"; simp add: Push_def)+
  show "is_list (Append e (l, h)) (xs @ [e])" if "e \<notin> set xs"
    using Append_list [OF assms that] by (cases "Append e (l, h)") simp
  show "is_list (Remove e (l, h)) (remove1 e xs)" if "e \<in> set xs"
    using Remove_member [OF assms that] by (cases "Remove e (l, h)") simp
  show "Find e (l, h) = Some (e \<in> set xs)"
    using assms Find_from_list [of h None xs e] by (simp add: Find_def First_def is_list_def)
next
  show "First l = first_or xs None" "Last l = last_or xs None" "CList_Size l = length xs"
    using assms by (simp_all add: First_def Last_def CList_Size_def is_list_def)
next
  fix i assume i: "i < length xs"
  have c: "chain_links h None xs None" using assms by (simp add: is_list_def)
  show "Next h (xs ! i) = (if Suc i < length xs then Some (xs ! Suc i) else None)"
    and "Prev h (xs ! i) = (if i = 0 then None else Some (xs ! (i - 1)))"
    using chain_links_nth [OF c i] by (simp_all add: Next_def Prev_def)
next
  fix l2 ys e assume two: "is_list (l2, h) ys \<and> set ys \<inter> set xs = {}"
  show "is_list (l2, snd (Remove e (l, h))) ys" if "e \<in> set xs"
    using two Remove_member [OF assms that] by (cases "Remove e (l, h)") (auto intro: is_list_frame [of l2 h])
  show "is_list (l2, snd (Append e (l, h))) ys" if "e \<notin> set xs \<union> set ys"
    using two that Append_list [OF assms, of e] by (cases "Append e (l, h)") (auto intro: is_list_frame [of l2 h])
qed (rule Pop_list [OF assms])

theorem list_operations_refine_witness:
  "Find (5::nat) (Append 7 (Append 5 (CList_new, \<lambda>_. \<lparr>m_prev = None, m_next = None\<rparr>))) = Some True
    \<and> is_list (Remove 5 (Append 7 (Append (5::nat) (CList_new, \<lambda>_. \<lparr>m_prev = None, m_next = None\<rparr>)))) [7]"
proof -
  let ?h = "\<lambda>_::nat. \<lparr>m_prev = None, m_next = None\<rparr> :: nat SLink"
  obtain l1 h1 where a: "Append 5 (CList_new, ?h) = (l1, h1)" by force
  obtain l2 h2 where b: "Append 7 (l1, h1) = (l2, h2)" by force
  have "is_list (CList_new, ?h) []" by (simp add: is_list_def CList_new_def)
  then have "is_list (l1, h1) [5]" using Append_list [of CList_new ?h "[]" 5] a by auto
  then have "is_list (l2, h2) [5, 7]" using Append_list [of l1 h1 "[5]" 7] b by auto
  then show ?thesis using list_operations_refine [of l2 h2 "[5, 7]"] by (simp add: a b)
qed

end
