(* ===== verification/SyncPool.thy ===== *)
theory SyncPool
  imports Prelude
begin

text \<open>
  The pool of preallocated objects \<^verbatim>\<open>libgpos/include/gpos/common/CSyncPool.h\<close>, from which jobs and job
  links are taken: two bitmaps tell which objects are reserved and which of the reserved ones have been
  recycled, and a clock index rotates over the objects.  When all objects are in use an object is
  allocated on the heap.  The bitmaps are words of 32 bits, the clock index is a word of 64 bits that
  wraps around.
\<close>

subsection \<open>The pool\<close>

text \<open>
  An object is a slot of the array or an object allocated outside of it.  The allocator is modelled by
  the number of objects allocated so far, so that each allocation gives an object of its own.
\<close>

datatype pool_obj = Slot nat | Heap nat

abbreviation (input) BITS_PER_ULONG :: nat where
  "BITS_PER_ULONG \<equiv> 32"

record CSyncPool =
  m_objs_reserved :: "32 word list"
  m_objs_recycled :: "32 word list"
  m_numobjs :: nat
  m_bitmap_size :: nat
  m_last_lookup_idx :: "64 word"
  m_allocated :: nat

definition CSyncPool_Init :: "nat \<Rightarrow> CSyncPool" where
  "CSyncPool_Init numobjs =
    (let bitmap_size = numobjs div BITS_PER_ULONG + 1
     in \<lparr>m_objs_reserved = replicate bitmap_size 0, m_objs_recycled = replicate bitmap_size 0,
         m_numobjs = numobjs, m_bitmap_size = bitmap_size, m_last_lookup_idx = 0, m_allocated = 0\<rparr>)"

text \<open>
  The retry loops of \<^verbatim>\<open>SetBit\<close> and \<^verbatim>\<open>UnsetBit\<close> compare the word with the value just read from it; without
  another writer the comparison succeeds at once.
\<close>

definition SetBit_pool :: "32 word list \<Rightarrow> nat \<Rightarrow> 32 word \<Rightarrow> bool \<times> 32 word list" where
  "SetBit_pool bm elem_offset bit_val =
    (let old_val = bm ! elem_offset
     in if 0 = (bit_val AND old_val) then (True, bm[elem_offset := bit_val OR old_val]) else (False, bm))"

definition UnsetBit_pool :: "32 word list \<Rightarrow> nat \<Rightarrow> 32 word \<Rightarrow> bool \<times> 32 word list" where
  "UnsetBit_pool bm elem_offset bit_val =
    (let old_val = bm ! elem_offset
     in if bit_val = (bit_val AND old_val) then (True, bm[elem_offset := bit_val XOR old_val]) else (False, bm))"

definition bit_val_of :: "nat \<Rightarrow> 32 word" where
  "bit_val_of i = push_bit (i mod BITS_PER_ULONG) 1"

fun retrieve_rounds :: "nat \<Rightarrow> CSyncPool \<Rightarrow> pool_obj option \<times> CSyncPool" where
  "retrieve_rounds 0 p = (None, p)"
| "retrieve_rounds (Suc k) p =
    (let index = unat (m_last_lookup_idx p) mod m_numobjs p;
         p = p\<lparr>m_last_lookup_idx := m_last_lookup_idx p + 1\<rparr>;
         elem_offset = index div BITS_PER_ULONG;
         bit_val = bit_val_of index
     in case SetBit_pool (m_objs_reserved p) elem_offset bit_val of
          (True, bm) \<Rightarrow> (Some (Slot index), p\<lparr>m_objs_reserved := bm\<rparr>)
        | (False, bm) \<Rightarrow>
            if bit_val = (bit_val AND m_objs_recycled p ! elem_offset) then
              (case UnsetBit_pool (m_objs_recycled p) elem_offset bit_val of
                 (True, bm') \<Rightarrow> retrieve_rounds k (p\<lparr>m_objs_recycled := bm',
                   m_objs_reserved := snd (UnsetBit_pool (m_objs_reserved p) elem_offset bit_val)\<rparr>)
               | (False, _) \<Rightarrow> retrieve_rounds k p)
            else retrieve_rounds k p)"

text \<open>The bound of the loop, \<^verbatim>\<open>2 * m_numobjs\<close>, is a product of \<^verbatim>\<open>ULONG\<close> values.\<close>

definition PtRetrieve :: "CSyncPool \<Rightarrow> pool_obj \<times> CSyncPool" where
  "PtRetrieve p =
    (case retrieve_rounds (2 * m_numobjs p mod ulong_modulus) p of
       (Some obj, p') \<Rightarrow> (obj, p')
     | (None, p') \<Rightarrow> (Heap (m_allocated p'), p'\<lparr>m_allocated := m_allocated p' + 1\<rparr>))"

definition Recycle :: "pool_obj \<Rightarrow> CSyncPool \<Rightarrow> CSyncPool" where
  "Recycle obj p =
    (case obj of
       Heap _ \<Rightarrow> p
     | Slot offset \<Rightarrow> p\<lparr>m_objs_recycled :=
         snd (SetBit_pool (m_objs_recycled p) (offset div BITS_PER_ULONG) (bit_val_of offset))\<rparr>)"

subsection \<open>Bitmaps\<close>

definition bm_bit :: "32 word list \<Rightarrow> nat \<Rightarrow> bool" where
  "bm_bit bm i \<longleftrightarrow> bit (bm ! (i div BITS_PER_ULONG)) (i mod BITS_PER_ULONG)"

lemma bit_bit_val_of: "bit (bit_val_of i) k \<longleftrightarrow> k = i mod BITS_PER_ULONG"
  by (auto simp: bit_val_of_def bit_simps)

lemma bit_val_and_zero: "0 = (bit_val_of i AND w) \<longleftrightarrow> \<not> bit w (i mod BITS_PER_ULONG)"
proof
  assume "0 = (bit_val_of i AND w)"
  then have "\<not> bit (bit_val_of i AND w) (i mod BITS_PER_ULONG)" by (metis bit_0_eq bot_apply bot_bool_def)
  then show "\<not> bit w (i mod BITS_PER_ULONG)" by (simp add: bit_and_iff bit_bit_val_of)
next
  assume "\<not> bit w (i mod BITS_PER_ULONG)"
  then show "0 = (bit_val_of i AND w)" by (intro bit_eqI) (auto simp: bit_and_iff bit_bit_val_of)
qed

lemma bit_val_and_self: "bit_val_of i = (bit_val_of i AND w) \<longleftrightarrow> bit w (i mod BITS_PER_ULONG)"
proof
  assume "bit_val_of i = (bit_val_of i AND w)"
  then have "bit (bit_val_of i AND w) (i mod BITS_PER_ULONG)" by (metis bit_bit_val_of)
  then show "bit w (i mod BITS_PER_ULONG)" by (simp add: bit_and_iff)
next
  assume "bit w (i mod BITS_PER_ULONG)"
  then show "bit_val_of i = (bit_val_of i AND w)" by (intro bit_eqI) (auto simp: bit_and_iff bit_bit_val_of)
qed

lemma same_word: "j div 32 = i div 32 \<Longrightarrow> j mod 32 = i mod 32 \<longleftrightarrow> j = (i::nat)"
  by (metis div_mult_mod_eq)

lemma bm_bit_update:
  "i div BITS_PER_ULONG < length bm \<Longrightarrow>
   bm_bit (bm[i div BITS_PER_ULONG := w]) j =
     (if j div BITS_PER_ULONG = i div BITS_PER_ULONG then bit w (j mod BITS_PER_ULONG) else bm_bit bm j)"
  by (simp add: bm_bit_def nth_list_update)

lemma SetBit_pool_bit:
  assumes "i div BITS_PER_ULONG < length bm"
  shows "fst (SetBit_pool bm (i div BITS_PER_ULONG) (bit_val_of i)) \<longleftrightarrow> \<not> bm_bit bm i"
    and "bm_bit (snd (SetBit_pool bm (i div BITS_PER_ULONG) (bit_val_of i))) j \<longleftrightarrow> j = i \<or> bm_bit bm j"
    and "length (snd (SetBit_pool bm (i div BITS_PER_ULONG) (bit_val_of i))) = length bm"
proof -
  show "fst (SetBit_pool bm (i div BITS_PER_ULONG) (bit_val_of i)) \<longleftrightarrow> \<not> bm_bit bm i"
    by (simp add: SetBit_pool_def Let_def bit_val_and_zero bm_bit_def)
  show "length (snd (SetBit_pool bm (i div BITS_PER_ULONG) (bit_val_of i))) = length bm"
    by (simp add: SetBit_pool_def Let_def)
  show "bm_bit (snd (SetBit_pool bm (i div BITS_PER_ULONG) (bit_val_of i))) j \<longleftrightarrow> j = i \<or> bm_bit bm j"
  proof (cases "j div BITS_PER_ULONG = i div BITS_PER_ULONG")
    case True
    then show ?thesis using assms same_word [OF True]
      by (auto simp: SetBit_pool_def Let_def bit_val_and_zero bm_bit_update bit_or_iff bit_bit_val_of)
        (auto simp: bm_bit_def)
  next
    case False
    then show ?thesis using assms by (auto simp: SetBit_pool_def Let_def bm_bit_update)
  qed
qed

lemma UnsetBit_pool_bit:
  assumes "i div BITS_PER_ULONG < length bm"
  shows "fst (UnsetBit_pool bm (i div BITS_PER_ULONG) (bit_val_of i)) \<longleftrightarrow> bm_bit bm i"
    and "bm_bit (snd (UnsetBit_pool bm (i div BITS_PER_ULONG) (bit_val_of i))) j \<longleftrightarrow> j \<noteq> i \<and> bm_bit bm j"
    and "length (snd (UnsetBit_pool bm (i div BITS_PER_ULONG) (bit_val_of i))) = length bm"
proof -
  show "fst (UnsetBit_pool bm (i div BITS_PER_ULONG) (bit_val_of i)) \<longleftrightarrow> bm_bit bm i"
    by (simp add: UnsetBit_pool_def Let_def bit_val_and_self bm_bit_def)
  show "length (snd (UnsetBit_pool bm (i div BITS_PER_ULONG) (bit_val_of i))) = length bm"
    by (simp add: UnsetBit_pool_def Let_def)
  show "bm_bit (snd (UnsetBit_pool bm (i div BITS_PER_ULONG) (bit_val_of i))) j \<longleftrightarrow> j \<noteq> i \<and> bm_bit bm j"
  proof (cases "j div BITS_PER_ULONG = i div BITS_PER_ULONG")
    case True
    then show ?thesis using assms same_word [OF True]
      by (auto simp: UnsetBit_pool_def Let_def bit_val_and_self bm_bit_update bit_xor_iff bit_bit_val_of)
        (auto simp: bm_bit_def)
  next
    case False
    then show ?thesis using assms by (auto simp: UnsetBit_pool_def Let_def bm_bit_update)
  qed
qed

subsection \<open>Invariant and abstraction\<close>

definition pool_inv :: "CSyncPool \<Rightarrow> bool" where
  "pool_inv p \<longleftrightarrow> m_bitmap_size p = m_numobjs p div BITS_PER_ULONG + 1
    \<and> length (m_objs_reserved p) = m_bitmap_size p \<and> length (m_objs_recycled p) = m_bitmap_size p
    \<and> (\<forall>i<m_numobjs p. bm_bit (m_objs_recycled p) i \<longrightarrow> bm_bit (m_objs_reserved p) i)"

definition slots_in_use :: "CSyncPool \<Rightarrow> nat set" where
  "slots_in_use p = {i. i < m_numobjs p \<and> bm_bit (m_objs_reserved p) i \<and> \<not> bm_bit (m_objs_recycled p) i}"

definition recyclable :: "CSyncPool \<Rightarrow> nat set" where
  "recyclable p = {i. i < m_numobjs p \<and> bm_bit (m_objs_reserved p) i \<and> bm_bit (m_objs_recycled p) i}"

definition clock :: "CSyncPool \<Rightarrow> nat" where
  "clock p = unat (m_last_lookup_idx p) mod m_numobjs p"

lemmas pool_defs = pool_inv_def slots_in_use_def recyclable_def

lemma word_in_bitmap: "pool_inv p \<Longrightarrow> i < m_numobjs p \<Longrightarrow> i div BITS_PER_ULONG < m_bitmap_size p"
  by (simp add: pool_inv_def div_le_mono less_Suc_eq_le)

text \<open>The three outcomes of a round: the object is free, it has been recycled, or it is in use.\<close>

abbreviation tick :: "CSyncPool \<Rightarrow> CSyncPool" where
  "tick p \<equiv> p\<lparr>m_last_lookup_idx := m_last_lookup_idx p + 1\<rparr>"

definition reserve_slot :: "nat \<Rightarrow> CSyncPool \<Rightarrow> CSyncPool" where
  "reserve_slot i p = p\<lparr>m_objs_reserved :=
    snd (SetBit_pool (m_objs_reserved p) (i div BITS_PER_ULONG) (bit_val_of i))\<rparr>"

definition free_slot :: "nat \<Rightarrow> CSyncPool \<Rightarrow> CSyncPool" where
  "free_slot i p = p
    \<lparr>m_objs_recycled := snd (UnsetBit_pool (m_objs_recycled p) (i div BITS_PER_ULONG) (bit_val_of i)),
     m_objs_reserved := snd (UnsetBit_pool (m_objs_reserved p) (i div BITS_PER_ULONG) (bit_val_of i))\<rparr>"

lemma retrieve_round:
  assumes "pool_inv p" "0 < m_numobjs p"
  shows "retrieve_rounds (Suc k) p =
    (if \<not> bm_bit (m_objs_reserved p) (clock p) then (Some (Slot (clock p)), reserve_slot (clock p) (tick p))
     else if clock p \<in> recyclable p then retrieve_rounds k (free_slot (clock p) (tick p))
     else retrieve_rounds k (tick p))"
proof -
  let ?i = "clock p"
  have i: "?i < m_numobjs p" using assms(2) by (simp add: clock_def)
  have o: "?i div BITS_PER_ULONG < length (m_objs_reserved p)" "?i div BITS_PER_ULONG < length (m_objs_recycled p)"
    using word_in_bitmap [OF assms(1) i] assms(1) by (auto simp: pool_inv_def)
  have rec: "bit_val_of ?i = (bit_val_of ?i AND m_objs_recycled p ! (?i div BITS_PER_ULONG))
    \<longleftrightarrow> bm_bit (m_objs_recycled p) ?i"
    by (simp add: bit_val_and_self bm_bit_def)
  obtain b bm where sb: "SetBit_pool (m_objs_reserved p) (?i div BITS_PER_ULONG) (bit_val_of ?i) = (b, bm)" by force
  have b: "b \<longleftrightarrow> \<not> bm_bit (m_objs_reserved p) ?i" using SetBit_pool_bit(1) [OF o(1)] by (simp add: sb)
  obtain c cm where ub: "UnsetBit_pool (m_objs_recycled p) (?i div BITS_PER_ULONG) (bit_val_of ?i) = (c, cm)" by force
  have c: "c \<longleftrightarrow> bm_bit (m_objs_recycled p) ?i" using UnsetBit_pool_bit(1) [OF o(2)] by (simp add: ub)
  show ?thesis
    using sb b ub c i rec
    by (cases b; cases c)
      (simp_all add: Let_def clock_def [symmetric] recyclable_def reserve_slot_def free_slot_def)
qed

lemma reserve_slot_effect:
  assumes "pool_inv p" "i < m_numobjs p" "\<not> bm_bit (m_objs_reserved p) i"
  shows "pool_inv (reserve_slot i (tick p))"
    and "slots_in_use (reserve_slot i (tick p)) = insert i (slots_in_use p)" and "i \<notin> slots_in_use p"
proof -
  have o: "i div BITS_PER_ULONG < length (m_objs_reserved p)"
    using word_in_bitmap [OF assms(1,2)] assms(1) by (simp add: pool_inv_def)
  note bits = SetBit_pool_bit(2,3) [OF o]
  show "pool_inv (reserve_slot i (tick p))" using assms by (auto simp: pool_inv_def reserve_slot_def bits)
  show "slots_in_use (reserve_slot i (tick p)) = insert i (slots_in_use p)"
    using assms by (auto simp: pool_defs reserve_slot_def bits)
  show "i \<notin> slots_in_use p" using assms by (simp add: slots_in_use_def)
qed

lemma free_slot_effect:
  assumes "pool_inv p" "i \<in> recyclable p"
  shows "pool_inv (free_slot i (tick p))" and "slots_in_use (free_slot i (tick p)) = slots_in_use p"
    and "recyclable (free_slot i (tick p)) = recyclable p - {i}"
    and "\<not> bm_bit (m_objs_reserved (free_slot i (tick p))) i"
proof -
  have i: "i < m_numobjs p" using assms(2) by (simp add: recyclable_def)
  have o: "i div BITS_PER_ULONG < length (m_objs_reserved p)" "i div BITS_PER_ULONG < length (m_objs_recycled p)"
    using word_in_bitmap [OF assms(1) i] assms(1) by (auto simp: pool_inv_def)
  note bits = UnsetBit_pool_bit(2,3) [OF o(1)] UnsetBit_pool_bit(2,3) [OF o(2)]
  show "pool_inv (free_slot i (tick p))" using assms by (auto simp: pool_inv_def free_slot_def bits)
  show "slots_in_use (free_slot i (tick p)) = slots_in_use p"
    using assms by (auto simp: pool_defs free_slot_def bits)
  show "recyclable (free_slot i (tick p)) = recyclable p - {i}"
    using assms by (auto simp: pool_defs free_slot_def bits)
  show "\<not> bm_bit (m_objs_reserved (free_slot i (tick p))) i" by (simp add: free_slot_def bits)
qed

subsection \<open>Rounds\<close>

lemma tick_sets [simp]: "pool_inv (tick p) = pool_inv p" "slots_in_use (tick p) = slots_in_use p"
  "recyclable (tick p) = recyclable p"
  by (simp_all add: pool_defs)

lemma allocated_sets [simp]: "pool_inv (p\<lparr>m_allocated := k\<rparr>) = pool_inv p"
  "slots_in_use (p\<lparr>m_allocated := k\<rparr>) = slots_in_use p"
  by (simp_all add: pool_defs)

lemma slot_fields [simp]:
  "m_numobjs (reserve_slot i p) = m_numobjs p" "m_allocated (reserve_slot i p) = m_allocated p"
  "m_numobjs (free_slot i p) = m_numobjs p" "m_allocated (free_slot i p) = m_allocated p"
  "m_last_lookup_idx (free_slot i p) = m_last_lookup_idx p"
  by (simp_all add: reserve_slot_def free_slot_def)

text \<open>The object that the clock reaches after \<open>j\<close> further rounds.\<close>

definition clock_at :: "CSyncPool \<Rightarrow> nat \<Rightarrow> nat" where
  "clock_at p j = unat (m_last_lookup_idx p + of_nat j) mod m_numobjs p"

text \<open>
  Rounds without success leave the objects in use, and every object the clock passed is neither
  recyclable afterwards nor was it free before.
\<close>

definition passed :: "nat \<Rightarrow> CSyncPool \<Rightarrow> CSyncPool \<Rightarrow> bool" where
  "passed k p p' \<longleftrightarrow> slots_in_use p' = slots_in_use p \<and> recyclable p' \<subseteq> recyclable p
    \<and> m_last_lookup_idx p' = m_last_lookup_idx p + of_nat k
    \<and> (\<forall>j<k. clock_at p j \<notin> recyclable p' \<and> (clock_at p j \<in> recyclable p \<or> clock_at p j \<in> slots_in_use p))"

definition taken_slot :: "CSyncPool \<Rightarrow> CSyncPool \<Rightarrow> pool_obj \<Rightarrow> bool" where
  "taken_slot p p' obj \<longleftrightarrow>
    (\<exists>i<m_numobjs p. obj = Slot i \<and> i \<notin> slots_in_use p \<and> slots_in_use p' = insert i (slots_in_use p))"

definition rounds_result :: "nat \<Rightarrow> CSyncPool \<Rightarrow> pool_obj option \<times> CSyncPool \<Rightarrow> bool" where
  "rounds_result k p r \<longleftrightarrow> pool_inv (snd r) \<and> m_numobjs (snd r) = m_numobjs p \<and> m_allocated (snd r) = m_allocated p
    \<and> (case fst r of Some obj \<Rightarrow> taken_slot p (snd r) obj | None \<Rightarrow> passed k p (snd r))"

lemma passed_Suc:
  assumes "passed k q p'" and "m_numobjs q = m_numobjs p" and "m_last_lookup_idx q = m_last_lookup_idx p + 1"
    and "slots_in_use q = slots_in_use p" and "recyclable q \<subseteq> recyclable p"
    and "clock p \<notin> recyclable q" and "clock p \<in> recyclable p \<or> clock p \<in> slots_in_use p"
  shows "passed (Suc k) p p'"
proof -
  have "clock_at p j \<notin> recyclable p' \<and> (clock_at p j \<in> recyclable p \<or> clock_at p j \<in> slots_in_use p)"
    if "j < Suc k" for j
  proof (cases j)
    case 0
    then show ?thesis using assms by (auto simp: clock_at_def clock_def passed_def)
  next
    case (Suc i)
    then have "clock_at p j = clock_at q i" by (simp add: clock_at_def assms(2,3) ac_simps)
    moreover have "clock_at q i \<notin> recyclable p'" "clock_at q i \<in> recyclable q \<or> clock_at q i \<in> slots_in_use q"
      using assms(1) that Suc by (auto simp: passed_def)
    ultimately show ?thesis using assms(4,5) by auto
  qed
  then show ?thesis using assms by (auto simp: passed_def ac_simps)
qed

lemma taken_slot_mono:
  "taken_slot q p' obj \<Longrightarrow> m_numobjs q = m_numobjs p \<Longrightarrow> slots_in_use q = slots_in_use p \<Longrightarrow> taken_slot p p' obj"
  by (simp add: taken_slot_def)

lemma rounds_result_Suc:
  assumes "rounds_result k q r" and "m_numobjs q = m_numobjs p" and "m_allocated q = m_allocated p"
    and "m_last_lookup_idx q = m_last_lookup_idx p + 1"
    and "slots_in_use q = slots_in_use p" and "recyclable q \<subseteq> recyclable p"
    and "clock p \<notin> recyclable q" and "clock p \<in> recyclable p \<or> clock p \<in> slots_in_use p"
  shows "rounds_result (Suc k) p r"
  using assms passed_Suc [OF _ assms(2,4-8)] taken_slot_mono [OF _ assms(2,5)]
  by (auto simp: rounds_result_def split: option.splits)

lemma retrieve_rounds_result:
  assumes "pool_inv p" "0 < m_numobjs p"
  shows "rounds_result k p (retrieve_rounds k p)"
  using assms
proof (induction k arbitrary: p)
  case 0
  then show ?case by (simp add: rounds_result_def passed_def)
next
  case (Suc k)
  let ?i = "clock p"
  have i: "?i < m_numobjs p" using Suc.prems(2) by (simp add: clock_def)
  note round = retrieve_round [OF Suc.prems]
  show ?case
  proof (cases "bm_bit (m_objs_reserved p) ?i")
    case False
    then have "retrieve_rounds (Suc k) p = (Some (Slot ?i), reserve_slot ?i (tick p))" by (simp only: round if_True not_False_eq_True)
    then show ?thesis using reserve_slot_effect [OF Suc.prems(1) i False] i
      by (simp add: rounds_result_def taken_slot_def del: retrieve_rounds.simps)
  next
    case reserved: True
    show ?thesis
    proof (cases "?i \<in> recyclable p")
      case True
      then have "retrieve_rounds (Suc k) p = retrieve_rounds k (free_slot ?i (tick p))"
        using reserved by (simp only: round if_True not_True_eq_False if_False)
      then show ?thesis
        using free_slot_effect [OF Suc.prems(1) True] Suc.prems True
        by (auto intro!: rounds_result_Suc [of k "free_slot ?i (tick p)"] Suc.IH simp del: retrieve_rounds.simps)
    next
      case False
      then have "retrieve_rounds (Suc k) p = retrieve_rounds k (tick p)"
        using reserved by (simp only: round if_True not_True_eq_False if_False)
      moreover have "?i \<in> slots_in_use p" using reserved False i by (simp add: slots_in_use_def recyclable_def)
      ultimately show ?thesis
        using Suc.prems False
        by (auto intro!: rounds_result_Suc [of k "tick p"] Suc.IH simp del: retrieve_rounds.simps)
    qed
  qed
qed

subsection \<open>Two rotations visit every object twice\<close>

lemma retrieve_rounds_add:
  "retrieve_rounds (a + b) p = (case retrieve_rounds a p of (Some obj, q) \<Rightarrow> (Some obj, q) | (None, q) \<Rightarrow> retrieve_rounds b q)"
proof (induction a arbitrary: p)
  case (Suc a)
  then show ?case by (simp add: Let_def split: prod.splits bool.splits option.splits)
qed simp

lemma unat_add_of_nat:
  fixes w :: "64 word"
  assumes "unat w + j < 2 ^ 64"
  shows "unat (w + of_nat j) = unat w + j"
  using assms by (simp add: unat_word_ariths unat_of_nat)

lemma clock_at_covers:
  assumes "i < m_numobjs p" and "unat (m_last_lookup_idx p) + m_numobjs p < 2 ^ 64"
  shows "\<exists>j<m_numobjs p. clock_at p j = i"
proof -
  let ?n = "m_numobjs p" and ?c = "unat (m_last_lookup_idx p)"
  let ?j = "(i + (?n - ?c mod ?n)) mod ?n"
  have j: "?j < ?n" using assms(1) by simp
  then have "unat (m_last_lookup_idx p + of_nat ?j) = ?c + ?j"
    using assms(2) by (intro unat_add_of_nat) linarith
  moreover have "(?c + ?j) mod ?n = i"
  proof -
    have "(?c + ?j) mod ?n = (?c mod ?n + (i + (?n - ?c mod ?n))) mod ?n" by (simp add: mod_simps)
    also have "?c mod ?n + (i + (?n - ?c mod ?n)) = i + ?n"
      using assms(1) mod_less_divisor [of ?n ?c] by linarith
    finally show ?thesis using assms(1) by simp
  qed
  ultimately show ?thesis using j by (auto simp: clock_at_def)
qed

lemma rounds_None_full:
  assumes "pool_inv p" "0 < m_numobjs p" and "unat (m_last_lookup_idx p) + 2 * m_numobjs p < 2 ^ 64"
    and "retrieve_rounds (2 * m_numobjs p) p = (None, p')"
  shows "slots_in_use p = {i. i < m_numobjs p}"
proof -
  let ?n = "m_numobjs p"
  have "retrieve_rounds (?n + ?n) p = (None, p')" using assms(4) by (simp add: mult_2)
  then obtain q where q: "retrieve_rounds ?n p = (None, q)" "retrieve_rounds ?n q = (None, p')"
    by (auto simp: retrieve_rounds_add split: prod.splits option.splits)
  have n: "m_numobjs q = ?n" and inv: "pool_inv q" and pass: "passed ?n p q"
    using retrieve_rounds_result [OF assms(1,2), of ?n] by (auto simp: rounds_result_def q)
  have pass': "passed ?n q p'"
    using retrieve_rounds_result [OF inv, of ?n] assms(2) by (simp add: rounds_result_def q n)
  have idx: "unat (m_last_lookup_idx q) = unat (m_last_lookup_idx p) + ?n"
    using assms(3) pass unat_add_of_nat [of "m_last_lookup_idx p" ?n] by (simp add: passed_def)
  have "i \<in> slots_in_use p" if i: "i < ?n" for i
  proof -
    obtain j where "j < ?n" "clock_at p j = i" using clock_at_covers [of i p] i assms(3) by auto
    then have "i \<notin> recyclable q" using pass by (auto simp: passed_def)
    moreover obtain j' where "j' < ?n" "clock_at q j' = i"
      using clock_at_covers [of i q] i assms(3) idx n by auto
    then have "i \<in> recyclable q \<or> i \<in> slots_in_use q" using pass' by (auto simp: passed_def)
    ultimately show ?thesis using pass by (simp add: passed_def)
  qed
  then show ?thesis by (auto simp: slots_in_use_def)
qed

subsection \<open>Contract\<close>

text \<open>\<open>owned p U\<close>: the clients of the pool hold exactly the objects \<open>U\<close>.\<close>

definition owned :: "CSyncPool \<Rightarrow> pool_obj set \<Rightarrow> bool" where
  "owned p U \<longleftrightarrow> pool_inv p \<and> {i. Slot i \<in> U} = slots_in_use p \<and> (\<forall>k. Heap k \<in> U \<longrightarrow> k < m_allocated p)"

lemma owned_Init: "owned (CSyncPool_Init n) {}"
  by (auto simp: owned_def CSyncPool_Init_def Let_def pool_defs bm_bit_def div_le_mono less_Suc_eq_le)

lemma PtRetrieve_cases:
  assumes "pool_inv p"
  obtains (slot) i p' where "PtRetrieve p = (Slot i, p')" "i < m_numobjs p" "i \<notin> slots_in_use p" "pool_inv p'"
      "slots_in_use p' = insert i (slots_in_use p)" "m_allocated p' = m_allocated p" "m_numobjs p' = m_numobjs p"
  | (heap) p' where "PtRetrieve p = (Heap (m_allocated p), p')" "pool_inv p'" "slots_in_use p' = slots_in_use p"
      "m_allocated p' = m_allocated p + 1" "m_numobjs p' = m_numobjs p"
      "fst (retrieve_rounds (2 * m_numobjs p mod ulong_modulus) p) = None"
proof -
  define k where "k = 2 * m_numobjs p mod ulong_modulus"
  have res: "rounds_result k p (retrieve_rounds k p)"
  proof (cases "m_numobjs p")
    case 0
    then show ?thesis using assms by (simp add: k_def rounds_result_def passed_def)
  qed (use retrieve_rounds_result [OF assms] in simp)
  obtain r q where q: "retrieve_rounds k p = (r, q)" by force
  note ret = PtRetrieve_def [of p, folded k_def]
  show ?thesis
  proof (cases r)
    case None
    show ?thesis
      using res None
      by (intro heap [of "q\<lparr>m_allocated := m_allocated q + 1\<rparr>"], unfold k_def [symmetric] ret q)
        (simp_all add: q rounds_result_def passed_def)
  next
    case (Some obj)
    with res obtain i where "obj = Slot i" "i < m_numobjs p" "i \<notin> slots_in_use p"
      "slots_in_use q = insert i (slots_in_use p)" by (auto simp: q rounds_result_def taken_slot_def)
    then show ?thesis using res Some by (intro slot [of i q]) (simp_all add: q ret rounds_result_def)
  qed
qed

lemma owned_PtRetrieve:
  assumes "owned p U" and "PtRetrieve p = (obj, p')"
  shows "obj \<notin> U" and "owned p' (insert obj U)"
proof -
  have inv: "pool_inv p" using assms(1) by (simp add: owned_def)
  from inv have "obj \<notin> U \<and> owned p' (insert obj U)"
  proof (cases rule: PtRetrieve_cases)
    case (slot i q)
    then show ?thesis using assms by (auto simp: owned_def)
  next
    case (heap q)
    then show ?thesis using assms by (fastforce simp: owned_def)
  qed
  then show "obj \<notin> U" and "owned p' (insert obj U)" by auto
qed

lemma owned_Recycle:
  assumes "owned p U" and "obj \<in> U"
  shows "owned (Recycle obj p) (U - {obj})"
proof (cases obj)
  case (Heap k)
  then show ?thesis using assms by (auto simp: owned_def Recycle_def)
next
  case (Slot i)
  have i: "i \<in> slots_in_use p" using assms by (auto simp: owned_def Slot)
  then have "i div BITS_PER_ULONG < length (m_objs_recycled p)"
    using word_in_bitmap [of p i] assms(1) by (simp add: owned_def pool_inv_def slots_in_use_def)
  note bits = SetBit_pool_bit(2,3) [OF this]
  have "pool_inv (Recycle obj p)" "slots_in_use (Recycle obj p) = slots_in_use p - {i}"
    using i assms(1) by (auto simp: owned_def pool_defs Recycle_def Slot bits)
  then show ?thesis using assms by (auto simp: owned_def Slot Recycle_def)
qed

text \<open>
  \<^bold>\<open>C27\<close>: \<^verbatim>\<open>CSyncPool::PtRetrieve\<close> never hands out an object that a client still holds, and \<^verbatim>\<open>Recycle\<close> gives
  back exactly the object it is called with.  It falls back to the heap only when every slot is held,
  provided that neither the loop bound nor the clock index overflows.
\<close>

theorem PtRetrieve_fresh:
  assumes "owned p U" and "PtRetrieve p = (obj, p')"
  shows "obj \<notin> U \<and> owned p' (insert obj U)
    \<and> (\<forall>u\<in>insert obj U. owned (Recycle u p') (insert obj U - {u}))
    \<and> (\<forall>k. obj = Heap k \<and> 2 * m_numobjs p < ulong_modulus
         \<and> unat (m_last_lookup_idx p) + 2 * m_numobjs p < 2 ^ 64 \<longrightarrow> Slot ` {i. i < m_numobjs p} \<subseteq> U)"
proof (intro conjI allI ballI impI)
  show "obj \<notin> U" and own: "owned p' (insert obj U)" by (rule owned_PtRetrieve [OF assms])+
  show "owned (Recycle u p') (insert obj U - {u})" if "u \<in> insert obj U" for u by (rule owned_Recycle [OF own that])
  have inv: "pool_inv p" using assms(1) by (simp add: owned_def)
  fix k
  assume k: "obj = Heap k \<and> 2 * m_numobjs p < ulong_modulus \<and> unat (m_last_lookup_idx p) + 2 * m_numobjs p < 2 ^ 64"
  from inv show "Slot ` {i. i < m_numobjs p} \<subseteq> U"
  proof (cases rule: PtRetrieve_cases)
    case (slot i q)
    then show ?thesis using k assms(2) by simp
  next
    case (heap q)
    have "2 * m_numobjs p mod ulong_modulus = 2 * m_numobjs p" using k by simp
    then have "fst (retrieve_rounds (2 * m_numobjs p) p) = None" using heap(6) by (simp only:)
    then have "m_numobjs p \<noteq> 0 \<Longrightarrow> slots_in_use p = {i. i < m_numobjs p}"
      using rounds_None_full [OF inv] k by (cases "retrieve_rounds (2 * m_numobjs p) p") auto
    then show ?thesis using assms(1) by (cases "m_numobjs p") (auto simp: owned_def)
  qed
qed

lemma PtRetrieve_example: "PtRetrieve (CSyncPool_Init 1) =
    (Slot 0, (CSyncPool_Init 1)\<lparr>m_objs_reserved := [1], m_last_lookup_idx := 1\<rparr>)"
  by (simp add: PtRetrieve_def CSyncPool_Init_def Let_def SetBit_pool_def bit_val_of_def
      retrieve_rounds.simps(2) [of 1, unfolded Suc_1])

theorem PtRetrieve_fresh_witness:
  "Slot 0 \<notin> {} \<and> owned ((CSyncPool_Init 1)\<lparr>m_objs_reserved := [1], m_last_lookup_idx := 1\<rparr>) {Slot 0}"
  using PtRetrieve_fresh [OF owned_Init PtRetrieve_example] by simp

subsection \<open>The pool as an interface\<close>

text \<open>
  What clients of a pool rely on: an object handed out is not held by anyone, and giving an object back
  ends its ownership.
\<close>

locale object_pool =
  fixes retrieve :: "'p \<Rightarrow> 'o \<times> 'p" and recycle :: "'o \<Rightarrow> 'p \<Rightarrow> 'p" and holds :: "'p \<Rightarrow> 'o set \<Rightarrow> bool"
  assumes retrieve_new: "holds p U \<Longrightarrow> retrieve p = (obj, p') \<Longrightarrow> obj \<notin> U"
    and retrieve_holds: "holds p U \<Longrightarrow> retrieve p = (obj, p') \<Longrightarrow> holds p' (insert obj U)"
    and recycle_holds: "holds p U \<Longrightarrow> obj \<in> U \<Longrightarrow> holds (recycle obj p) (U - {obj})"
begin

lemma retrieve_obtain:
  assumes "holds p U"
  obtains obj p' where "retrieve p = (obj, p')" "obj \<notin> U" "holds p' (insert obj U)"
  using assms retrieve_new retrieve_holds by (cases "retrieve p") blast

lemma retrieve_recycle:
  assumes "holds p U" "retrieve p = (obj, p')"
  shows "holds (recycle obj p') U"
  using recycle_holds [OF retrieve_holds [OF assms], of obj] retrieve_new [OF assms] by simp

end

interpretation pool: object_pool PtRetrieve Recycle owned
  by unfold_locales (rule owned_PtRetrieve owned_Recycle; assumption)+

end
