(* ===== verification/Jobs.thy ===== *)
theory Jobs
  imports SyncPool
begin

text \<open>
  Jobs, their factory, the scheduler and the job queues of \<^verbatim>\<open>libgpopt/src/search\<close>: \<^verbatim>\<open>CJob.cpp\<close>,
  \<^verbatim>\<open>CJobFactory.cpp\<close>, \<^verbatim>\<open>CScheduler.cpp\<close> and \<^verbatim>\<open>CJobQueue.cpp\<close>.  Job objects live in a store; a reference to a
  job names the pool it comes from and the object in the pool, so that recycled objects are reused the way
  the code reuses them.  The debug bookkeeping (job states, lists of running and suspended jobs) is part of
  the model.  The virtual method \<^verbatim>\<open>CJob::FExecute\<close> is a parameter of the functions that call it.
\<close>

subsection \<open>CJob\<close>

datatype EJobType = EjtTest | EjtGroupOptimization | EjtGroupImplementation | EjtGroupExploration
  | EjtGroupExpressionOptimization | EjtGroupExpressionImplementation | EjtGroupExpressionExploration
  | EjtTransformation | EjtJoinEnumeration

datatype EJobState = EjsInit | EjsWaiting | EjsRunning | EjsSuspended | EjsCompleted

datatype job_ref = Job (ref_type: EJobType) (ref_obj: pool_obj)

record CJob =
  m_pjParent :: "job_ref option"
  m_pjq :: "nat option"
  m_ulpRefs :: nat
  m_ejt :: EJobType
  m_fInit :: bool
  m_ejs :: EJobState

definition CJob_Reset :: "'j CJob_scheme \<Rightarrow> 'j CJob_scheme" where
  "CJob_Reset pj = pj\<lparr>m_pjParent := None, m_pjq := None, m_ulpRefs := 0, m_fInit := False, m_ejs := EjsInit\<rparr>"

subsection \<open>State of the search\<close>

record CJobQueue =
  m_pj :: "job_ref option"
  m_fCompleted :: bool
  m_listjQueued :: "job_ref list"

text \<open>
  The waiting list holds links, the objects of the pool \<open>m_spjl\<close>; \<open>link_job\<close> gives the member \<^verbatim>\<open>m_pj\<close> of each
  link object.
\<close>

record CScheduler =
  m_listjlWaiting :: "pool_obj list"
  link_job :: "pool_obj \<Rightarrow> job_ref"
  m_spjl :: CSyncPool
  m_ulpTotal :: nat
  m_ulpRunning :: nat
  m_ulpQueued :: nat
  m_ulpStatsQueued :: nat
  m_ulpStatsDequeued :: nat
  m_ulpStatsSuspended :: nat
  m_ulpStatsCompleted :: nat
  m_ulpStatsCompletedQueued :: nat
  m_ulpStatsResumed :: nat
  m_ulpStatsMaxRunnable :: nat
  m_ullStatsRunnableDepth :: nat
  m_job_calls :: "EJobType \<Rightarrow> nat"
  m_job_us :: "EJobType \<Rightarrow> nat"
  m_listjRunning :: "job_ref list"
  m_listjSuspended :: "job_ref list"
  m_fTrackingJobs :: bool

record CJobFactory =
  m_ulJobs :: nat
  m_pools :: "EJobType \<Rightarrow> CSyncPool option"

record 'j search =
  job_store :: "job_ref \<Rightarrow> 'j CJob_scheme"
  queue_store :: "nat \<Rightarrow> CJobQueue"
  sched :: CScheduler
  factory :: CJobFactory

abbreviation job_of :: "('j, 'w) search_scheme \<Rightarrow> job_ref \<Rightarrow> 'j CJob_scheme" where
  "job_of s pj \<equiv> job_store s pj"

definition upd_job :: "job_ref \<Rightarrow> ('j CJob_scheme \<Rightarrow> 'j CJob_scheme) \<Rightarrow> ('j, 'w) search_scheme \<Rightarrow> ('j, 'w) search_scheme" where
  "upd_job pj f s = s\<lparr>job_store := (job_store s)(pj := f (job_store s pj))\<rparr>"

definition upd_sched :: "(CScheduler \<Rightarrow> CScheduler) \<Rightarrow> ('j, 'w) search_scheme \<Rightarrow> ('j, 'w) search_scheme" where
  "upd_sched f s = s\<lparr>sched := f (sched s)\<rparr>"

definition upd_queue :: "nat \<Rightarrow> (CJobQueue \<Rightarrow> CJobQueue) \<Rightarrow> ('j, 'w) search_scheme \<Rightarrow> ('j, 'w) search_scheme" where
  "upd_queue q f s = s\<lparr>queue_store := (queue_store s)(q := f (queue_store s q))\<rparr>"

definition IncRefs :: "job_ref \<Rightarrow> ('j, 'w) search_scheme \<Rightarrow> ('j, 'w) search_scheme" where
  "IncRefs pj = upd_job pj (\<lambda>j. j\<lparr>m_ulpRefs := m_ulpRefs j + 1\<rparr>)"

text \<open>The value before the decrement, and the state.\<close>

definition UlpDecrRefs :: "job_ref \<Rightarrow> ('j, 'w) search_scheme \<Rightarrow> nat \<times> ('j, 'w) search_scheme" where
  "UlpDecrRefs pj s = (m_ulpRefs (job_of s pj), upd_job pj (\<lambda>j. j\<lparr>m_ulpRefs := m_ulpRefs j - 1\<rparr>) s)"

definition SetParent :: "job_ref \<Rightarrow> job_ref option \<Rightarrow> ('j, 'w) search_scheme \<Rightarrow> ('j, 'w) search_scheme" where
  "SetParent pj pjParent = upd_job pj (\<lambda>j. j\<lparr>m_pjParent := pjParent\<rparr>)"

definition SetState_job :: "job_ref \<Rightarrow> EJobState \<Rightarrow> ('j, 'w) search_scheme \<Rightarrow> ('j, 'w) search_scheme" where
  "SetState_job pj ejs = upd_job pj (\<lambda>j. j\<lparr>m_ejs := ejs\<rparr>)"

definition FResumeParent :: "job_ref \<Rightarrow> ('j, 'w) search_scheme \<Rightarrow> bool \<times> ('j, 'w) search_scheme" where
  "FResumeParent pj s = (case UlpDecrRefs (the (m_pjParent (job_of s pj))) s of (ulpRefs, s') \<Rightarrow> (1 = ulpRefs, s'))"

subsection \<open>CJobFactory\<close>

definition PtRetrieve_factory :: "EJobType \<Rightarrow> CJobFactory \<Rightarrow> pool_obj \<times> CJobFactory" where
  "PtRetrieve_factory ejt f =
    (let p = (case m_pools f ejt of None \<Rightarrow> CSyncPool_Init (m_ulJobs f) | Some p \<Rightarrow> p);
         (obj, p') = PtRetrieve p
     in (obj, f\<lparr>m_pools := (m_pools f)(ejt := Some p')\<rparr>))"

definition PjCreate :: "EJobType \<Rightarrow> ('j, 'w) search_scheme \<Rightarrow> job_ref \<times> ('j, 'w) search_scheme" where
  "PjCreate ejt s =
    (let (obj, f) = PtRetrieve_factory ejt (factory s);
         pj = Job ejt obj;
         s = upd_job pj CJob_Reset (s\<lparr>factory := f\<rparr>)
     in (pj, upd_job pj (\<lambda>j. j\<lparr>m_ejt := ejt\<rparr>) s))"

definition Release :: "job_ref \<Rightarrow> ('j, 'w) search_scheme \<Rightarrow> ('j, 'w) search_scheme" where
  "Release pj s =
    (let ejt = m_ejt (job_of s pj); f = factory s
     in s\<lparr>factory := f\<lparr>m_pools := (m_pools f)(ejt := map_option (Recycle (ref_obj pj)) (m_pools f ejt))\<rparr>\<rparr>)"

definition Truncate :: "EJobType \<Rightarrow> ('j, 'w) search_scheme \<Rightarrow> ('j, 'w) search_scheme" where
  "Truncate ejt s = s\<lparr>factory := (factory s)\<lparr>m_pools := (m_pools (factory s))(ejt := None)\<rparr>\<rparr>"

definition CJobFactory_new :: "nat \<Rightarrow> ('j, 'w) search_scheme \<Rightarrow> ('j, 'w) search_scheme" where
  "CJobFactory_new ulJobs s =
    fold (\<lambda>ejt s. case PjCreate ejt s of (pj, s') \<Rightarrow> Release pj s')
      [EjtGroupExploration, EjtGroupExpressionExploration, EjtTransformation]
      (s\<lparr>factory := \<lparr>m_ulJobs = ulJobs, m_pools = \<lambda>_. None\<rparr>\<rparr>)"

definition CJobFactory_delete :: "('j, 'w) search_scheme \<Rightarrow> ('j, 'w) search_scheme" where
  "CJobFactory_delete =
    fold Truncate [EjtTest, EjtGroupExploration, EjtGroupImplementation, EjtGroupOptimization,
      EjtGroupExpressionExploration, EjtGroupExpressionExploration, EjtGroupExpressionOptimization,
      EjtTransformation, EjtJoinEnumeration]"

subsection \<open>CScheduler: scheduling and completion\<close>

definition CScheduler_new :: "nat \<Rightarrow> bool \<Rightarrow> CScheduler" where
  "CScheduler_new ulJobs fTrackingJobs =
    \<lparr>m_listjlWaiting = [], link_job = (\<lambda>_. Job EjtTest (Slot 0)), m_spjl = CSyncPool_Init ulJobs,
     m_ulpTotal = 0, m_ulpRunning = 0, m_ulpQueued = 0, m_ulpStatsQueued = 0, m_ulpStatsDequeued = 0,
     m_ulpStatsSuspended = 0, m_ulpStatsCompleted = 0, m_ulpStatsCompletedQueued = 0, m_ulpStatsResumed = 0,
     m_ulpStatsMaxRunnable = 0, m_ullStatsRunnableDepth = 0, m_job_calls = (\<lambda>_. 0), m_job_us = (\<lambda>_. 0),
     m_listjRunning = [], m_listjSuspended = [], m_fTrackingJobs = fTrackingJobs\<rparr>"

text \<open>Debug bookkeeping is done when the scheduler tracks jobs.\<close>

definition when_tracking ::
  "(('j, 'w) search_scheme \<Rightarrow> ('j, 'w) search_scheme) \<Rightarrow> ('j, 'w) search_scheme \<Rightarrow> ('j, 'w) search_scheme" where
  "when_tracking f s = (if m_fTrackingJobs (sched s) then f s else s)"

definition Schedule :: "job_ref \<Rightarrow> ('j, 'w) search_scheme \<Rightarrow> ('j, 'w) search_scheme" where
  "Schedule pj s =
    (let (pjl, pool') = PtRetrieve (m_spjl (sched s));
         s = upd_sched (\<lambda>c. c\<lparr>m_spjl := pool', link_job := (link_job c)(pjl := pj)\<rparr>) s;
         s = when_tracking (SetState_job pj EjsWaiting) s
     in upd_sched (\<lambda>c. c\<lparr>m_listjlWaiting := pjl # m_listjlWaiting c, m_ulpQueued := m_ulpQueued c + 1,
          m_ulpStatsQueued := m_ulpStatsQueued c + 1\<rparr>) s)"

definition Resume :: "job_ref \<Rightarrow> ('j, 'w) search_scheme \<Rightarrow> ('j, 'w) search_scheme" where
  "Resume pj = Schedule pj"

definition Add :: "job_ref \<Rightarrow> job_ref option \<Rightarrow> ('j, 'w) search_scheme \<Rightarrow> ('j, 'w) search_scheme" where
  "Add pj pjParent s =
    (let s = (case pjParent of Some par \<Rightarrow> IncRefs par s | None \<Rightarrow> s);
         s = SetParent pj pjParent s;
         s = upd_sched (\<lambda>c. c\<lparr>m_ulpTotal := m_ulpTotal c + 1\<rparr>) s
     in Schedule pj s)"

definition PreExecute :: "job_ref \<Rightarrow> ('j, 'w) search_scheme \<Rightarrow> ('j, 'w) search_scheme" where
  "PreExecute pj s = IncRefs pj (upd_sched (\<lambda>c. c\<lparr>m_ulpRunning := m_ulpRunning c + 1\<rparr>) s)"

datatype EJobResult = EjrRunnable | EjrSuspended | EjrCompleted

definition EjrPostExecute :: "job_ref \<Rightarrow> bool \<Rightarrow> ('j, 'w) search_scheme \<Rightarrow> EJobResult \<times> ('j, 'w) search_scheme" where
  "EjrPostExecute pj fCompleted s =
    (let (ulRefs, s) = UlpDecrRefs pj s;
         s = upd_sched (\<lambda>c. c\<lparr>m_ulpRunning := m_ulpRunning c - 1\<rparr>) s
     in (if fCompleted then EjrCompleted else if 1 = ulRefs then EjrRunnable else EjrSuspended, s))"

definition PjRetrieve :: "('j, 'w) search_scheme \<Rightarrow> job_ref option \<times> ('j, 'w) search_scheme" where
  "PjRetrieve s =
    (let s = upd_sched (\<lambda>c. c\<lparr>m_ulpStatsMaxRunnable := max (m_ulpStatsMaxRunnable c) (m_ulpQueued c),
           m_ullStatsRunnableDepth := (m_ullStatsRunnableDepth c + m_ulpQueued c) mod 2 ^ 64\<rparr>) s
     in case m_listjlWaiting (sched s) of
          [] \<Rightarrow> (None, s)
        | pjl # rest \<Rightarrow>
            let pj = link_job (sched s) pjl;
                s = upd_sched (\<lambda>c. c\<lparr>m_listjlWaiting := rest, m_ulpQueued := m_ulpQueued c - 1,
                      m_ulpStatsDequeued := m_ulpStatsDequeued c + 1, m_spjl := Recycle pjl (m_spjl c)\<rparr>) s;
                s = when_tracking (\<lambda>s. upd_sched (\<lambda>c. c\<lparr>m_listjRunning := m_listjRunning c @ [pj]\<rparr>)
                      (SetState_job pj EjsRunning s)) s
            in (Some pj, s))"

definition Suspend :: "job_ref \<Rightarrow> ('j, 'w) search_scheme \<Rightarrow> ('j, 'w) search_scheme" where
  "Suspend pj s =
    (let s = when_tracking (\<lambda>s. upd_sched (\<lambda>c. c\<lparr>m_listjSuspended := m_listjSuspended c @ [pj]\<rparr>)
           (SetState_job pj EjsSuspended s)) s
     in upd_sched (\<lambda>c. c\<lparr>m_ulpStatsSuspended := m_ulpStatsSuspended c + 1\<rparr>) s)"

definition ResumeParent :: "job_ref \<Rightarrow> ('j, 'w) search_scheme \<Rightarrow> ('j, 'w) search_scheme" where
  "ResumeParent pj s =
    (case m_pjParent (job_of s pj) of
       None \<Rightarrow> s
     | Some pjParent \<Rightarrow>
         (case FResumeParent pj s of
            (True, s) \<Rightarrow>
              let s = when_tracking (upd_sched (\<lambda>c. c\<lparr>m_listjSuspended := remove1 pjParent (m_listjSuspended c)\<rparr>)) s;
                  s = Resume pjParent s
              in upd_sched (\<lambda>c. c\<lparr>m_ulpStatsResumed := m_ulpStatsResumed c + 1\<rparr>) s
          | (False, s) \<Rightarrow> s))"

definition Complete_job :: "job_ref \<Rightarrow> ('j, 'w) search_scheme \<Rightarrow> ('j, 'w) search_scheme" where
  "Complete_job pj s =
    (let s = when_tracking (SetState_job pj EjsCompleted) s;
         s = ResumeParent pj s
     in upd_sched (\<lambda>c. c\<lparr>m_ulpTotal := m_ulpTotal c - 1, m_ulpStatsCompleted := m_ulpStatsCompleted c + 1\<rparr>) s)"

definition CompleteQueued :: "job_ref \<Rightarrow> ('j, 'w) search_scheme \<Rightarrow> ('j, 'w) search_scheme" where
  "CompleteQueued pj s =
    (let s = when_tracking (\<lambda>s. SetState_job pj EjsCompleted
           (upd_sched (\<lambda>c. c\<lparr>m_listjSuspended := remove1 pj (m_listjSuspended c)\<rparr>) s)) s;
         s = ResumeParent pj s
     in upd_sched (\<lambda>c. c\<lparr>m_ulpTotal := m_ulpTotal c - 1, m_ulpStatsCompleted := m_ulpStatsCompleted c + 1,
          m_ulpStatsCompletedQueued := m_ulpStatsCompletedQueued c + 1\<rparr>) s)"

subsection \<open>CJobQueue\<close>

datatype EJobQueueResult = EjqrMain | EjqrQueued | EjqrCompleted

definition CJobQueue_new :: CJobQueue where
  "CJobQueue_new = \<lparr>m_pj = None, m_fCompleted = False, m_listjQueued = []\<rparr>"

definition CJobQueue_Reset :: "nat \<Rightarrow> ('j, 'w) search_scheme \<Rightarrow> ('j, 'w) search_scheme" where
  "CJobQueue_Reset q = upd_queue q (\<lambda>jq. jq\<lparr>m_pj := None, m_fCompleted := False\<rparr>)"

definition EjqrAdd :: "nat \<Rightarrow> job_ref \<Rightarrow> ('j, 'w) search_scheme \<Rightarrow> EJobQueueResult \<times> ('j, 'w) search_scheme" where
  "EjqrAdd q pj s =
    (if \<not> m_fCompleted (queue_store s q) then
       if m_pj (queue_store s q) = Some pj then (EjqrMain, IncRefs pj s)
       else
         let s = upd_queue q (\<lambda>jq. jq\<lparr>m_listjQueued := m_listjQueued jq @ [pj]\<rparr>) s;
             fOwner = (hd (m_listjQueued (queue_store s q)) = pj)
         in if fOwner then (EjqrMain, IncRefs pj (upd_queue q (\<lambda>jq. jq\<lparr>m_pj := Some pj\<rparr>) s))
            else (EjqrQueued, IncRefs pj s)
     else (EjqrCompleted, s))"

subsubsection \<open>The completion of a job leaves the queues alone\<close>

lemma queue_store_upd [simp]:
  "queue_store (upd_job pj f s) = queue_store s" "queue_store (upd_sched g s) = queue_store s"
  "queue_store (Release pj s) = queue_store s"
  by (simp_all add: upd_job_def upd_sched_def Release_def Let_def)

lemma queue_store_when_tracking [simp]:
  "(\<And>t. queue_store (f t) = queue_store t) \<Longrightarrow> queue_store (when_tracking f s) = queue_store s"
  by (simp add: when_tracking_def)

lemma queue_store_Schedule [simp]: "queue_store (Schedule pj s) = queue_store s"
  by (simp add: Schedule_def SetState_job_def Let_def split: prod.split)

lemma queue_store_ResumeParent [simp]: "queue_store (ResumeParent pj s) = queue_store s"
  by (simp add: ResumeParent_def FResumeParent_def UlpDecrRefs_def Resume_def Let_def
      split: option.split prod.split bool.split)

lemma queue_store_CompleteQueued [simp]: "queue_store (CompleteQueued pj s) = queue_store s"
  by (simp add: CompleteQueued_def SetState_job_def Let_def)

lemma queue_store_UlpDecrRefs [simp]: "queue_store (snd (UlpDecrRefs pj s)) = queue_store s"
  by (simp add: UlpDecrRefs_def)

subsubsection \<open>Notification\<close>

function notify_loop :: "nat \<Rightarrow> ('j, 'w) search_scheme \<Rightarrow> ('j, 'w) search_scheme" where
  "notify_loop q s =
    (case m_listjQueued (queue_store s q) of
       [] \<Rightarrow> s
     | pj # rest \<Rightarrow>
         let s = upd_queue q (\<lambda>jq. jq\<lparr>m_listjQueued := rest\<rparr>) s;
             (ulpRefs, s) = UlpDecrRefs pj s;
             s = (if 1 = ulpRefs then Release pj (CompleteQueued pj s) else s)
         in notify_loop q s)"
  by pat_completeness auto

termination
proof (relation "measure (\<lambda>(q, s). length (m_listjQueued (queue_store s q)))")
qed (auto simp: UlpDecrRefs_def upd_queue_def)

declare notify_loop.simps [simp del]

definition NotifyCompleted :: "nat \<Rightarrow> ('j, 'w) search_scheme \<Rightarrow> ('j, 'w) search_scheme" where
  "NotifyCompleted q s = notify_loop q (upd_queue q (\<lambda>jq. jq\<lparr>m_fCompleted := True\<rparr>) s)"

subsection \<open>CScheduler: the processing loop\<close>

text \<open>
  What the virtual method \<^verbatim>\<open>FExecute\<close> of a job does: it changes the state and tells whether the job is
  complete, or it raises an exception.
\<close>

type_synonym ('j, 'w) job_code = "job_ref \<Rightarrow> ('j, 'w) search_scheme \<Rightarrow> bool option \<times> ('j, 'w) search_scheme"

definition FExecute ::
  "('j, 'w) job_code \<Rightarrow> job_ref \<Rightarrow> ('j, 'w) search_scheme \<Rightarrow> bool option \<times> ('j, 'w) search_scheme" where
  "FExecute exec pj s =
    (case m_pjq (job_of s pj) of
       None \<Rightarrow> exec pj s
     | Some q \<Rightarrow>
         (case EjqrAdd q pj s of
            (EjqrMain, s) \<Rightarrow>
              (case exec pj s of
                 (None, s) \<Rightarrow> (None, s)
               | (Some True, s) \<Rightarrow> (Some True, NotifyCompleted q s)
               | (Some False, s) \<Rightarrow> (Some False, snd (UlpDecrRefs pj s)))
          | (EjqrQueued, s) \<Rightarrow> (Some False, s)
          | (EjqrCompleted, s) \<Rightarrow> (Some True, s)))"

text \<open>
  The surroundings of the loop: the trace flag for statistics, the wall clock of a job and the abort
  flag that \<^verbatim>\<open>GPOS_CHECK_ABORT\<close> reads.
\<close>

record ('j, 'w) sched_env =
  fProfile :: bool
  ElapsedUS :: "('j, 'w) search_scheme \<Rightarrow> nat"
  fAbort :: "('j, 'w) search_scheme \<Rightarrow> bool"

datatype 's run_end = Finished 's | Raised 's

abbreviation (input) OPT_SCHED_CFA :: nat where
  "OPT_SCHED_CFA \<equiv> 100"

definition profile_job :: "('j, 'w) sched_env \<Rightarrow> job_ref \<Rightarrow> ('j, 'w) search_scheme \<Rightarrow> ('j, 'w) search_scheme" where
  "profile_job env pj s =
    (if fProfile env then
       let type = m_ejt (job_of s pj)
       in upd_sched (\<lambda>c. c\<lparr>m_job_calls := (m_job_calls c)(type := (m_job_calls c type + 1) mod ulong_modulus),
            m_job_us := (m_job_us c)(type := (m_job_us c type + ElapsedUS env s) mod ulong_modulus)\<rparr>) s
     else s)"

text \<open>One job, from \<^verbatim>\<open>PreExecute\<close> to the evaluation of its result; \<open>None\<close> when it raised.\<close>

definition execute_job ::
  "('j, 'w) job_code \<Rightarrow> ('j, 'w) sched_env \<Rightarrow> job_ref \<Rightarrow> ('j, 'w) search_scheme \<Rightarrow>
   EJobResult option \<times> ('j, 'w) search_scheme" where
  "execute_job exec env pj s =
    (case FExecute exec pj (PreExecute pj s) of
       (None, s) \<Rightarrow> (None, s)
     | (Some fCompleted, s) \<Rightarrow>
         let s = profile_job env pj s;
             s = when_tracking (upd_sched (\<lambda>c. c\<lparr>m_listjRunning := remove1 pj (m_listjRunning c)\<rparr>)) s
         in (case EjrPostExecute pj fCompleted s of
               (EjrCompleted, s) \<Rightarrow> (Some EjrCompleted, Release pj (Complete_job pj s))
             | (EjrRunnable, s) \<Rightarrow> (Some EjrRunnable, Resume pj s)
             | (EjrSuspended, s) \<Rightarrow> (Some EjrSuspended, Suspend pj s)))"

partial_function (option) ExecuteJobs ::
  "('j, 'w) job_code \<Rightarrow> ('j, 'w) sched_env \<Rightarrow> nat \<Rightarrow> ('j, 'w) search_scheme \<Rightarrow>
   ('j, 'w) search_scheme run_end option" where
  "ExecuteJobs exec env n s =
    (case PjRetrieve s of
       (None, s) \<Rightarrow> Some (Finished s)
     | (Some pj, s) \<Rightarrow>
         (case execute_job exec env pj s of
            (None, s) \<Rightarrow> Some (Raised s)
          | (Some EjrRunnable, s) \<Rightarrow> ExecuteJobs exec env n s
          | (Some _, s) \<Rightarrow>
              if n + 1 = OPT_SCHED_CFA then
                if fAbort env s then Some (Raised s) else ExecuteJobs exec env 0 s
              else ExecuteJobs exec env (n + 1) s))"

definition Run :: "('j, 'w) job_code \<Rightarrow> ('j, 'w) sched_env \<Rightarrow> ('j, 'w) search_scheme \<Rightarrow> ('j, 'w) search_scheme run_end option" where
  "Run exec env s = ExecuteJobs exec env 0 s"

end
