(* ===== verification/SchedulerCore.thy ===== *)
theory SchedulerCore
  imports Jobs
begin

text \<open>
  The invariant that ties together reference counters, parents, the waiting list and the job queues, on a
  view of the search state that forgets how links and objects are allocated.  The reference counter of a
  live job counts its live children, its place as a waiter in a queue, and the references that its own
  execution holds.
\<close>

subsection \<open>View\<close>

text \<open>
  \<open>live\<close> are the jobs added and not yet completed, \<open>active\<close> those taken from the waiting list and not yet
  put back, suspended or completed; \<open>own\<close> counts the references an execution holds on its own job;
  \<open>draining\<close> are the queues that \<^verbatim>\<open>NotifyCompleted\<close> is emptying; \<open>assigned\<close> is the queue a job may enter.
\<close>

record view =
  live :: "job_ref set"
  active :: "job_ref set"
  own :: "job_ref \<Rightarrow> nat"
  draining :: "nat set"
  par :: "job_ref \<Rightarrow> job_ref option"
  refs :: "job_ref \<Rightarrow> nat"
  waiting :: "job_ref list"
  queue :: "nat \<Rightarrow> CJobQueue"
  assigned :: "job_ref \<Rightarrow> nat option"

definition children :: "view \<Rightarrow> job_ref \<Rightarrow> job_ref set" where
  "children v j = {c \<in> live v. par v c = Some j}"

definition in_queue :: "view \<Rightarrow> job_ref \<Rightarrow> bool" where
  "in_queue v j \<longleftrightarrow> (\<exists>q. j \<in> set (m_listjQueued (queue v q)))"

definition waiter :: "view \<Rightarrow> job_ref \<Rightarrow> bool" where
  "waiter v j \<longleftrightarrow> (\<exists>q. j \<in> set (m_listjQueued (queue v q)) \<and> m_pj (queue v q) \<noteq> Some j)"

definition parent_rel :: "view \<Rightarrow> job_ref rel" where
  "parent_rel v = {(c, p). c \<in> live v \<and> par v c = Some p}"

definition queue_ok :: "bool \<Rightarrow> CJobQueue \<Rightarrow> bool" where
  "queue_ok drain jq \<longleftrightarrow> distinct (m_listjQueued jq)
    \<and> (if m_fCompleted jq then drain \<or> m_listjQueued jq = []
       else m_pj jq = (case m_listjQueued jq of [] \<Rightarrow> None | j # _ \<Rightarrow> Some j))"

definition sets_ok :: "view \<Rightarrow> bool" where
  "sets_ok v \<longleftrightarrow> finite (live v) \<and> distinct (waiting v) \<and> set (waiting v) \<subseteq> live v \<and> active v \<subseteq> live v
    \<and> active v \<inter> set (waiting v) = {} \<and> (\<forall>j. own v j \<noteq> 0 \<longrightarrow> j \<in> active v)"

definition parents_ok :: "view \<Rightarrow> bool" where
  "parents_ok v \<longleftrightarrow> (\<forall>j\<in>live v. \<forall>p. par v j = Some p \<longrightarrow> p \<in> live v) \<and> acyclic (parent_rel v)"

definition refs_ok :: "view \<Rightarrow> bool" where
  "refs_ok v \<longleftrightarrow> (\<forall>j\<in>live v. refs v j = card (children v j) + of_bool (waiter v j) + own v j)"

definition queues_ok :: "view \<Rightarrow> bool" where
  "queues_ok v \<longleftrightarrow> (\<forall>q. queue_ok (q \<in> draining v) (queue v q)
      \<and> (\<forall>j\<in>set (m_listjQueued (queue v q)). j \<in> live v \<and> assigned v j = Some q))
    \<and> (\<forall>j. waiter v j \<longrightarrow> children v j = {})"

definition progress_ok :: "view \<Rightarrow> bool" where
  "progress_ok v \<longleftrightarrow> (\<forall>j\<in>set (waiting v). refs v j = 0)
    \<and> (\<forall>j\<in>live v. j \<notin> set (waiting v) \<longrightarrow> j \<notin> active v \<longrightarrow> 0 < refs v j)"

definition view_inv :: "view \<Rightarrow> bool" where
  "view_inv v \<longleftrightarrow> sets_ok v \<and> parents_ok v \<and> refs_ok v \<and> queues_ok v \<and> progress_ok v"

lemmas view_parts = sets_ok_def parents_ok_def refs_ok_def queues_ok_def progress_ok_def

lemma view_invD:
  assumes "view_inv v"
  shows "sets_ok v" "parents_ok v" "refs_ok v" "queues_ok v" "progress_ok v"
  using assms by (simp_all add: view_inv_def)

subsection \<open>Derived facts\<close>

lemma children_upd [simp]:
  "children (v\<lparr>active := a\<rparr>) j = children v j" "children (v\<lparr>own := n\<rparr>) j = children v j"
  "children (v\<lparr>draining := d\<rparr>) j = children v j" "children (v\<lparr>refs := r\<rparr>) j = children v j"
  "children (v\<lparr>waiting := w\<rparr>) j = children v j" "children (v\<lparr>queue := q\<rparr>) j = children v j"
  "children (v\<lparr>assigned := s\<rparr>) j = children v j"
  by (simp_all add: children_def)

lemma waiter_upd [simp]:
  "waiter (v\<lparr>live := l\<rparr>) j = waiter v j" "waiter (v\<lparr>active := a\<rparr>) j = waiter v j"
  "waiter (v\<lparr>own := n\<rparr>) j = waiter v j" "waiter (v\<lparr>draining := d\<rparr>) j = waiter v j"
  "waiter (v\<lparr>par := p\<rparr>) j = waiter v j" "waiter (v\<lparr>refs := r\<rparr>) j = waiter v j"
  "waiter (v\<lparr>waiting := w\<rparr>) j = waiter v j" "waiter (v\<lparr>assigned := s\<rparr>) j = waiter v j"
  by (simp_all add: waiter_def)

lemma parent_rel_upd [simp]:
  "parent_rel (v\<lparr>active := a\<rparr>) = parent_rel v" "parent_rel (v\<lparr>own := n\<rparr>) = parent_rel v"
  "parent_rel (v\<lparr>draining := d\<rparr>) = parent_rel v" "parent_rel (v\<lparr>refs := r\<rparr>) = parent_rel v"
  "parent_rel (v\<lparr>waiting := w\<rparr>) = parent_rel v" "parent_rel (v\<lparr>queue := q\<rparr>) = parent_rel v"
  "parent_rel (v\<lparr>assigned := s\<rparr>) = parent_rel v"
  by (simp_all add: parent_rel_def)

lemma children_live: "view_inv v \<Longrightarrow> finite (children v j) \<and> children v j \<subseteq> live v"
  by (auto simp: view_inv_def sets_ok_def children_def)

lemma refs_zero:
  assumes "view_inv v" "j \<in> live v" "refs v j = 0"
  shows "children v j = {}" "\<not> waiter v j" "own v j = 0"
proof -
  have "card (children v j) + of_bool (waiter v j) + own v j = 0"
    using assms by (auto simp: view_inv_def refs_ok_def)
  then show "children v j = {}" "\<not> waiter v j" "own v j = 0"
    using children_live [OF assms(1), of j] by auto
qed

lemma queue_member:
  assumes "view_inv v" "j \<in> set (m_listjQueued (queue v q))"
  shows "j \<in> live v" "assigned v j = Some q"
  using assms by (auto simp: view_inv_def queues_ok_def)

lemma waiter_iff:
  assumes "view_inv v" "j \<in> set (m_listjQueued (queue v q))"
  shows "waiter v j \<longleftrightarrow> m_pj (queue v q) \<noteq> Some j"
proof -
  have "q' = q" if "j \<in> set (m_listjQueued (queue v q'))" for q'
    using queue_member(2) [OF assms] queue_member(2) [OF assms(1) that] by simp
  then show ?thesis using assms(2) unfolding waiter_def by blast
qed

lemma no_self_parent:
  assumes "view_inv v" "j \<in> live v"
  shows "par v j \<noteq> Some j"
proof
  assume "par v j = Some j"
  then have "(j, j) \<in> (parent_rel v)\<^sup>+" using assms(2) by (intro r_into_trancl) (simp add: parent_rel_def)
  then show False using assms(1) by (simp add: view_inv_def parents_ok_def acyclic_def)
qed

subsection \<open>Steps of an execution\<close>

text \<open>The job at the front of the waiting list becomes active.\<close>

lemma view_take:
  assumes "view_inv v" "waiting v = j # W"
  shows "view_inv (v\<lparr>waiting := W, active := insert j (active v)\<rparr>)"
  using assms by (auto simp: view_inv_def view_parts)

text \<open>Its execution takes or drops a reference on it.\<close>

lemma view_inc:
  assumes "view_inv v" "j \<in> active v"
  shows "view_inv (v\<lparr>refs := (refs v)(j := refs v j + 1), own := (own v)(j := own v j + 1)\<rparr>)"
  using assms by (auto simp: view_inv_def view_parts)

lemma view_dec:
  assumes "view_inv v" "0 < own v j"
  shows "view_inv (v\<lparr>refs := (refs v)(j := refs v j - 1), own := (own v)(j := own v j - 1)\<rparr>)"
  using assms by (auto simp: view_inv_def view_parts)

text \<open>An active job without references is put back; one with references is suspended.\<close>

lemma view_resume:
  assumes "view_inv v" "j \<in> active v" "refs v j = 0"
  shows "view_inv (v\<lparr>waiting := j # waiting v, active := active v - {j}\<rparr>)"
proof -
  have "j \<in> live v" using assms by (auto simp: view_inv_def sets_ok_def)
  then have "own v j = 0" using refs_zero [OF assms(1) _ assms(3)] by simp
  then show ?thesis using assms by (auto simp: view_inv_def view_parts)
qed

lemma view_suspend:
  assumes "view_inv v" "j \<in> active v" "own v j = 0" "0 < refs v j"
  shows "view_inv (v\<lparr>active := active v - {j}\<rparr>)"
  using assms by (auto simp: view_inv_def view_parts)

subsection \<open>Adding a job\<close>

definition add_job :: "job_ref \<Rightarrow> job_ref option \<Rightarrow> nat option \<Rightarrow> view \<Rightarrow> view" where
  "add_job r parent a v = v
    \<lparr>live := insert r (live v), par := (par v)(r := parent),
     refs := (case parent of None \<Rightarrow> (refs v)(r := 0) | Some p \<Rightarrow> (refs v)(p := refs v p + 1, r := 0)),
     waiting := r # waiting v, assigned := (assigned v)(r := a)\<rparr>"

lemma add_job_fields [simp]:
  "live (add_job r parent a v) = insert r (live v)" "active (add_job r parent a v) = active v"
  "own (add_job r parent a v) = own v" "draining (add_job r parent a v) = draining v"
  "par (add_job r parent a v) j = (if j = r then parent else par v j)"
  "refs (add_job r parent a v) j = (if j = r then 0 else if parent = Some j then refs v j + 1 else refs v j)"
  "waiting (add_job r parent a v) = r # waiting v" "queue (add_job r parent a v) = queue v"
  "assigned (add_job r parent a v) j = (if j = r then a else assigned v j)"
  by (auto simp: add_job_def split: option.splits)

lemma no_child_outside: "view_inv v \<Longrightarrow> r \<notin> live v \<Longrightarrow> children v r = {}"
  by (auto simp: view_inv_def parents_ok_def children_def)

lemma children_add_job:
  assumes "view_inv v" "r \<notin> live v"
  shows "children (add_job r parent a v) j = (if parent = Some j then insert r (children v j) else children v j)"
  using assms(2) by (auto simp: children_def)

lemma waiter_add_job [simp]: "waiter (add_job r parent a v) j = waiter v j"
  by (simp add: waiter_def)

lemma not_waiter_outside: "view_inv v \<Longrightarrow> r \<notin> live v \<Longrightarrow> \<not> waiter v r"
  using queue_member(1) by (auto simp: waiter_def)

lemma parents_add_job:
  assumes inv: "view_inv v" and r: "r \<notin> live v" and p: "\<And>p. parent = Some p \<Longrightarrow> p \<in> live v"
  shows "parents_ok (add_job r parent a v)"
proof -
  have live: "\<And>j p. j \<in> live v \<Longrightarrow> par v j = Some p \<Longrightarrow> p \<in> live v" and ac: "acyclic (parent_rel v)"
    using inv by (auto simp: view_inv_def parents_ok_def)
  have rel: "parent_rel (add_job r parent a v) = parent_rel v \<union> {(r, p) | p. parent = Some p}"
    using r by (auto simp: parent_rel_def split: if_splits)
  have "acyclic (parent_rel (add_job r parent a v))"
  proof (cases parent)
    case None
    show ?thesis using ac unfolding rel by (simp add: None)
  next
    case (Some q)
    have "q \<noteq> r" using p [OF Some] r by blast
    have "x \<in> live v" if "(q, x) \<in> (parent_rel v)\<^sup>*" for x
      using that by induction (use p [OF Some] live in \<open>auto simp: parent_rel_def\<close>)
    then have "(q, r) \<notin> (parent_rel v)\<^sup>*" using r by blast
    then show ?thesis using ac unfolding rel by (simp add: Some)
  qed
  then show ?thesis using live p by (auto simp: parents_ok_def split: if_splits)
qed

lemma view_add:
  assumes inv: "view_inv v" and r: "r \<notin> live v"
    and p: "\<And>p. parent = Some p \<Longrightarrow> p \<in> active v \<and> \<not> waiter v p"
  shows "view_inv (add_job r parent a v)"
proof -
  note parts = view_invD [OF inv]
  have rq: "r \<notin> set (m_listjQueued (queue v q))" for q using queue_member(1) [OF inv] r by blast
  have pl: "p \<in> live v" "p \<noteq> r" if "parent = Some p" for p
    using p [OF that] parts(1) r by (auto simp: sets_ok_def)
  have own: "own v r = 0" using parts(1) r by (auto simp: sets_ok_def)
  note ch = children_add_job [OF inv r] no_child_outside [OF inv r]
  have fin: "finite (children v j)" "r \<notin> children v j" for j using children_live [OF inv, of j] r by auto
  have "sets_ok (add_job r parent a v)" using parts(1) r by (auto simp: sets_ok_def)
  moreover have "parents_ok (add_job r parent a v)" using inv r pl by (intro parents_add_job) auto
  moreover have "refs_ok (add_job r parent a v)"
  proof -
    have old: "refs (add_job r parent a v) j = card (children (add_job r parent a v) j) + of_bool (waiter v j) + own v j"
      if "j \<in> live v" for j
    proof -
      have "refs v j = card (children v j) + of_bool (waiter v j) + own v j" using parts(3) that by (simp add: refs_ok_def)
      then show ?thesis using that r fin [of j] by (auto simp: ch)
    qed
    have "refs (add_job r parent a v) r = 0" by simp
    moreover have "children (add_job r parent a v) r = {}" using pl by (auto simp: ch)
    ultimately have "refs (add_job r parent a v) r = card (children (add_job r parent a v) r) + of_bool (waiter v r) + own v r"
      using own not_waiter_outside [OF inv r] by simp
    then show ?thesis using old by (simp add: refs_ok_def)
  qed
  moreover have "queues_ok (add_job r parent a v)"
    using parts(4) rq p not_waiter_outside [OF inv r] by (auto simp: queues_ok_def ch)
  moreover have "progress_ok (add_job r parent a v)"
    using parts(1,5) pl p r by (auto simp: progress_ok_def sets_ok_def)
  ultimately show ?thesis by (simp add: view_inv_def)
qed

subsection \<open>Completing a job\<close>

definition finish_job :: "job_ref \<Rightarrow> view \<Rightarrow> view" where
  "finish_job j v =
    (let v' = v\<lparr>live := live v - {j}, active := active v - {j}\<rparr>
     in case par v j of
          None \<Rightarrow> v'
        | Some p \<Rightarrow> v'\<lparr>refs := (refs v)(p := refs v p - 1),
            waiting := (if refs v p = 1 then p # waiting v else waiting v)\<rparr>)"

lemma finish_job_fields [simp]:
  "live (finish_job j v) = live v - {j}" "active (finish_job j v) = active v - {j}"
  "own (finish_job j v) = own v" "draining (finish_job j v) = draining v" "par (finish_job j v) = par v"
  "refs (finish_job j v) x = (if par v j = Some x then refs v x - 1 else refs v x)"
  "waiting (finish_job j v) = (case par v j of None \<Rightarrow> waiting v
     | Some p \<Rightarrow> if refs v p = 1 then p # waiting v else waiting v)"
  "queue (finish_job j v) = queue v" "assigned (finish_job j v) = assigned v"
  by (auto simp: finish_job_def Let_def split: option.splits)

lemma waiter_finish_job [simp]: "waiter (finish_job j v) x = waiter v x"
  by (simp add: waiter_def)

lemma children_finish_job: "children (finish_job j v) x = children v x - {j}"
  by (auto simp: children_def)

lemma view_finish:
  assumes inv: "view_inv v" and j: "j \<in> active v" "refs v j = 0" "\<not> in_queue v j"
    and p: "\<And>p. par v j = Some p \<Longrightarrow> p \<notin> active v"
  shows "view_inv (finish_job j v)"
proof -
  note parts = view_invD [OF inv]
  have jl: "j \<in> live v" "j \<notin> set (waiting v)" using parts(1) j(1) by (auto simp: sets_ok_def)
  have nochild: "children v j = {}" and own: "own v j = 0" using refs_zero [OF inv jl(1) j(2)] by auto
  have pl: "p \<in> live v" "p \<noteq> j" "j \<in> children v p" "0 < refs v p" "p \<notin> set (waiting v)" if "par v j = Some p" for p
  proof -
    show pl: "p \<in> live v" using parts(2) jl that by (auto simp: parents_ok_def)
    show "p \<noteq> j" using no_self_parent [OF inv jl(1)] that by auto
    show mem: "j \<in> children v p" using jl that by (simp add: children_def)
    have "0 < card (children v p)" using mem children_live [OF inv, of p] by (auto simp: card_gt_0_iff)
    then show "0 < refs v p" using parts(3) pl by (simp add: refs_ok_def)
    then show "p \<notin> set (waiting v)" using parts(5) by (auto simp: progress_ok_def)
  qed
  have "sets_ok (finish_job j v)"
    using parts(1) jl pl p own by (auto simp: sets_ok_def split: option.splits)
  moreover have "parents_ok (finish_job j v)"
  proof -
    have "parent_rel (finish_job j v) \<subseteq> parent_rel v" by (auto simp: parent_rel_def)
    then have "acyclic (parent_rel (finish_job j v))" using parts(2) acyclic_subset by (auto simp: parents_ok_def)
    moreover have "par v c \<noteq> Some j" if "c \<in> live v" for c using nochild that by (auto simp: children_def)
    ultimately show ?thesis using parts(2) by (auto simp: parents_ok_def)
  qed
  moreover have "refs_ok (finish_job j v)"
  proof -
    have "refs (finish_job j v) x = card (children v x - {j}) + of_bool (waiter v x) + own v x"
      if "x \<in> live v" for x
    proof -
      have x: "refs v x = card (children v x) + of_bool (waiter v x) + own v x"
        using parts(3) that by (simp add: refs_ok_def)
      show ?thesis
      proof (cases "par v j = Some x")
        case True
        have "card (children v x) = Suc (card (children v x - {j}))"
          using card_Suc_Diff1 [of "children v x" j] pl(3) [OF True] children_live [OF inv, of x] by simp
        then show ?thesis using x True by simp
      next
        case False
        then have "j \<notin> children v x" by (simp add: children_def)
        then show ?thesis using x False by simp
      qed
    qed
    then show ?thesis by (simp add: refs_ok_def children_finish_job)
  qed
  moreover have "queues_ok (finish_job j v)"
    using parts(4) j(3) by (auto simp: queues_ok_def children_finish_job in_queue_def)
  moreover have "progress_ok (finish_job j v)"
    using parts(5) pl p by (auto simp: progress_ok_def split: option.splits)
  ultimately show ?thesis by (simp add: view_inv_def)
qed

subsection \<open>Queues\<close>

abbreviation upd_view_queue :: "nat \<Rightarrow> (CJobQueue \<Rightarrow> CJobQueue) \<Rightarrow> view \<Rightarrow> view" where
  "upd_view_queue q f v \<equiv> v\<lparr>queue := (queue v)(q := f (queue v q))\<rparr>"

lemma queues_okI:
  assumes "\<And>q. queue_ok (q \<in> draining v) (queue v q)"
    and "\<And>q j. j \<in> set (m_listjQueued (queue v q)) \<Longrightarrow> j \<in> live v \<and> assigned v j = Some q"
    and "\<And>j. waiter v j \<Longrightarrow> children v j = {}"
  shows "queues_ok v"
  using assms by (simp add: queues_ok_def)

lemma queues_okD:
  assumes "view_inv v"
  shows "queue_ok (q \<in> draining v) (queue v q)" and "waiter v j \<Longrightarrow> children v j = {}"
  using assms by (auto simp: view_inv_def queues_ok_def)

text \<open>A change of a queue that leaves the waiters alone and keeps the list within what it was.\<close>

lemma view_queue_shrink:
  assumes inv: "view_inv v" and ok: "queue_ok (q \<in> draining v) jq"
    and sub: "\<And>j. j \<in> set (m_listjQueued jq) \<Longrightarrow> j \<in> live v \<and> assigned v j = Some q"
    and w: "\<And>j. waiter (v\<lparr>queue := (queue v)(q := jq)\<rparr>) j = waiter v j"
  shows "view_inv (v\<lparr>queue := (queue v)(q := jq)\<rparr>)"
proof -
  note parts = view_invD [OF inv]
  have "queues_ok (v\<lparr>queue := (queue v)(q := jq)\<rparr>)"
    by (rule queues_okI, unfold w)
      (use ok sub queues_okD [OF inv] queue_member [OF inv] in \<open>auto split: if_splits\<close>)
  then show ?thesis using parts unfolding view_inv_def refs_ok_def w
    by (simp add: sets_ok_def parents_ok_def progress_ok_def)
qed

text \<open>The first job to enter a queue becomes its main job.\<close>

lemma view_enter_main:
  assumes inv: "view_inv v" and j: "j \<in> live v" "assigned v j = Some q"
    and q: "\<not> m_fCompleted (queue v q)" "m_listjQueued (queue v q) = []"
  shows "view_inv (upd_view_queue q (\<lambda>jq. jq\<lparr>m_listjQueued := [j], m_pj := Some j\<rparr>) v)"
proof (rule view_queue_shrink [OF inv])
  show "waiter (upd_view_queue q (\<lambda>jq. jq\<lparr>m_listjQueued := [j], m_pj := Some j\<rparr>) v) x = waiter v x" for x
    using q(2) by (auto simp: waiter_def) (metis empty_iff list.set(1))
qed (use j q in \<open>auto simp: queue_ok_def\<close>)

text \<open>Another job becomes a waiter and holds a reference for it.\<close>

lemma view_enter_waiter:
  assumes inv: "view_inv v" and j: "j \<in> active v" "assigned v j = Some q" "\<not> in_queue v j" "children v j = {}"
    and q: "\<not> m_fCompleted (queue v q)" "m_listjQueued (queue v q) \<noteq> []"
  shows "view_inv (upd_view_queue q (\<lambda>jq. jq\<lparr>m_listjQueued := m_listjQueued jq @ [j]\<rparr>)
    (v\<lparr>refs := (refs v)(j := refs v j + 1)\<rparr>))" (is "view_inv ?v")
proof -
  note parts = view_invD [OF inv]
  have jl: "j \<in> live v" "j \<notin> set (waiting v)" using parts(1) j(1) by (auto simp: sets_ok_def)
  have qok: "queue_ok (q \<in> draining v) (queue v q)" using parts(4) by (simp add: queues_ok_def)
  have new: "j \<notin> set (m_listjQueued (queue v q'))" for q' using j(3) by (auto simp: in_queue_def)
  have main: "m_pj (queue v q) = Some (hd (m_listjQueued (queue v q)))"
    using qok q by (auto simp: queue_ok_def split: list.splits)
  then have notmain: "m_pj (queue v q) \<noteq> Some j" using new [of q] q(2) by auto
  have w: "waiter ?v x \<longleftrightarrow> x = j \<or> waiter v x" for x
    using notmain by (auto simp: waiter_def)
  have nw: "\<not> waiter v j" using new by (auto simp: waiter_def)
  have "queue_ok (q \<in> draining v) (queue v q\<lparr>m_listjQueued := m_listjQueued (queue v q) @ [j]\<rparr>)"
    using qok q new [of q] by (auto simp: queue_ok_def split: list.splits)
  then have "queues_ok ?v"
    by (intro queues_okI, unfold w)
      (use queues_okD [OF inv] queue_member [OF inv] j jl in \<open>auto split: if_splits\<close>)
  moreover have "refs_ok ?v" using parts(3) nw unfolding refs_ok_def w by auto
  moreover have "progress_ok ?v" using parts(5) jl by (auto simp: progress_ok_def)
  ultimately show ?thesis using parts by (simp add: view_inv_def sets_ok_def parents_ok_def)
qed

text \<open>Emptying a queue: it is marked, its main job and its waiters are taken out one by one.\<close>

lemma view_start_drain:
  assumes inv: "view_inv v"
  shows "view_inv (upd_view_queue q (\<lambda>jq. jq\<lparr>m_fCompleted := True\<rparr>) (v\<lparr>draining := insert q (draining v)\<rparr>))"
    (is "view_inv ?v")
proof -
  note parts = view_invD [OF inv]
  have w: "waiter ?v j = waiter v j" for j by (auto simp: waiter_def split: if_splits)
  have "queue_ok (q' \<in> draining ?v) (queue ?v q')" for q'
    using queues_okD(1) [OF inv, of q'] by (auto simp: queue_ok_def split: if_splits)
  then have "queues_ok ?v"
    by (intro queues_okI, unfold w) (use queues_okD(2) [OF inv] queue_member [OF inv] in \<open>auto split: if_splits\<close>)
  then show ?thesis using parts unfolding view_inv_def refs_ok_def w
    by (simp add: sets_ok_def parents_ok_def progress_ok_def)
qed

lemma view_end_drain:
  assumes inv: "view_inv v" and "m_listjQueued (queue v q) = []" "m_fCompleted (queue v q)"
  shows "view_inv (v\<lparr>draining := draining v - {q}\<rparr>)"
proof -
  note parts = view_invD [OF inv]
  have "queues_ok (v\<lparr>draining := draining v - {q}\<rparr>)"
    using parts(4) assms(2,3) by (auto simp: queues_ok_def queue_ok_def split: if_splits)
  then show ?thesis using parts by (simp add: view_inv_def view_parts)
qed

lemma view_pop_main:
  assumes inv: "view_inv v" and q: "m_listjQueued (queue v q) = j # rest" "m_pj (queue v q) = Some j"
    "m_fCompleted (queue v q)"
  shows "view_inv (upd_view_queue q (\<lambda>jq. jq\<lparr>m_listjQueued := rest\<rparr>) v)"
proof (rule view_queue_shrink [OF inv])
  have qok: "queue_ok (q \<in> draining v) (queue v q)" using view_invD(4) [OF inv] by (simp add: queues_ok_def)
  then show "queue_ok (q \<in> draining v) (queue v q\<lparr>m_listjQueued := rest\<rparr>)" using q by (auto simp: queue_ok_def)
  show "x \<in> live v \<and> assigned v x = Some q" if "x \<in> set (m_listjQueued (queue v q\<lparr>m_listjQueued := rest\<rparr>))" for x
    using queue_member [OF inv, of x q] that q(1) by simp
  show "waiter (upd_view_queue q (\<lambda>jq. jq\<lparr>m_listjQueued := rest\<rparr>) v) x = waiter v x" for x
  proof -
    have "x \<in> set rest \<and> m_pj (queue v q) \<noteq> Some x \<longleftrightarrow> x \<in> set (m_listjQueued (queue v q)) \<and> m_pj (queue v q) \<noteq> Some x"
      using q by auto
    then show ?thesis unfolding waiter_def by (simp split: if_splits) metis
  qed
qed

lemma view_pop_waiter:
  assumes inv: "view_inv v" and q: "m_listjQueued (queue v q) = j # rest" "m_pj (queue v q) \<noteq> Some j"
    "m_fCompleted (queue v q)"
  shows "view_inv (upd_view_queue q (\<lambda>jq. jq\<lparr>m_listjQueued := rest\<rparr>)
    (v\<lparr>refs := (refs v)(j := refs v j - 1), active := insert j (active v)\<rparr>))" (is "view_inv ?v")
proof -
  note parts = view_invD [OF inv]
  have jq: "j \<in> set (m_listjQueued (queue v q))" using q(1) by simp
  have jl: "j \<in> live v" and asg: "assigned v j = Some q" using queue_member [OF inv jq] by auto
  have wj: "waiter v j" using waiter_iff [OF inv jq] q(2) by simp
  have r: "0 < refs v j" using parts(3) jl wj by (simp add: refs_ok_def)
  then have nwait: "j \<notin> set (waiting v)" using parts(5) by (auto simp: progress_ok_def)
  have qok: "queue_ok (q \<in> draining v) (queue v q)" using parts(4) by (simp add: queues_ok_def)
  have only: "q' = q" if "j \<in> set (m_listjQueued (queue v q'))" for q' using queue_member(2) [OF inv that] asg by simp
  have w: "waiter ?v x \<longleftrightarrow> x \<noteq> j \<and> waiter v x" for x
  proof (cases "x = j")
    case True
    have "j \<notin> set rest" using qok q(1) by (simp add: queue_ok_def)
    then show ?thesis using True only by (auto simp: waiter_def)
  next
    case False
    then have "x \<in> set rest \<longleftrightarrow> x \<in> set (m_listjQueued (queue v q))" using q(1) by auto
    then show ?thesis using False unfolding waiter_def by (simp split: if_splits) metis
  qed
  have "queue_ok (q \<in> draining v) (queue v q\<lparr>m_listjQueued := rest\<rparr>)" using qok q by (auto simp: queue_ok_def)
  moreover have "x \<in> live v \<and> assigned v x = Some q" if "x \<in> set rest" for x
    using queue_member [OF inv, of x q] q(1) that by simp
  ultimately have "queues_ok ?v"
    by (intro queues_okI, unfold w)
      (use queues_okD [OF inv] queue_member [OF inv] in \<open>auto split: if_splits\<close>)
  moreover have "refs_ok ?v" using parts(3) wj unfolding refs_ok_def w by auto
  moreover have "progress_ok ?v" using parts(5) nwait by (auto simp: progress_ok_def)
  moreover have "sets_ok ?v" using parts(1) jl nwait by (auto simp: sets_ok_def)
  ultimately show ?thesis using parts by (simp add: view_inv_def parents_ok_def)
qed

subsection \<open>Jobs that are never woken up\<close>

text \<open>A job waits for its children, a waiter in a queue for the main job of the queue.\<close>

definition waits_for :: "view \<Rightarrow> job_ref rel" where
  "waits_for v = {(j, c). c \<in> children v j}
    \<union> {(j, m). \<exists>q. j \<in> set (m_listjQueued (queue v q)) \<and> m_pj (queue v q) = Some m \<and> m \<noteq> j}"

lemma waits_for_live:
  assumes inv: "view_inv v" and idle: "active v = {}" "draining v = {}" "waiting v = []" and j: "j \<in> live v"
  shows "\<exists>k\<in>live v. (j, k) \<in> waits_for v"
proof -
  note parts = view_invD [OF inv]
  have "0 < refs v j" using parts(5) idle j by (simp add: progress_ok_def)
  moreover have "own v j = 0" using parts(1) idle by (auto simp: sets_ok_def)
  ultimately consider "children v j \<noteq> {}" | "waiter v j"
    using parts(3) j by (fastforce simp: refs_ok_def)
  then show ?thesis
  proof cases
    case 1
    then show ?thesis using children_live [OF inv, of j] by (auto simp: waits_for_def)
  next
    case 2
    then obtain q where q: "j \<in> set (m_listjQueued (queue v q))" "m_pj (queue v q) \<noteq> Some j"
      by (auto simp: waiter_def)
    have "queue_ok False (queue v q)" using queues_okD(1) [OF inv, of q] idle by simp
    then obtain m rest where m: "m_listjQueued (queue v q) = m # rest" "m_pj (queue v q) = Some m"
      using q(1) by (auto simp: queue_ok_def split: if_splits list.splits)
    have "(j, m) \<in> waits_for v" unfolding waits_for_def using q m(2) by blast
    moreover have "m \<in> live v" using queue_member(1) [OF inv, of m q] m(1) by simp
    ultimately show ?thesis by blast
  qed
qed

lemma idle_done:
  assumes inv: "view_inv v" and idle: "active v = {}" "draining v = {}" "waiting v = []"
    and ac: "acyclic (waits_for v)"
  shows "live v = {}"
proof (rule ccontr)
  assume ne: "live v \<noteq> {}"
  let ?r = "waits_for v \<inter> live v \<times> live v"
  have "finite ?r" using view_invD(1) [OF inv] by (auto simp: sets_ok_def)
  moreover have "acyclic ?r" using ac by (rule acyclic_subset) auto
  ultimately have wf: "wf (?r\<inverse>)" by (rule finite_acyclic_wf_converse)
  obtain x where x: "x \<in> live v" using ne by blast
  have "\<exists>z\<in>live v. \<forall>y. (y, z) \<in> ?r\<inverse> \<longrightarrow> y \<notin> live v"
    using wf [unfolded wf_eq_minimal, rule_format, OF x] .
  then obtain z where z: "z \<in> live v" and min: "\<forall>y. (y, z) \<in> ?r\<inverse> \<longrightarrow> y \<notin> live v" by (rule bexE)
  obtain k where k: "k \<in> live v" "(z, k) \<in> waits_for v" using waits_for_live [OF inv idle z] by (rule bexE)
  have "(k, z) \<in> ?r\<inverse>" using k z by blast
  from min [rule_format, OF this] k(1) show False by (rule notE)
qed

end
