(* ===== verification/SchedulerCorrect.thy ===== *)
theory SchedulerCorrect
  imports SchedulerCore
begin

text \<open>
  The operations of \<^verbatim>\<open>CScheduler\<close>, \<^verbatim>\<open>CJobQueue\<close> and \<^verbatim>\<open>CJobFactory\<close> implement the steps on views.  From this
  follow the safety and liveness of the processing loop for every job code that keeps to a contract:
  it may spawn children of the running job, and it reports completion only when it has spawned none.
\<close>

subsection \<open>Representation\<close>

text \<open>
  What is known about the jobs of a job code: the queue a job may enter, which job data are allowed, and
  levels that exclude circular waiting.  A job has at most the level of its parent, less if the parent
  enters a queue, and the jobs of a queue have the level of the queue.
\<close>

record 'j job_kind =
  enters :: "'j CJob_scheme \<Rightarrow> nat option"
  allowed :: "'j CJob_scheme \<Rightarrow> bool"
  level :: "'j CJob_scheme \<Rightarrow> nat"
  queue_level :: "nat \<Rightarrow> nat"

definition below_parent :: "'j job_kind \<Rightarrow> 'j CJob_scheme \<Rightarrow> 'j CJob_scheme \<Rightarrow> bool" where
  "below_parent k c p \<longleftrightarrow> level k c \<le> level k p \<and> (enters k p \<noteq> None \<longrightarrow> level k c < level k p)"

definition job_fine :: "'j job_kind \<Rightarrow> 'j CJob_scheme \<Rightarrow> bool" where
  "job_fine k j \<longleftrightarrow> allowed k j \<and> (\<forall>q. enters k j = Some q \<longrightarrow> level k j = queue_level k q)"

definition jobs_fine :: "'j job_kind \<Rightarrow> ('j, 'w) search_scheme \<Rightarrow> job_ref set \<Rightarrow> bool" where
  "jobs_fine k s L \<longleftrightarrow> (\<forall>j\<in>L. job_fine k (job_of s j)
    \<and> (\<forall>p. m_pjParent (job_of s j) = Some p \<longrightarrow> below_parent k (job_of s j) (job_of s p)))"

text \<open>None of this depends on what the scheduler changes in a job.\<close>

definition kind_stable :: "'j job_kind \<Rightarrow> bool" where
  "kind_stable k \<longleftrightarrow> (\<forall>j p n st.
    enters k (j\<lparr>m_pjParent := p\<rparr>) = enters k j \<and> enters k (j\<lparr>m_ulpRefs := n\<rparr>) = enters k j
      \<and> enters k (j\<lparr>m_ejs := st\<rparr>) = enters k j
    \<and> allowed k (j\<lparr>m_pjParent := p\<rparr>) = allowed k j \<and> allowed k (j\<lparr>m_ulpRefs := n\<rparr>) = allowed k j
      \<and> allowed k (j\<lparr>m_ejs := st\<rparr>) = allowed k j
    \<and> level k (j\<lparr>m_pjParent := p\<rparr>) = level k j \<and> level k (j\<lparr>m_ulpRefs := n\<rparr>) = level k j
      \<and> level k (j\<lparr>m_ejs := st\<rparr>) = level k j)"

lemma kind_stableD [simp]:
  assumes "kind_stable k"
  shows "enters k (j\<lparr>m_pjParent := p\<rparr>) = enters k j" "enters k (j\<lparr>m_ulpRefs := n\<rparr>) = enters k j"
    "enters k (j\<lparr>m_ejs := st\<rparr>) = enters k j"
    "allowed k (j\<lparr>m_pjParent := p\<rparr>) = allowed k j" "allowed k (j\<lparr>m_ulpRefs := n\<rparr>) = allowed k j"
    "allowed k (j\<lparr>m_ejs := st\<rparr>) = allowed k j"
    "level k (j\<lparr>m_pjParent := p\<rparr>) = level k j" "level k (j\<lparr>m_ulpRefs := n\<rparr>) = level k j"
    "level k (j\<lparr>m_ejs := st\<rparr>) = level k j"
  using assms by (simp_all add: kind_stable_def)

text \<open>
  A state represents a view: waiting links are held from the pool of links, live jobs from the pools of
  the factory, and the counters of the scheduler count what their names say.
\<close>

definition links_ok :: "('j, 'w) search_scheme \<Rightarrow> bool" where
  "links_ok s \<longleftrightarrow> distinct (m_listjlWaiting (sched s))
    \<and> owned (m_spjl (sched s)) (set (m_listjlWaiting (sched s)))"

definition pool_ok :: "CSyncPool option \<Rightarrow> pool_obj set \<Rightarrow> bool" where
  "pool_ok po U \<longleftrightarrow> (case po of None \<Rightarrow> U = {} | Some p \<Rightarrow> owned p U)"

definition objs_of :: "EJobType \<Rightarrow> job_ref set \<Rightarrow> pool_obj set" where
  "objs_of ejt L = {obj. Job ejt obj \<in> L}"

definition pools_ok :: "('j, 'w) search_scheme \<Rightarrow> job_ref set \<Rightarrow> bool" where
  "pools_ok s L \<longleftrightarrow> (\<forall>ejt. pool_ok (m_pools (factory s) ejt) (objs_of ejt L))
    \<and> (\<forall>j\<in>L. m_ejt (job_of s j) = ref_type j)"

definition counters_ok :: "('j, 'w) search_scheme \<Rightarrow> view \<Rightarrow> bool" where
  "counters_ok s v \<longleftrightarrow> m_ulpTotal (sched s) = card (live v) \<and> m_ulpQueued (sched s) = length (waiting v)
    \<and> m_ulpRunning (sched s) = card {j. own v j \<noteq> 0}
    \<and> m_ulpStatsQueued (sched s) = m_ulpStatsDequeued (sched s) + m_ulpQueued (sched s)"

definition fields_ok :: "'j job_kind \<Rightarrow> ('j, 'w) search_scheme \<Rightarrow> view \<Rightarrow> bool" where
  "fields_ok k s v \<longleftrightarrow> (\<forall>j. par v j = m_pjParent (job_of s j) \<and> refs v j = m_ulpRefs (job_of s j)
      \<and> assigned v j = enters k (job_of s j))
    \<and> waiting v = map (link_job (sched s)) (m_listjlWaiting (sched s)) \<and> (\<forall>q. queue v q = queue_store s q)"

definition represents :: "'j job_kind \<Rightarrow> ('j, 'w) search_scheme \<Rightarrow> view \<Rightarrow> bool" where
  "represents k s v \<longleftrightarrow> links_ok s \<and> pools_ok s (live v) \<and> counters_ok s v \<and> fields_ok k s v
    \<and> jobs_fine k s (live v)"

lemmas rep_defs = represents_def links_ok_def pools_ok_def counters_ok_def fields_ok_def jobs_fine_def
  job_fine_def below_parent_def

subsection \<open>Fields of updated states\<close>

lemma upd_job_fields [simp]:
  "job_store (upd_job pj f s) j = (if j = pj then f (job_store s pj) else job_store s j)"
  "sched (upd_job pj f s) = sched s" "factory (upd_job pj f s) = factory s"
  by (simp_all add: upd_job_def)

lemma upd_job_upd_job: "upd_job pj f (upd_job pj g s) = upd_job pj (\<lambda>j. f (g j)) s"
  by (simp add: upd_job_def)

lemma upd_job_const: "upd_job pj f s = upd_job pj (\<lambda>_. f (job_of s pj)) s"
  by (simp add: upd_job_def)

lemma upd_sched_fields [simp]:
  "job_store (upd_sched g s) = job_store s" "sched (upd_sched g s) = g (sched s)" "factory (upd_sched g s) = factory s"
  by (simp_all add: upd_sched_def)

lemma upd_queue_fields [simp]:
  "job_store (upd_queue q f s) = job_store s" "sched (upd_queue q f s) = sched s"
  "factory (upd_queue q f s) = factory s"
  "queue_store (upd_queue q f s) q' = (if q' = q then f (queue_store s q) else queue_store s q')"
  by (simp_all add: upd_queue_def)

text \<open>Changes that the view does not see: the debug state of jobs and the statistics.\<close>

definition same_jobs ::
  "'j job_kind \<Rightarrow> ('j, 'w) search_scheme \<Rightarrow> ('j, 'w) search_scheme \<Rightarrow> bool" where
  "same_jobs k s t \<longleftrightarrow> sched t = sched s \<and> factory t = factory s \<and> queue_store t = queue_store s
    \<and> (\<forall>j. m_pjParent (job_of t j) = m_pjParent (job_of s j) \<and> m_ulpRefs (job_of t j) = m_ulpRefs (job_of s j)
         \<and> m_pjq (job_of t j) = m_pjq (job_of s j) \<and> m_ejt (job_of t j) = m_ejt (job_of s j)
         \<and> enters k (job_of t j) = enters k (job_of s j) \<and> allowed k (job_of t j) = allowed k (job_of s j)
         \<and> level k (job_of t j) = level k (job_of s j))"

lemma represents_same_jobs: "represents k s v \<Longrightarrow> same_jobs k s t \<Longrightarrow> represents k t v"
  by (simp add: rep_defs same_jobs_def)

lemma represents_job_state:
  assumes "represents k s v" "kind_stable k"
  shows "represents k (SetState_job pj st s) v"
  by (rule represents_same_jobs [OF assms(1)]) (use assms(2) in \<open>simp add: same_jobs_def SetState_job_def\<close>)

lemma represents_sched_cong:
  assumes "\<And>c. m_listjlWaiting (g c) = m_listjlWaiting c" "\<And>c. link_job (g c) = link_job c"
    "\<And>c. m_spjl (g c) = m_spjl c" "\<And>c. m_ulpTotal (g c) = m_ulpTotal c" "\<And>c. m_ulpQueued (g c) = m_ulpQueued c"
    "\<And>c. m_ulpRunning (g c) = m_ulpRunning c" "\<And>c. m_ulpStatsQueued (g c) = m_ulpStatsQueued c"
    "\<And>c. m_ulpStatsDequeued (g c) = m_ulpStatsDequeued c"
  shows "represents k (upd_sched g s) v = represents k s v"
  by (simp add: rep_defs assms)

lemma represents_when_tracking:
  assumes "represents k s v" and "\<And>t. represents k t v \<Longrightarrow> represents k (f t) v"
  shows "represents k (when_tracking f s) v"
  using assms by (simp add: when_tracking_def)

subsection \<open>References\<close>

lemma represents_IncRefs:
  assumes "represents k s v" "kind_stable k"
  shows "represents k (IncRefs pj s) (v\<lparr>refs := (refs v)(pj := refs v pj + 1)\<rparr>)"
  using assms by (auto simp: rep_defs IncRefs_def)

lemma represents_DecrRefs:
  assumes "represents k s v" "kind_stable k"
  shows "fst (UlpDecrRefs pj s) = refs v pj"
    and "represents k (snd (UlpDecrRefs pj s)) (v\<lparr>refs := (refs v)(pj := refs v pj - 1)\<rparr>)"
  using assms by (auto simp: rep_defs UlpDecrRefs_def)

text \<open>Ghost changes that the counters do not see.\<close>

lemma represents_ghost:
  assumes "represents k s v"
  shows "represents k s (v\<lparr>active := A\<rparr>)" "represents k s (v\<lparr>draining := D\<rparr>)"
  using assms by (simp_all add: rep_defs)

lemma represents_own:
  assumes "represents k s v" "card {j. f j \<noteq> 0} = card {j. own v j \<noteq> 0}"
  shows "represents k s (v\<lparr>own := f\<rparr>)"
  using assms by (simp add: rep_defs)

subsection \<open>Scheduling and retrieving\<close>

lemma represents_Schedule:
  assumes rep: "represents k s v" and stable: "kind_stable k"
  shows "represents k (Schedule pj s) (v\<lparr>waiting := pj # waiting v\<rparr>)"
proof -
  have "owned (m_spjl (sched s)) (set (m_listjlWaiting (sched s)))" using rep by (simp add: rep_defs)
  then obtain pjl p' where get: "PtRetrieve (m_spjl (sched s)) = (pjl, p')"
    and new: "pjl \<notin> set (m_listjlWaiting (sched s))" and own: "owned p' (insert pjl (set (m_listjlWaiting (sched s))))"
    by (rule pool.retrieve_obtain)
  let ?f = "\<lambda>c. c\<lparr>m_spjl := p', link_job := (link_job c)(pjl := pj)\<rparr>"
  let ?g = "\<lambda>c. c\<lparr>m_listjlWaiting := pjl # m_listjlWaiting c, m_ulpQueued := m_ulpQueued c + 1,
    m_ulpStatsQueued := m_ulpStatsQueued c + 1\<rparr>"
  have "represents k (upd_sched ?g (upd_sched ?f s)) (v\<lparr>waiting := pj # waiting v\<rparr>)"
    using rep new own by (simp add: rep_defs)
  moreover have "same_jobs k (upd_sched ?g (upd_sched ?f s)) (Schedule pj s)"
    using stable by (simp add: same_jobs_def Schedule_def get Let_def when_tracking_def SetState_job_def)
  ultimately show ?thesis by (rule represents_same_jobs)
qed

lemma represents_PjRetrieve:
  assumes rep: "represents k s v" and stable: "kind_stable k"
  shows "case waiting v of [] \<Rightarrow> fst (PjRetrieve s) = None \<and> represents k (snd (PjRetrieve s)) v
    | j # W \<Rightarrow> fst (PjRetrieve s) = Some j \<and> represents k (snd (PjRetrieve s)) (v\<lparr>waiting := W\<rparr>)"
proof (cases "m_listjlWaiting (sched s)")
  case Nil
  then show ?thesis using rep by (simp add: rep_defs PjRetrieve_def Let_def)
next
  case (Cons pjl rest)
  have own: "owned (Recycle pjl (m_spjl (sched s))) (set (m_listjlWaiting (sched s)) - {pjl})"
    using rep Cons by (intro pool.recycle_holds) (simp_all add: rep_defs)
  have d: "pjl \<notin> set rest" using rep Cons by (simp add: rep_defs)
  let ?W = "map (link_job (sched s)) rest"
  have W: "waiting v = link_job (sched s) pjl # ?W" using rep Cons by (simp add: rep_defs)
  let ?f = "\<lambda>c. c\<lparr>m_listjlWaiting := rest, m_ulpQueued := m_ulpQueued c - 1,
    m_ulpStatsDequeued := m_ulpStatsDequeued c + 1, m_spjl := Recycle pjl (m_spjl c)\<rparr>"
  let ?g = "\<lambda>c. c\<lparr>m_ulpStatsMaxRunnable := max (m_ulpStatsMaxRunnable c) (m_ulpQueued c),
    m_ullStatsRunnableDepth := (m_ullStatsRunnableDepth c + m_ulpQueued c) mod 2 ^ 64\<rparr>"
  have base: "represents k (upd_sched ?f (upd_sched ?g s)) (v\<lparr>waiting := ?W\<rparr>)"
    using rep own Cons d by (simp add: rep_defs)
  have "fst (PjRetrieve s) = Some (link_job (sched s) pjl)"
    by (simp add: PjRetrieve_def Let_def Cons)
  moreover have "represents k (when_tracking (\<lambda>s. upd_sched (\<lambda>c. c\<lparr>m_listjRunning := m_listjRunning c @ [link_job (sched t) pjl]\<rparr>)
      (SetState_job (link_job (sched t) pjl) EjsRunning s)) (upd_sched ?f (upd_sched ?g s))) (v\<lparr>waiting := ?W\<rparr>)" for t :: "('a, 'b) search_scheme"
    by (rule represents_when_tracking [OF base]) (simp add: represents_sched_cong represents_job_state stable)
  then have "represents k (snd (PjRetrieve s)) (v\<lparr>waiting := ?W\<rparr>)"
    by (simp add: PjRetrieve_def Let_def Cons)
  ultimately show ?thesis by (simp add: W)
qed

subsection \<open>Spawning\<close>

text \<open>
  How every job is started (\<^verbatim>\<open>ScheduleJob\<close> of the optimization jobs, \<^verbatim>\<open>FSpawn\<close> of the test job): create it,
  initialize it, add it under its parent.
\<close>

definition spawn_job ::
  "EJobType \<Rightarrow> ('j CJob_scheme \<Rightarrow> 'j CJob_scheme) \<Rightarrow> job_ref option \<Rightarrow> ('j, 'w) search_scheme \<Rightarrow> ('j, 'w) search_scheme" where
  "spawn_job ejt init pjParent s = (let (pj, s) = PjCreate ejt s; s = upd_job pj init s in Add pj pjParent s)"

definition init_ok :: "'j job_kind \<Rightarrow> ('j CJob_scheme \<Rightarrow> 'j CJob_scheme) \<Rightarrow> bool" where
  "init_ok k init \<longleftrightarrow> (\<forall>j. m_pjParent (init j) = m_pjParent j \<and> m_ulpRefs (init j) = m_ulpRefs j
    \<and> m_ejt (init j) = m_ejt j \<and> (m_pjq j = None \<longrightarrow> job_fine k (init j)))"

lemma objs_of_simps [simp]:
  "objs_of e (insert (Job ejt obj) L) = (if e = ejt then insert obj (objs_of e L) else objs_of e L)"
  "objs_of e (L - {Job ejt obj}) = (if e = ejt then objs_of e L - {obj} else objs_of e L)"
  "obj \<in> objs_of e L \<longleftrightarrow> Job e obj \<in> L"
  by (auto simp: objs_of_def)

lemma pools_PjCreate:
  assumes "pools_ok s L" and "PtRetrieve_factory ejt (factory s) = (obj, f)"
  shows "Job ejt obj \<notin> L"
    and "\<And>t. factory t = f \<Longrightarrow> (\<And>j. j \<in> insert (Job ejt obj) L \<Longrightarrow> m_ejt (job_of t j) = ref_type j) \<Longrightarrow>
      pools_ok t (insert (Job ejt obj) L)"
proof -
  define p where "p = (case m_pools (factory s) ejt of None \<Rightarrow> CSyncPool_Init (m_ulJobs (factory s)) | Some p \<Rightarrow> p)"
  have "pool_ok (m_pools (factory s) ejt) (objs_of ejt L)" using assms(1) by (simp add: pools_ok_def)
  then have own: "owned p (objs_of ejt L)" using owned_Init by (simp add: pool_ok_def p_def split: option.splits)
  obtain p' where get: "PtRetrieve p = (obj, p')" and f: "f = (factory s)\<lparr>m_pools := (m_pools (factory s))(ejt := Some p')\<rparr>"
    using assms(2) by (auto simp: PtRetrieve_factory_def p_def [symmetric] Let_def split: prod.splits)
  show "Job ejt obj \<notin> L" using pool.retrieve_new [OF own get] by simp
  have "owned p' (insert obj (objs_of ejt L))" by (rule pool.retrieve_holds [OF own get])
  then show "pools_ok t (insert (Job ejt obj) L)"
    if "factory t = f" "\<And>j. j \<in> insert (Job ejt obj) L \<Longrightarrow> m_ejt (job_of t j) = ref_type j" for t
    using assms(1) that by (simp add: pools_ok_def f pool_ok_def)
qed

lemma represents_spawn:
  assumes rep: "represents k s v" and stable: "kind_stable k" and init: "init_ok k init"
    and inv: "view_inv v" and p: "\<And>p. parent = Some p \<Longrightarrow> p \<in> live v"
    and below: "\<And>p j. parent = Some p \<Longrightarrow> below_parent k (init j) (job_of s p)"
  shows "\<exists>r a. r \<notin> live v \<and> represents k (spawn_job ejt init parent s) (add_job r parent a v)
    \<and> (\<forall>x\<in>live v. level k (job_of (spawn_job ejt init parent s) x) = level k (job_of s x))"
proof -
  obtain obj f where get: "PtRetrieve_factory ejt (factory s) = (obj, f)" by force
  let ?r = "Job ejt obj"
  have pools: "pools_ok s (live v)" using rep by (simp add: represents_def)
  note new = pools_PjCreate [OF pools get]
  have pr: "p \<noteq> ?r" if "parent = Some p" for p using p [OF that] new(1) by blast
  let ?j = "init (CJob_Reset (job_of s ?r)\<lparr>m_ejt := ejt\<rparr>)"
  have j: "m_pjParent ?j = None" "m_ulpRefs ?j = 0" "m_ejt ?j = ejt"
    using init by (simp_all add: init_ok_def CJob_Reset_def)
  define t where "t = (let s = upd_job ?r (\<lambda>_. ?j) (s\<lparr>factory := f\<rparr>);
      s = (case parent of Some p \<Rightarrow> IncRefs p s | None \<Rightarrow> s)
    in upd_sched (\<lambda>c. c\<lparr>m_ulpTotal := m_ulpTotal c + 1\<rparr>) (SetParent ?r parent s))"
  have "upd_job ?r init (upd_job ?r (\<lambda>j. j\<lparr>m_ejt := ejt\<rparr>) (upd_job ?r CJob_Reset (s\<lparr>factory := f\<rparr>)))
    = upd_job ?r (\<lambda>_. ?j) (s\<lparr>factory := f\<rparr>)"
    unfolding upd_job_upd_job by (subst upd_job_const) simp
  then have sp: "spawn_job ejt init parent s = Schedule ?r t"
    by (cases parent) (simp_all add: spawn_job_def PjCreate_def get Let_def Add_def t_def)
  have fin: "finite (live v)" using view_invD(1) [OF inv] by (simp add: sets_ok_def)
  let ?v = "add_job ?r parent (enters k ?j) v"
  have tj: "job_of t ?r = ?j\<lparr>m_pjParent := parent\<rparr>"
    "x \<noteq> ?r \<Longrightarrow> job_of t x = (if parent = Some x then (job_of s x)\<lparr>m_ulpRefs := m_ulpRefs (job_of s x) + 1\<rparr> else job_of s x)" for x
    using pr by (auto simp: t_def SetParent_def IncRefs_def Let_def split: option.splits)
  have tf: "factory t = f" "sched t = (sched s)\<lparr>m_ulpTotal := m_ulpTotal (sched s) + 1\<rparr>" "queue_store t = queue_store s"
    by (simp_all add: t_def SetParent_def IncRefs_def Let_def upd_job_def split: option.splits)
  have "m_ejt (job_of t x) = ref_type x" if "x \<in> insert ?r (live v)" for x
    using pools j that by (cases "x = ?r") (simp_all add: pools_ok_def tj)
  then have "pools_ok t (insert ?r (live v))" by (rule new(2) [OF tf(1)])
  moreover have "counters_ok t (?v\<lparr>waiting := waiting v\<rparr>)"
    using rep new(1) fin by (simp add: rep_defs tf(2))
  moreover have "links_ok t" using rep by (simp add: rep_defs tf(2))
  moreover have "fields_ok k t (?v\<lparr>waiting := waiting v\<rparr>)"
  proof -
    have "par ?v x = m_pjParent (job_of t x) \<and> refs ?v x = m_ulpRefs (job_of t x) \<and> assigned ?v x = enters k (job_of t x)" for x
      using rep stable j by (cases "x = ?r") (simp_all add: represents_def fields_ok_def tj)
    then show ?thesis using rep by (simp add: represents_def fields_ok_def tf(2,3))
  qed
  moreover have "jobs_fine k t (insert ?r (live v))"
  proof -
    have old: "jobs_fine k s (live v)" and par: "\<And>x. par v x = m_pjParent (job_of s x)"
      using rep by (simp_all add: represents_def fields_ok_def)
    have data: "enters k (job_of t x) = enters k (job_of s x)" "allowed k (job_of t x) = allowed k (job_of s x)"
      "level k (job_of t x) = level k (job_of s x)" "m_pjParent (job_of t x) = m_pjParent (job_of s x)" if "x \<noteq> ?r" for x
      using stable that by (simp_all add: tj)
    have keep: "job_fine k (job_of t x) \<and> (\<forall>p. m_pjParent (job_of t x) = Some p \<longrightarrow> below_parent k (job_of t x) (job_of t p))"
      if "x \<in> live v" for x
    proof -
      have "x \<noteq> ?r" using that new(1) by blast
      moreover have "p \<noteq> ?r" if "m_pjParent (job_of s x) = Some p" for p
        using view_invD(2) [OF inv] \<open>x \<in> live v\<close> that new(1) by (auto simp: parents_ok_def par)
      ultimately show ?thesis using old that
        by (auto simp: jobs_fine_def job_fine_def below_parent_def data)
    qed
    have "job_fine k (job_of t ?r)" using init stable by (simp add: tj job_fine_def init_ok_def CJob_Reset_def)
    moreover have "below_parent k (job_of t ?r) (job_of t p)" if "parent = Some p" for p
      using below [OF that, of "CJob_Reset (job_of s ?r)\<lparr>m_ejt := ejt\<rparr>"] data [OF pr [OF that]] stable
      by (simp add: below_parent_def tj(1))
    ultimately show ?thesis using keep by (simp add: jobs_fine_def tj(1))
  qed
  ultimately have "represents k t (?v\<lparr>waiting := waiting v\<rparr>)" by (simp add: represents_def)
  then have "represents k (spawn_job ejt init parent s) (?v\<lparr>waiting := waiting v\<rparr>\<lparr>waiting := ?r # waiting v\<rparr>)"
    unfolding sp using represents_Schedule [OF _ stable, of t] by fastforce
  moreover have "?v\<lparr>waiting := waiting v\<rparr>\<lparr>waiting := ?r # waiting v\<rparr> = ?v" by (simp add: add_job_def)
  moreover have "level k (job_of (spawn_job ejt init parent s) x) = level k (job_of s x)" if "x \<in> live v" for x
  proof -
    have ne: "x \<noteq> ?r" using that new(1) by blast
    then have "level k (job_of t x) = level k (job_of s x)" using stable by (simp add: tj)
    then show ?thesis using stable ne
      by (simp add: sp Schedule_def Let_def case_prod_beta when_tracking_def SetState_job_def)
  qed
  ultimately show ?thesis using new(1) by (intro exI [of _ ?r] exI [of _ "enters k ?j"]) simp
qed

subsection \<open>Completion\<close>

definition wake :: "job_ref \<Rightarrow> view \<Rightarrow> view" where
  "wake j v = (case par v j of None \<Rightarrow> v
    | Some p \<Rightarrow> v\<lparr>refs := (refs v)(p := refs v p - 1), waiting := (if refs v p = 1 then p # waiting v else waiting v)\<rparr>)"

lemma finish_job_wake: "finish_job j v = (wake j v)\<lparr>live := live v - {j}, active := active v - {j}\<rparr>"
  by (simp add: finish_job_def wake_def Let_def split: option.split)

lemma wake_fields [simp]: "live (wake j v) = live v" "own (wake j v) = own v" "active (wake j v) = active v"
  by (simp_all add: wake_def split: option.split)

lemma represents_ResumeParent:
  assumes rep: "represents k s v" and stable: "kind_stable k"
  shows "represents k (ResumeParent j s) (wake j v)"
proof (cases "par v j")
  case None
  then show ?thesis using rep by (simp add: ResumeParent_def wake_def rep_defs)
next
  case (Some p)
  have par: "m_pjParent (job_of s j) = Some p" using rep Some by (simp add: rep_defs)
  let ?s = "snd (UlpDecrRefs p s)" and ?v = "v\<lparr>refs := (refs v)(p := refs v p - 1)\<rparr>"
  have dec: "fst (UlpDecrRefs p s) = refs v p" "represents k ?s ?v"
    using represents_DecrRefs [OF rep stable, of p] by auto
  have fr: "FResumeParent j s = (refs v p = 1, ?s)"
    using dec(1) by (simp add: FResumeParent_def par case_prod_beta) (metis One_nat_def)
  show ?thesis
  proof (cases "refs v p = 1")
    case True
    let ?t = "when_tracking (upd_sched (\<lambda>c. c\<lparr>m_listjSuspended := remove1 p (m_listjSuspended c)\<rparr>)) ?s"
    have "represents k ?t ?v"
      by (rule represents_when_tracking [OF dec(2)]) (simp add: represents_sched_cong)
    then have "represents k (Schedule p ?t) (?v\<lparr>waiting := p # waiting v\<rparr>)"
      using represents_Schedule [OF _ stable, of ?t ?v p] by simp
    then show ?thesis using True
      by (simp add: ResumeParent_def par fr Let_def Resume_def wake_def Some represents_sched_cong)
  next
    case False
    then show ?thesis using dec(2) by (simp add: ResumeParent_def par fr wake_def Some)
  qed
qed

lemma pools_Release:
  assumes "pools_ok s L" and "j \<in> L"
  shows "pools_ok (Release j s) (L - {j})"
proof -
  obtain ejt obj where j: "j = Job ejt obj" by (cases j)
  have ty: "m_ejt (job_of s j) = ejt" using assms by (auto simp: pools_ok_def j)
  have ok: "pool_ok (m_pools (factory s) ejt) (objs_of ejt L)" using assms(1) by (simp add: pools_ok_def)
  moreover have "obj \<in> objs_of ejt L" using assms(2) by (simp add: j)
  ultimately obtain p where p: "m_pools (factory s) ejt = Some p" "owned p (objs_of ejt L)"
    by (auto simp: pool_ok_def split: option.splits)
  have "owned (Recycle obj p) (objs_of ejt L - {obj})"
    by (rule pool.recycle_holds [OF p(2)]) fact
  then show ?thesis using assms(1) ty p(1)
    by (simp add: pools_ok_def Release_def Let_def j pool_ok_def)
qed

lemma sched_Release [simp]: "sched (Release j s) = sched s" "job_store (Release j s) = job_store s"
  by (simp_all add: Release_def Let_def)

lemma represents_finish:
  assumes rep: "represents k s v" and stable: "kind_stable k" and inv: "view_inv v" and j: "j \<in> live v"
    and g: "\<And>c. g c = c\<lparr>m_ulpTotal := m_ulpTotal c - 1, m_ulpStatsCompleted := m_ulpStatsCompleted c + 1,
      m_ulpStatsCompletedQueued := f c\<rparr>"
  shows "represents k (Release j (upd_sched g (ResumeParent j s))) (finish_job j v)"
proof -
  have w: "represents k (ResumeParent j s) (wake j v)" by (rule represents_ResumeParent [OF rep stable])
  have fin: "finite (live v)" using view_invD(1) [OF inv] by (simp add: sets_ok_def)
  have "pools_ok (upd_sched g (ResumeParent j s)) (live v)" using w by (simp add: rep_defs)
  then have "pools_ok (Release j (upd_sched g (ResumeParent j s))) (live v - {j})" by (rule pools_Release [OF _ j])
  then show ?thesis using w j fin unfolding finish_job_wake
    by (simp add: represents_def links_ok_def counters_ok_def fields_ok_def jobs_fine_def g)
qed

lemma represents_Complete:
  assumes rep: "represents k s v" and stable: "kind_stable k" and inv: "view_inv v" and j: "j \<in> live v"
  shows "represents k (Release j (Complete_job j s)) (finish_job j v)"
    and "represents k (Release j (CompleteQueued j s)) (finish_job j v)"
proof -
  let ?t = "when_tracking (SetState_job j EjsCompleted) s"
  have "represents k ?t v"
    by (rule represents_when_tracking [OF rep]) (rule represents_job_state [OF _ stable])
  from represents_finish [OF this stable inv j, of _ m_ulpStatsCompletedQueued]
  show "represents k (Release j (Complete_job j s)) (finish_job j v)"
    by (simp add: Complete_job_def Let_def)
  let ?u = "when_tracking (\<lambda>s. SetState_job j EjsCompleted
    (upd_sched (\<lambda>c. c\<lparr>m_listjSuspended := remove1 j (m_listjSuspended c)\<rparr>) s)) s"
  have "represents k ?u v"
    by (rule represents_when_tracking [OF rep], rule represents_job_state [OF _ stable]) (simp add: represents_sched_cong)
  from represents_finish [OF this stable inv j, of _ "\<lambda>c. m_ulpStatsCompletedQueued c + 1"]
  show "represents k (Release j (CompleteQueued j s)) (finish_job j v)"
    by (simp add: CompleteQueued_def Let_def)
qed

subsection \<open>Notification of a queue\<close>

lemma represents_upd_queue:
  "represents k s v \<Longrightarrow> represents k (upd_queue q f s) (upd_view_queue q f v)"
  by (simp add: rep_defs)

text \<open>No job that is being executed has children or waits in a queue.\<close>

definition quiet :: "view \<Rightarrow> bool" where
  "quiet v \<longleftrightarrow> (\<forall>p\<in>active v. children v p = {} \<and> \<not> waiter v p)"

definition popped :: "nat \<Rightarrow> job_ref \<Rightarrow> job_ref list \<Rightarrow> view \<Rightarrow> view" where
  "popped q w rest v = upd_view_queue q (\<lambda>jq. jq\<lparr>m_listjQueued := rest\<rparr>)
    (v\<lparr>refs := (refs v)(w := refs v w - 1), active := insert w (active v)\<rparr>)"

lemma waiter_facts:
  assumes inv: "view_inv v" and quiet: "quiet v" and w: "w \<in> set (m_listjQueued (queue v q))" "m_pj (queue v q) \<noteq> Some w"
  shows "w \<in> live v" "w \<notin> active v" "refs v w = 1" "own v w = 0" "children v w = {}"
proof -
  show live: "w \<in> live v" by (rule queue_member(1) [OF inv w(1)])
  have wt: "waiter v w" using waiter_iff [OF inv w(1)] w(2) by simp
  show act: "w \<notin> active v" using quiet wt by (auto simp: quiet_def)
  show own: "own v w = 0" using view_invD(1) [OF inv] act by (auto simp: sets_ok_def)
  show ch: "children v w = {}" by (rule queues_okD(2) [OF inv wt])
  show "refs v w = 1" using view_invD(3) [OF inv] live wt own ch by (simp add: refs_ok_def)
qed

lemma finish_popped:
  assumes inv: "view_inv v" and quiet: "quiet v" and q: "m_fCompleted (queue v q)"
    and l: "m_listjQueued (queue v q) = w # rest" and m: "m_pj (queue v q) \<noteq> Some w"
  shows "view_inv (finish_job w (popped q w rest v))" and "quiet (finish_job w (popped q w rest v))"
    and "active (finish_job w (popped q w rest v)) = active v"
proof -
  have wl: "w \<in> set (m_listjQueued (queue v q))" using l by simp
  note w = waiter_facts [OF inv quiet wl m]
  have pinv: "view_inv (popped q w rest v)" unfolding popped_def by (rule view_pop_waiter [OF inv l m q])
  have ch: "children (popped q w rest v) x = children v x" for x by (simp add: popped_def)
  have only: "q' = q" if "w \<in> set (m_listjQueued (queue v q'))" for q'
    using queue_member(2) [OF inv that] queue_member(2) [OF inv wl] by simp
  have "distinct (w # rest)" using queues_okD(1) [OF inv, of q] l by (simp add: queue_ok_def)
  then have "\<not> in_queue (popped q w rest v) w" using only by (auto simp: in_queue_def popped_def split: if_splits)
  moreover have "p \<notin> active (popped q w rest v)" if "par (popped q w rest v) w = Some p" for p
  proof
    assume "p \<in> active (popped q w rest v)"
    moreover have "w \<in> children v p" using that w(1) by (simp add: children_def popped_def)
    ultimately show False using quiet w(5) no_self_parent [OF inv w(1)] that by (auto simp: quiet_def popped_def)
  qed
  ultimately show inv': "view_inv (finish_job w (popped q w rest v))"
    by (intro view_finish [OF pinv]) (simp_all add: popped_def w(3))
  show act: "active (finish_job w (popped q w rest v)) = active v" using w(2) by (simp add: popped_def)
  have "m_pj (queue (popped q w rest v) q') = m_pj (queue v q')"
    and "set (m_listjQueued (queue (popped q w rest v) q')) \<subseteq> set (m_listjQueued (queue v q'))" for q'
    using l by (auto simp: popped_def)
  then have "waiter (popped q w rest v) x \<Longrightarrow> waiter v x" for x unfolding waiter_def by (metis subsetD)
  then show "quiet (finish_job w (popped q w rest v))"
    using quiet unfolding quiet_def act children_finish_job ch waiter_finish_job by blast
qed

definition drained :: "nat \<Rightarrow> view \<Rightarrow> view \<Rightarrow> bool" where
  "drained q v v' \<longleftrightarrow> view_inv v' \<and> quiet v' \<and> active v' = active v \<and> own v' = own v \<and> draining v' = draining v
    \<and> live v' \<subseteq> live v \<and> assigned v' = assigned v \<and> m_listjQueued (queue v' q) = [] \<and> m_fCompleted (queue v' q)"

lemma notify_waiters:
  assumes "kind_stable k"
  shows "represents k s v \<Longrightarrow> view_inv v \<Longrightarrow> quiet v \<Longrightarrow> m_fCompleted (queue v q) \<Longrightarrow>
    m_listjQueued (queue v q) = ws \<Longrightarrow> \<forall>w\<in>set ws. m_pj (queue v q) \<noteq> Some w \<Longrightarrow>
    \<exists>v'. represents k (notify_loop q s) v' \<and> drained q v v'"
proof (induction ws arbitrary: s v)
  case Nil
  then have "notify_loop q s = s" by (subst notify_loop.simps) (simp add: rep_defs)
  then show ?case using Nil by (auto simp: drained_def)
next
  case (Cons w rest)
  note rep = Cons.prems(1) and inv = Cons.prems(2) and quiet = Cons.prems(3) and compl = Cons.prems(4) and l = Cons.prems(5)
  have m: "m_pj (queue v q) \<noteq> Some w" using Cons.prems(6) by simp
  have wl: "w \<in> set (m_listjQueued (queue v q))" using l by simp
  note w = waiter_facts [OF inv quiet wl m]
  let ?s1 = "upd_queue q (\<lambda>jq. jq\<lparr>m_listjQueued := rest\<rparr>) s"
  let ?v1 = "upd_view_queue q (\<lambda>jq. jq\<lparr>m_listjQueued := rest\<rparr>) v"
  let ?s2 = "snd (UlpDecrRefs w ?s1)" and ?v3 = "finish_job w (popped q w rest v)"
  let ?s3 = "Release w (CompleteQueued w ?s2)"
  have r1: "represents k ?s1 ?v1" by (rule represents_upd_queue [OF rep])
  have d: "fst (UlpDecrRefs w ?s1) = 1" using represents_DecrRefs(1) [OF r1 assms, of w] w(3) by simp
  have pv: "popped q w rest v = (?v1\<lparr>refs := (refs ?v1)(w := refs ?v1 w - 1)\<rparr>)\<lparr>active := insert w (active v)\<rparr>"
    by (simp add: popped_def)
  have r2: "represents k ?s2 (popped q w rest v)"
    unfolding pv by (rule represents_ghost(1) [OF represents_DecrRefs(2) [OF r1 assms]])
  have pinv: "view_inv (popped q w rest v)" unfolding popped_def by (rule view_pop_waiter [OF inv l m compl])
  have r3: "represents k ?s3 ?v3"
    by (rule represents_Complete(2) [OF r2 assms pinv]) (simp add: popped_def w(1))
  have step: "notify_loop q s = notify_loop q ?s3"
  proof -
    have "m_listjQueued (queue_store s q) = w # rest" using rep l by (simp add: rep_defs)
    then show ?thesis by (subst notify_loop.simps) (simp add: Let_def case_prod_beta d)
  qed
  note fin = finish_popped [OF inv quiet compl l m]
  have "\<exists>v'. represents k (notify_loop q ?s3) v' \<and> drained q ?v3 v'"
    by (rule Cons.IH [OF r3 fin(1,2)]) (use compl Cons.prems(6) in \<open>simp_all add: popped_def\<close>)
  then show ?case using fin(3) unfolding step by (auto simp: drained_def popped_def)
qed

text \<open>The state of the view while a job is executed, with the references its execution holds.\<close>

definition executing :: "job_ref \<Rightarrow> nat \<Rightarrow> view \<Rightarrow> bool" where
  "executing pj n v \<longleftrightarrow> view_inv v \<and> active v = {pj} \<and> draining v = {} \<and> own v pj = n"

lemma executing_live: "executing pj n v \<Longrightarrow> pj \<in> live v"
  by (auto simp: executing_def view_inv_def sets_ok_def)

lemma executing_own: "executing pj n v \<Longrightarrow> j \<noteq> pj \<Longrightarrow> own v j = 0"
  by (auto simp: executing_def view_inv_def sets_ok_def)

lemma executing_refs:
  assumes "executing pj n v" "children v pj = {}" "\<not> waiter v pj"
  shows "refs v pj = n"
  using assms executing_live [OF assms(1)] by (simp add: executing_def view_inv_def refs_ok_def)

lemma own_count: "0 < n \<Longrightarrow> (\<And>j. j \<noteq> pj \<Longrightarrow> f j = 0) \<Longrightarrow> f pj = n \<Longrightarrow> {j. f j \<noteq> (0::nat)} = {pj}"
  by (metis (mono_tags, lifting) Collect_cong less_numeral_extra(3) singleton_conv)

lemma represents_own_pj:
  assumes "represents k s v" "executing pj n v" "0 < n" "0 < m"
  shows "represents k s (v\<lparr>own := (own v)(pj := m)\<rparr>)"
proof (rule represents_own [OF assms(1)])
  have "{j. own v j \<noteq> 0} = {pj}" using executing_own [OF assms(2)] assms(2,3) by (intro own_count) (auto simp: executing_def)
  moreover have "{j. ((own v)(pj := m)) j \<noteq> 0} = {pj}"
    using executing_own [OF assms(2)] assms(4) by (intro own_count [of m]) auto
  ultimately show "card {j. ((own v)(pj := m)) j \<noteq> 0} = card {j. own v j \<noteq> 0}" by simp
qed

lemma own_refs_swap: "v\<lparr>own := f, refs := g\<rparr> = v\<lparr>refs := g, own := f\<rparr>" for v :: view
  by simp

lemma queue_refs_swap: "v\<lparr>queue := f, refs := g\<rparr> = v\<lparr>refs := g, queue := f\<rparr>" for v :: view
  by simp

lemma executing_inc:
  assumes "represents k s v" "kind_stable k" "executing pj n v" "0 < n"
  shows "\<exists>v'. represents k (IncRefs pj s) v' \<and> executing pj (Suc n) v' \<and> v' = v\<lparr>refs := (refs v)(pj := refs v pj + 1), own := (own v)(pj := Suc n)\<rparr>"
proof -
  let ?v = "v\<lparr>refs := (refs v)(pj := refs v pj + 1), own := (own v)(pj := Suc n)\<rparr>"
  have "represents k (IncRefs pj s) (v\<lparr>own := (own v)(pj := Suc n)\<rparr>\<lparr>refs := (refs v)(pj := refs v pj + 1)\<rparr>)"
    using represents_IncRefs [OF represents_own_pj [OF assms(1,3,4), of "Suc n"] assms(2), of pj] by simp
  moreover have "view_inv ?v" using view_inc [of v pj] assms(3) by (simp add: executing_def)
  ultimately show ?thesis using assms(3) by (simp add: executing_def own_refs_swap)
qed

lemma executing_dec:
  assumes "represents k s v" "kind_stable k" "executing pj (Suc n) v" "0 < n"
  shows "\<exists>v'. represents k (snd (UlpDecrRefs pj s)) v' \<and> executing pj n v' \<and> v' = v\<lparr>refs := (refs v)(pj := refs v pj - 1), own := (own v)(pj := n)\<rparr>"
proof -
  let ?v = "v\<lparr>refs := (refs v)(pj := refs v pj - 1), own := (own v)(pj := n)\<rparr>"
  have "represents k (snd (UlpDecrRefs pj s)) (v\<lparr>own := (own v)(pj := n)\<rparr>\<lparr>refs := (refs v)(pj := refs v pj - 1)\<rparr>)"
    using represents_DecrRefs(2) [OF represents_own_pj [OF assms(1,3) zero_less_Suc assms(4)] assms(2), of pj] by simp
  moreover have "view_inv ?v" using view_dec [of v pj] assms(3) by (simp add: executing_def)
  ultimately show ?thesis using assms(3) by (simp add: executing_def own_refs_swap)
qed

lemma notify_main:
  assumes rep: "represents k s v" and stable: "kind_stable k" and ex: "executing pj 2 v"
    and ch: "children v pj = {}" and q: "m_pj (queue v q) = Some pj" "\<not> m_fCompleted (queue v q)"
    and l: "m_listjQueued (queue v q) = pj # rest"
  shows "\<exists>v'. represents k (NotifyCompleted q s) v' \<and> executing pj 1 v' \<and> children v' pj = {} \<and> \<not> in_queue v' pj
    \<and> live v' \<subseteq> live v"
proof -
  have inv: "view_inv v" and act: "active v = {pj}" and dr: "draining v = {}" and own: "own v pj = 2"
    using ex by (auto simp: executing_def)
  have pjq: "pj \<in> set (m_listjQueued (queue v q))" using l by simp
  have nw: "\<not> waiter v pj" using waiter_iff [OF inv pjq] q(1) by simp
  have refs: "refs v pj = 2" by (rule executing_refs [OF ex ch nw])
  let ?s1 = "upd_queue q (\<lambda>jq. jq\<lparr>m_fCompleted := True\<rparr>) s"
  let ?s2 = "upd_queue q (\<lambda>jq. jq\<lparr>m_listjQueued := rest\<rparr>) ?s1"
  let ?s3 = "snd (UlpDecrRefs pj ?s2)"
  let ?v1 = "upd_view_queue q (\<lambda>jq. jq\<lparr>m_fCompleted := True\<rparr>) (v\<lparr>draining := insert q (draining v)\<rparr>)"
  let ?v2 = "upd_view_queue q (\<lambda>jq. jq\<lparr>m_listjQueued := rest\<rparr>) ?v1"
  let ?v3 = "?v2\<lparr>refs := (refs v)(pj := 1), own := (own v)(pj := 1)\<rparr>"
  have r1: "represents k ?s1 ?v1" by (rule represents_upd_queue [OF represents_ghost(2) [OF rep]])
  have i1: "view_inv ?v1" by (rule view_start_drain [OF inv])
  have r2: "represents k ?s2 ?v2" by (rule represents_upd_queue [OF r1])
  have i2: "view_inv ?v2" by (rule view_pop_main [OF i1]) (use l q in simp_all)
  have d: "fst (UlpDecrRefs pj ?s2) = 2" using represents_DecrRefs(1) [OF r2 stable, of pj] refs by simp
  have "view_inv (?v2\<lparr>refs := (refs ?v2)(pj := refs ?v2 pj - 1), own := (own ?v2)(pj := own ?v2 pj - 1)\<rparr>)"
    by (rule view_dec [OF i2]) (simp add: own)
  then have i3: "view_inv ?v3" using refs own by simp
  have o0: "\<And>j. j \<noteq> pj \<Longrightarrow> own v j = 0" by (rule executing_own [OF ex])
  have "represents k ?s3 (?v2\<lparr>refs := (refs ?v2)(pj := refs ?v2 pj - 1)\<rparr>)" by (rule represents_DecrRefs(2) [OF r2 stable])
  then have "represents k ?s3 ((?v2\<lparr>refs := (refs ?v2)(pj := refs ?v2 pj - 1)\<rparr>)\<lparr>own := (own v)(pj := 1)\<rparr>)"
    by (rule represents_own) (use own_count [of 1 pj "(own v)(pj := 1)"] own_count [of 2 pj "own v"] o0 own in simp)
  then have r3: "represents k ?s3 ?v3" using refs by simp
  have w3: "waiter ?v3 x \<longleftrightarrow> waiter ?v2 x" for x by (simp add: waiter_def)
  have nw3: "\<not> waiter ?v3 pj"
  proof -
    have "q' = q" if "pj \<in> set (m_listjQueued (queue v q'))" for q'
      using queue_member(2) [OF inv that] queue_member(2) [OF inv pjq] by simp
    moreover have "pj \<notin> set rest" using queues_okD(1) [OF inv, of q] l by (simp add: queue_ok_def)
    ultimately show ?thesis by (auto simp: waiter_def split: if_splits)
  qed
  have quiet: "quiet ?v3" using nw3 ch by (simp add: quiet_def act)
  have "\<forall>w\<in>set rest. m_pj (queue v q) \<noteq> Some w"
    using queues_okD(1) [OF inv, of q] l q(1) by (auto simp: queue_ok_def)
  then obtain v' where r4: "represents k (notify_loop q ?s3) v'" and dv: "drained q ?v3 v'"
    using notify_waiters [OF stable r3 i3 quiet, of q rest] by auto
  have step: "NotifyCompleted q s = notify_loop q ?s3"
  proof -
    have "m_listjQueued (queue_store ?s1 q) = pj # rest" using rep l by (simp add: rep_defs)
    then show ?thesis unfolding NotifyCompleted_def
      by (subst notify_loop.simps) (simp add: Let_def case_prod_beta d)
  qed
  let ?w = "v'\<lparr>draining := draining v' - {q}\<rparr>"
  have "view_inv ?w" using dv by (intro view_end_drain) (auto simp: drained_def)
  moreover have "represents k (NotifyCompleted q s) ?w" unfolding step by (rule represents_ghost(2) [OF r4])
  moreover have "\<not> in_queue ?w pj"
  proof
    assume "in_queue ?w pj"
    then obtain q' where q': "pj \<in> set (m_listjQueued (queue v' q'))" by (auto simp: in_queue_def)
    have iv: "view_inv v'" and as: "assigned v' = assigned v" and e: "m_listjQueued (queue v' q) = []"
      using dv by (auto simp: drained_def)
    have "assigned v pj = Some q'" using queue_member(2) [OF iv q'] as by simp
    then show False using queue_member(2) [OF inv pjq] e q' by simp
  qed
  moreover have "quiet v'" "active v' = {pj}" using dv act by (auto simp: drained_def)
  ultimately show ?thesis using dv dr
    by (intro exI [of _ ?w]) (auto simp: executing_def drained_def quiet_def)
qed

subsection \<open>Entering a queue\<close>

text \<open>A job that is executed and not a waiter either becomes or is the main job, or it becomes a waiter.\<close>

definition entered :: "nat \<Rightarrow> job_ref \<Rightarrow> EJobQueueResult \<Rightarrow> view \<Rightarrow> view \<Rightarrow> bool" where
  "entered q pj r v v' \<longleftrightarrow> live v' = live v \<and> waiting v' = waiting v \<and> (case r of
      EjqrMain \<Rightarrow> executing pj 2 v' \<and> children v' pj = {} \<and> m_pj (queue v' q) = Some pj \<and> \<not> m_fCompleted (queue v' q)
        \<and> assigned v' pj = Some q \<and> (\<exists>rest. m_listjQueued (queue v' q) = pj # rest)
    | EjqrQueued \<Rightarrow> executing pj 1 v' \<and> 0 < refs v' pj - 1
    | EjqrCompleted \<Rightarrow> executing pj 1 v' \<and> children v' pj = {} \<and> \<not> in_queue v' pj)"

lemma EjqrAdd_main_again:
  assumes rep: "represents k s v" and stable: "kind_stable k" and ex: "executing pj 1 v"
    and ch: "children v pj = {}" and asg: "assigned v pj = Some q"
    and q: "\<not> m_fCompleted (queue v q)" "m_pj (queue v q) = Some pj"
  shows "\<exists>v'. represents k (IncRefs pj s) v' \<and> entered q pj EjqrMain v v'"
proof -
  have "queue_ok False (queue v q)" using queues_okD(1) [of v q] ex by (simp add: executing_def)
  then obtain rest where "m_listjQueued (queue v q) = pj # rest"
    using q by (auto simp: queue_ok_def split: list.splits)
  then show ?thesis using executing_inc [OF rep stable ex] ch q asg by (auto simp: entered_def numeral_2_eq_2)
qed

lemma EjqrAdd_main_first:
  assumes rep: "represents k s v" and stable: "kind_stable k" and ex: "executing pj 1 v"
    and ch: "children v pj = {}" and asg: "assigned v pj = Some q"
    and q: "\<not> m_fCompleted (queue v q)" "m_listjQueued (queue v q) = []"
  shows "\<exists>v'. represents k (IncRefs pj (upd_queue q (\<lambda>jq. jq\<lparr>m_listjQueued := [pj], m_pj := Some pj\<rparr>) s)) v'
    \<and> entered q pj EjqrMain v v'"
proof -
  let ?f = "\<lambda>jq. jq\<lparr>m_listjQueued := [pj], m_pj := Some pj\<rparr>"
  have "view_inv (upd_view_queue q ?f v)"
    using view_enter_main [of v pj q] ex executing_live [OF ex] asg q by (simp add: executing_def)
  then have ex': "executing pj 1 (upd_view_queue q ?f v)" using ex by (simp add: executing_def)
  show ?thesis
    using executing_inc [OF represents_upd_queue [OF rep, of q ?f] stable ex'] ch q asg
    by (auto simp: entered_def numeral_2_eq_2)
qed

lemma EjqrAdd_waiter:
  assumes rep: "represents k s v" and stable: "kind_stable k" and ex: "executing pj 1 v"
    and ch: "children v pj = {}" and asg: "assigned v pj = Some q" and nin: "\<not> in_queue v pj"
    and q: "\<not> m_fCompleted (queue v q)" "m_listjQueued (queue v q) \<noteq> []"
  shows "\<exists>v'. represents k (IncRefs pj (upd_queue q (\<lambda>jq. jq\<lparr>m_listjQueued := m_listjQueued jq @ [pj]\<rparr>) s)) v'
    \<and> entered q pj EjqrQueued v v'"
proof -
  let ?f = "\<lambda>jq. jq\<lparr>m_listjQueued := m_listjQueued jq @ [pj]\<rparr>"
  let ?v = "upd_view_queue q ?f (v\<lparr>refs := (refs v)(pj := refs v pj + 1)\<rparr>)"
  have inv: "view_inv v" and act: "pj \<in> active v" using ex by (auto simp: executing_def)
  have "view_inv ?v" by (rule view_enter_waiter [OF inv act asg nin ch q])
  then have "executing pj 1 ?v" using ex by (simp add: executing_def)
  moreover have "represents k (IncRefs pj (upd_queue q ?f s)) ?v"
    using represents_IncRefs [OF represents_upd_queue [OF rep, of q ?f] stable, of pj]
    by (simp add: queue_refs_swap)
  moreover have "\<not> waiter v pj" using nin by (auto simp: waiter_def in_queue_def)
  then have "refs v pj = 1" by (rule executing_refs [OF ex ch])
  ultimately show ?thesis by (intro exI [of _ ?v]) (simp add: entered_def)
qed

lemma EjqrAdd_entered:
  assumes rep: "represents k s v" and stable: "kind_stable k" and ex: "executing pj 1 v"
    and ch: "children v pj = {}" and nw: "\<not> waiter v pj" and asg: "assigned v pj = Some q"
  shows "\<exists>v'. represents k (snd (EjqrAdd q pj s)) v' \<and> entered q pj (fst (EjqrAdd q pj s)) v v'"
proof -
  have inv: "view_inv v" and dr: "draining v = {}" using ex by (auto simp: executing_def)
  have qs: "queue_store s q = queue v q" using rep by (simp add: rep_defs)
  have qok: "queue_ok False (queue v q)" using queues_okD(1) [OF inv, of q] dr by simp
  have only: "q' = q" if "pj \<in> set (m_listjQueued (queue v q'))" for q' using queue_member(2) [OF inv that] asg by simp
  consider "m_fCompleted (queue v q)" | "\<not> m_fCompleted (queue v q)" "m_pj (queue v q) = Some pj"
    | "\<not> m_fCompleted (queue v q)" "m_pj (queue v q) \<noteq> Some pj" "m_listjQueued (queue v q) = []"
    | "\<not> m_fCompleted (queue v q)" "m_pj (queue v q) \<noteq> Some pj" "m_listjQueued (queue v q) \<noteq> []" by blast
  then show ?thesis
  proof cases
    case 1
    have "m_listjQueued (queue v q) = []" using qok 1 by (simp add: queue_ok_def)
    then have "\<not> in_queue v pj" using only by (fastforce simp: in_queue_def)
    then show ?thesis using 1 rep ex ch by (intro exI [of _ v]) (simp add: EjqrAdd_def qs entered_def)
  next
    case 2
    then show ?thesis using EjqrAdd_main_again [OF rep stable ex ch asg 2] by (simp add: EjqrAdd_def qs)
  next
    case 3
    have "upd_queue q (\<lambda>jq. jq\<lparr>m_pj := Some pj\<rparr>) (upd_queue q (\<lambda>jq. jq\<lparr>m_listjQueued := m_listjQueued jq @ [pj]\<rparr>) s)
      = upd_queue q (\<lambda>jq. jq\<lparr>m_listjQueued := [pj], m_pj := Some pj\<rparr>) s"
      using 3(3) by (simp add: upd_queue_def qs)
    then show ?thesis using EjqrAdd_main_first [OF rep stable ex ch asg 3(1,3)] 3 by (simp add: EjqrAdd_def qs)
  next
    case 4
    have "\<not> in_queue v pj"
    proof
      assume "in_queue v pj"
      then have "pj \<in> set (m_listjQueued (queue v q))" using only by (auto simp: in_queue_def)
      then show False using nw 4(2) by (auto simp: waiter_def)
    qed
    moreover from this have "hd (m_listjQueued (queue v q)) \<noteq> pj"
      using hd_in_set [OF 4(3)] unfolding in_queue_def by blast
    ultimately show ?thesis using EjqrAdd_waiter [OF rep stable ex ch asg _ 4(1,3)] 4 by (simp add: EjqrAdd_def qs)
  qed
qed

end
