(* ===== verification/SchedulerLive.thy ===== *)
theory SchedulerLive
  imports SchedulerCorrect
begin

text \<open>
  The processing loop of \<^verbatim>\<open>CScheduler\<close> returns and leaves no job behind, for every job code that keeps to
  a contract: it spawns children only under the running job, reports completion only when it has spawned
  none, and pays for every round that does not complete the job from a potential.
\<close>

subsection \<open>What the scheduler leaves alone\<close>

text \<open>The part of the state that belongs to the job code is not touched by the scheduler.\<close>

lemma more_upd [simp]:
  "search.more (upd_job pj f s) = search.more s" "search.more (upd_sched g s) = search.more s"
  "search.more (upd_queue q h s) = search.more s"
  by (simp_all add: upd_job_def upd_sched_def upd_queue_def)

lemma more_refs [simp]:
  "search.more (IncRefs pj s) = search.more s" "search.more (snd (UlpDecrRefs pj s)) = search.more s"
  "search.more (SetState_job pj st s) = search.more s" "search.more (SetParent pj p s) = search.more s"
  by (simp_all add: IncRefs_def UlpDecrRefs_def SetState_job_def SetParent_def)

lemma more_tracking [simp]:
  "(\<And>t. search.more (f t) = search.more t) \<Longrightarrow> search.more (when_tracking f s) = search.more s"
  by (simp add: when_tracking_def)

lemma more_Schedule [simp]: "search.more (Schedule pj s) = search.more s"
  by (simp add: Schedule_def Let_def case_prod_beta)

lemma more_PjRetrieve [simp]: "search.more (snd (PjRetrieve s)) = search.more s"
  by (simp add: PjRetrieve_def Let_def split: list.split)

lemma more_Release [simp]: "search.more (Release pj s) = search.more s"
  by (simp add: Release_def Let_def)

lemma more_ResumeParent [simp]: "search.more (ResumeParent pj s) = search.more s"
proof (cases "m_pjParent (job_of s pj)")
  case (Some p)
  then show ?thesis
    using more_refs(2) [of p s]
    by (auto simp: ResumeParent_def FResumeParent_def Resume_def Let_def case_prod_beta simp del: more_refs split: bool.split)
qed (simp add: ResumeParent_def)

lemma more_Complete [simp]:
  "search.more (Complete_job pj s) = search.more s" "search.more (CompleteQueued pj s) = search.more s"
  by (simp_all add: Complete_job_def CompleteQueued_def Let_def)

lemma more_notify_loop [simp]: "search.more (notify_loop q s) = search.more s"
proof (induction q s rule: notify_loop.induct)
  case (1 q s)
  show ?case
  proof (cases "m_listjQueued (queue_store s q)")
    case Nil
    then show ?thesis by (subst notify_loop.simps) simp
  next
    case (Cons pj rest)
    then show ?thesis using 1 [OF Cons refl]
      by (subst notify_loop.simps) (simp add: Let_def case_prod_beta)
  qed
qed

lemma more_queue [simp]:
  "search.more (NotifyCompleted q s) = search.more s" "search.more (snd (EjqrAdd q pj s)) = search.more s"
  by (simp_all add: NotifyCompleted_def EjqrAdd_def Let_def)

lemma more_PjCreate [simp]: "search.more (snd (PjCreate ejt s)) = search.more s"
  by (simp add: PjCreate_def Let_def case_prod_beta)

lemma more_spawn_job [simp]: "search.more (spawn_job ejt init parent s) = search.more s"
  by (simp add: spawn_job_def Let_def case_prod_beta Add_def split: option.split)

subsection \<open>What job code does to the state\<close>

text \<open>
  A run of job code: it changes its own part of the state and the data of jobs that nobody else reads,
  and it spawns some number of children of the running job, whose data at the start are \<open>jp\<close>.
\<close>

inductive spawn_run ::
  "'j job_kind \<Rightarrow> job_ref \<Rightarrow> 'j CJob_scheme \<Rightarrow> nat \<Rightarrow> ('j, 'w) search_scheme \<Rightarrow> ('j, 'w) search_scheme \<Rightarrow> bool"
  for k :: "'j job_kind" and pj :: job_ref and jp :: "'j CJob_scheme" where
  quiet_step: "same_jobs k s t \<Longrightarrow> spawn_run k pj jp 0 s t"
| spawn_step: "\<lbrakk>same_jobs k s t; init_ok k init; \<And>j. below_parent k (init j) jp;
    spawn_run k pj jp n (spawn_job ejt init (Some pj) t) u\<rbrakk> \<Longrightarrow> spawn_run k pj jp (Suc n) s u"

lemma same_jobs_refl [simp]: "same_jobs k s s"
  by (simp add: same_jobs_def)

definition spawned :: "job_ref \<Rightarrow> nat \<Rightarrow> nat \<Rightarrow> view \<Rightarrow> view \<Rightarrow> bool" where
  "spawned pj m n v v' \<longleftrightarrow> executing pj m v' \<and> card (live v') = card (live v) + n \<and> queue v' = queue v
    \<and> assigned v' pj = assigned v pj \<and> (n = 0 \<longrightarrow> v' = v)"

lemma spawned_add_job:
  assumes ex: "executing pj m v" and nw: "\<not> waiter v pj" and r: "r \<notin> live v"
  shows "spawned pj m 1 v (add_job r (Some pj) a v)"
proof -
  have inv: "view_inv v" using ex by (simp add: executing_def)
  have "view_inv (add_job r (Some pj) a v)"
    by (rule view_add [OF inv r]) (use ex nw in \<open>auto simp: executing_def\<close>)
  moreover have "finite (live v)" using view_invD(1) [OF inv] by (simp add: sets_ok_def)
  moreover have "pj \<noteq> r" using executing_live [OF ex] r by blast
  ultimately show ?thesis using ex r by (simp add: spawned_def executing_def)
qed

lemma waiter_queue: "queue v' = queue v \<Longrightarrow> waiter v' j = waiter v j"
  by (simp add: waiter_def)

lemma represents_assigned: "represents k s v \<Longrightarrow> assigned v j = enters k (job_of s j)"
  by (simp add: represents_def fields_ok_def)

lemma spawn_run_view:
  assumes "spawn_run k pj jp n s t" and stable: "kind_stable k"
  shows "represents k s v \<Longrightarrow> executing pj m v \<Longrightarrow> \<not> waiter v pj \<Longrightarrow>
    level k (job_of s pj) = level k jp \<Longrightarrow> enters k (job_of s pj) = enters k jp \<Longrightarrow>
    \<exists>v'. represents k t v' \<and> spawned pj m n v v'"
  using assms(1)
proof (induction arbitrary: v rule: spawn_run.induct)
  case (quiet_step s t)
  then show ?case using represents_same_jobs by (fastforce simp: spawned_def)
next
  case (spawn_step s t init n ejt u)
  have rep: "represents k t v" by (rule represents_same_jobs [OF spawn_step.prems(1) spawn_step.hyps(1)])
  have inv: "view_inv v" using spawn_step.prems(2) by (simp add: executing_def)
  have pj: "pj \<in> live v" by (rule executing_live [OF spawn_step.prems(2)])
  have data: "level k (job_of t pj) = level k jp" "enters k (job_of t pj) = enters k jp"
    using spawn_step.hyps(1) spawn_step.prems(4,5) by (simp_all add: same_jobs_def)
  let ?t = "spawn_job ejt init (Some pj) t"
  have "below_parent k (init j) (job_of t pj)" for j
    using spawn_step.hyps(3) [of j] by (simp add: below_parent_def data)
  then obtain r a where r: "r \<notin> live v" and rep': "represents k ?t (add_job r (Some pj) a v)"
    and lv: "level k (job_of ?t pj) = level k (job_of t pj)"
    using represents_spawn [OF rep stable spawn_step.hyps(2) inv, of "Some pj" ejt] pj by auto
  have "pj \<noteq> r" using pj r by blast
  moreover have "assigned (add_job r (Some pj) a v) pj = enters k (job_of ?t pj)"
    by (rule represents_assigned [OF rep'])
  ultimately have "enters k (job_of ?t pj) = enters k (job_of t pj)" using represents_assigned [OF rep, of pj] by simp
  note data' = lv [unfolded data] this [unfolded data]
  have sp: "spawned pj m 1 v (add_job r (Some pj) a v)"
    by (rule spawned_add_job [OF spawn_step.prems(2,3) r])
  then have ex: "executing pj m (add_job r (Some pj) a v)" by (simp add: spawned_def)
  obtain v' where "represents k u v'" "spawned pj m n (add_job r (Some pj) a v) v'"
    using spawn_step.IH [OF rep' ex _ data'] spawn_step.prems(3) by auto
  then show ?case using sp by (intro exI [of _ v']) (simp add: spawned_def)
qed

subsection \<open>The contract of job code\<close>

text \<open>How a job that may enter the queue \<open>q\<close> is executed.\<close>

definition queue_execute :: "nat \<Rightarrow> ('j, 'w) job_code \<Rightarrow> ('j, 'w) job_code" where
  "queue_execute q body pj s =
    (case EjqrAdd q pj s of
       (EjqrMain, s) \<Rightarrow>
         (case body pj s of
            (None, s) \<Rightarrow> (None, s)
          | (Some True, s) \<Rightarrow> (Some True, NotifyCompleted q s)
          | (Some False, s) \<Rightarrow> (Some False, snd (UlpDecrRefs pj s)))
     | (EjqrQueued, s) \<Rightarrow> (Some False, s)
     | (EjqrCompleted, s) \<Rightarrow> (Some True, s))"

lemma FExecute_queue:
  "FExecute exec pj s = (case m_pjq (job_of s pj) of None \<Rightarrow> exec pj s | Some q \<Rightarrow> queue_execute q exec pj s)"
  by (cases "m_pjq (job_of s pj)") (simp_all add: FExecute_def queue_execute_def)

locale spawning_code =
  fixes k :: "'j job_kind"
    and exec :: "('j, 'w) job_code"
    and body :: "('j, 'w) job_code"
    and pot :: "'w \<Rightarrow> nat"
  assumes stable: "kind_stable k"
    and runs: "allowed k (job_of s pj) \<Longrightarrow> FExecute exec pj s =
      (case enters k (job_of s pj) of None \<Rightarrow> body pj s | Some q \<Rightarrow> queue_execute q body pj s)"
    and spawns: "allowed k (job_of s pj) \<Longrightarrow> body pj s = (Some c, t) \<Longrightarrow>
      \<exists>n. spawn_run k pj (job_of s pj) n s t \<and> (if c then n = 0 \<and> pot (search.more t) \<le> pot (search.more s)
        else pot (search.more t) + n < pot (search.more s))"

text \<open>The outcome of one execution, in terms of the view.\<close>

definition outcome :: "job_ref \<Rightarrow> bool \<Rightarrow> nat \<Rightarrow> nat \<Rightarrow> view \<Rightarrow> view \<Rightarrow> bool" where
  "outcome pj c p p' v v' \<longleftrightarrow> executing pj 1 v' \<and>
    (if c then children v' pj = {} \<and> \<not> in_queue v' pj \<and> p' \<le> p \<and> live v' \<subseteq> live v
     else card (live v') + p' < card (live v) + p
       \<or> live v' = live v \<and> waiting v' = waiting v \<and> p' = p \<and> 1 < refs v' pj)"

lemma allowed_live: "represents k s v \<Longrightarrow> j \<in> live v \<Longrightarrow> allowed k (job_of s j)"
  by (auto simp: rep_defs)

subsection \<open>One round of the loop\<close>

text \<open>Between two rounds no job is being executed.\<close>

definition ready :: "'j job_kind \<Rightarrow> ('j, 'w) search_scheme \<Rightarrow> view \<Rightarrow> bool" where
  "ready k s v \<longleftrightarrow> represents k s v \<and> view_inv v \<and> active v = {} \<and> draining v = {}"

lemma ready_own: "ready k s v \<Longrightarrow> own v j = 0"
  by (auto simp: ready_def view_inv_def sets_ok_def)

lemma ready_PreExecute:
  assumes rdy: "ready k s v" and stable: "kind_stable k" and w: "waiting v = pj # W"
  shows "\<exists>v1. represents k (PreExecute pj (snd (PjRetrieve s))) v1 \<and> executing pj 1 v1 \<and> \<not> waiter v1 pj
    \<and> children v1 pj = {} \<and> live v1 = live v \<and> waiting v1 = W"
proof -
  have rep: "represents k s v" and inv: "view_inv v" and act: "active v = {}" and dr: "draining v = {}"
    using rdy by (auto simp: ready_def)
  let ?s = "snd (PjRetrieve s)"
  let ?v = "v\<lparr>waiting := W, active := {pj}\<rparr>"
  have r1: "represents k ?s (v\<lparr>waiting := W\<rparr>)" using represents_PjRetrieve [OF rep stable] w by simp
  have i1: "view_inv ?v" using view_take [OF inv w] act by simp
  have pj: "pj \<in> live v" "refs v pj = 0" using view_invD(1,5) [OF inv] w by (auto simp: sets_ok_def progress_ok_def)
  note zero = refs_zero [OF inv pj]
  let ?v1 = "?v\<lparr>refs := (refs v)(pj := 1), own := (own v)(pj := 1)\<rparr>"
  have "view_inv ?v1" using view_inc [OF i1, of pj] pj(2) zero(3) by simp
  then have ex: "executing pj 1 ?v1" using dr by (simp add: executing_def)
  have "{j. own v j \<noteq> 0} = {}" "{j. ((own v)(pj := 1)) j \<noteq> 0} = {pj}" using ready_own [OF rdy] by auto
  then have "represents k (upd_sched (\<lambda>c. c\<lparr>m_ulpRunning := m_ulpRunning c + 1\<rparr>) ?s) (?v\<lparr>own := (own v)(pj := 1)\<rparr>)"
    using r1 by (simp add: rep_defs)
  from represents_IncRefs [OF this stable, of pj]
  have "represents k (PreExecute pj ?s) ?v1" using pj(2) by (simp add: PreExecute_def own_refs_swap)
  then show ?thesis using ex zero by (intro exI [of _ ?v1]) simp
qed

text \<open>After an execution its reference is dropped.\<close>

definition dropped :: "job_ref \<Rightarrow> view \<Rightarrow> view" where
  "dropped pj v = v\<lparr>refs := (refs v)(pj := refs v pj - 1), own := (own v)(pj := 0)\<rparr>"

lemma EjrPostExecute_dropped:
  assumes rep: "represents k s v" and stable: "kind_stable k" and ex: "executing pj 1 v"
  shows "represents k (snd (EjrPostExecute pj c s)) (dropped pj v)" "view_inv (dropped pj v)"
    "fst (EjrPostExecute pj c s) = (if c then EjrCompleted else if refs v pj = 1 then EjrRunnable else EjrSuspended)"
proof -
  have own: "own v pj = 1" and inv: "view_inv v" using ex by (auto simp: executing_def)
  have dec: "fst (UlpDecrRefs pj s) = refs v pj"
    "represents k (snd (UlpDecrRefs pj s)) (v\<lparr>refs := (refs v)(pj := refs v pj - 1)\<rparr>)"
    using represents_DecrRefs [OF rep stable, of pj] by auto
  have "{j. own v j \<noteq> 0} = {pj}" by (rule own_count [of 1]) (use executing_own [OF ex] own in simp_all)
  moreover have "{j. ((own v)(pj := 0)) j \<noteq> 0} = {}" using executing_own [OF ex] by auto
  ultimately show "represents k (snd (EjrPostExecute pj c s)) (dropped pj v)"
    using dec(2) by (simp add: EjrPostExecute_def dropped_def Let_def case_prod_beta rep_defs)
  show "view_inv (dropped pj v)" using view_dec [OF inv, of pj] own by (simp add: dropped_def)
  show "fst (EjrPostExecute pj c s) = (if c then EjrCompleted else if refs v pj = 1 then EjrRunnable else EjrSuspended)"
    using dec(1) by (simp add: EjrPostExecute_def Let_def case_prod_beta)
qed

lemma dropped_fields [simp]:
  "live (dropped pj v) = live v" "active (dropped pj v) = active v" "draining (dropped pj v) = draining v"
  "waiting (dropped pj v) = waiting v" "par (dropped pj v) = par v" "refs (dropped pj v) pj = refs v pj - 1"
  "own (dropped pj v) pj = 0" "in_queue (dropped pj v) j = in_queue v j"
  by (simp_all add: dropped_def in_queue_def)

lemma ready_Complete:
  assumes rep: "represents k s (dropped pj v)" and inv: "view_inv (dropped pj v)" and stable: "kind_stable k"
    and ex: "executing pj 1 v" and ch: "children v pj = {}" and nq: "\<not> in_queue v pj"
  shows "ready k (Release pj (Complete_job pj s)) (finish_job pj (dropped pj v))"
proof -
  have live: "pj \<in> live (dropped pj v)" using executing_live [OF ex] by simp
  have act: "active v = {pj}" "draining v = {}" using ex by (auto simp: executing_def)
  have "\<not> waiter v pj" using nq by (auto simp: waiter_def in_queue_def)
  then have refs: "refs v pj = 1" by (rule executing_refs [OF ex ch])
  have "view_inv (finish_job pj (dropped pj v))"
    by (rule view_finish [OF inv]) (use no_self_parent [OF inv live] act refs nq in auto)
  then show ?thesis using represents_Complete(1) [OF rep stable inv live] act by (simp add: ready_def)
qed

lemma ready_Resume:
  assumes rep: "represents k s (dropped pj v)" and inv: "view_inv (dropped pj v)" and stable: "kind_stable k"
    and ex: "executing pj 1 v" and refs: "refs v pj = 1"
  shows "ready k (Resume pj s) ((dropped pj v)\<lparr>waiting := pj # waiting v, active := {}\<rparr>)"
proof -
  have act: "active v = {pj}" "draining v = {}" using ex by (auto simp: executing_def)
  have "represents k (Resume pj s) ((dropped pj v)\<lparr>waiting := pj # waiting v\<rparr>)"
    using represents_Schedule [OF rep stable, of pj] by (simp add: Resume_def represents_sched_cong)
  from represents_ghost(1) [OF this, of "{}"] show ?thesis
    using view_resume [OF inv, of pj] act refs by (simp add: ready_def)
qed

lemma ready_Suspend:
  assumes rep: "represents k s (dropped pj v)" and inv: "view_inv (dropped pj v)" and stable: "kind_stable k"
    and ex: "executing pj 1 v" and refs: "1 < refs v pj"
  shows "ready k (Suspend pj s) ((dropped pj v)\<lparr>active := {}\<rparr>)"
proof -
  have act: "active v = {pj}" "draining v = {}" using ex by (auto simp: executing_def)
  have "represents k (when_tracking (\<lambda>s. upd_sched (\<lambda>c. c\<lparr>m_listjSuspended := m_listjSuspended c @ [pj]\<rparr>)
      (SetState_job pj EjsSuspended s)) s) (dropped pj v)"
    by (rule represents_when_tracking [OF rep]) (simp add: represents_sched_cong represents_job_state stable)
  then have "represents k (Suspend pj s) (dropped pj v)" by (simp add: Suspend_def Let_def represents_sched_cong)
  from represents_ghost(1) [OF this, of "{}"] show ?thesis
    using view_suspend [OF inv, of pj] act refs by (simp add: ready_def)
qed

text \<open>The work that is left: jobs and potential first, then the jobs that wait to be executed.\<close>

definition effort :: "nat \<Rightarrow> view \<Rightarrow> nat \<times> nat" where
  "effort p v = (card (live v) + p, length (waiting v))"

lemma round_end:
  assumes rdy: "ready k s0 v" and stable: "kind_stable k" and w: "waiting v = pj # W"
    and v1: "live v1 = live v" "waiting v1 = W" and out: "outcome pj c p p' v1 v2"
    and rep: "represents k s (dropped pj v2)" and inv: "view_inv (dropped pj v2)"
    and r: "r = (if c then EjrCompleted else if refs v2 pj = 1 then EjrRunnable else EjrSuspended)"
  shows "\<exists>v'. ready k (case r of EjrCompleted \<Rightarrow> Release pj (Complete_job pj s)
      | EjrRunnable \<Rightarrow> Resume pj s | EjrSuspended \<Rightarrow> Suspend pj s) v'
    \<and> (effort p' v', effort p v) \<in> less_than <*lex*> less_than"
proof -
  have ex: "executing pj 1 v2" using out by (simp add: outcome_def)
  have fin: "finite (live v)" using rdy by (auto simp: ready_def view_inv_def sets_ok_def)
  have "refs v2 pj = card (children v2 pj) + of_bool (waiter v2 pj) + 1"
    using ex executing_live [OF ex] by (auto simp: executing_def view_inv_def refs_ok_def)
  then have pos: "refs v2 pj \<noteq> 1 \<Longrightarrow> 1 < refs v2 pj" by simp
  consider c | "\<not> c" "refs v2 pj = 1" | "\<not> c" "refs v2 pj \<noteq> 1" by blast
  then show ?thesis
  proof cases
    case 1
    then have o: "children v2 pj = {}" "\<not> in_queue v2 pj" "p' \<le> p" "live v2 \<subseteq> live v"
      using out v1(1) by (auto simp: outcome_def)
    have "live v2 - {pj} \<subset> live v" using o(4) executing_live [OF ex] by blast
    then have "card (live v2 - {pj}) < card (live v)" by (rule psubset_card_mono [OF fin])
    then show ?thesis using ready_Complete [OF rep inv stable ex o(1,2)] o(3) 1 r
      by (intro exI [of _ "finish_job pj (dropped pj v2)"]) (simp add: effort_def)
  next
    case 2
    then have "card (live v2) + p' < card (live v) + p" using out v1(1) by (auto simp: outcome_def)
    then show ?thesis using ready_Resume [OF rep inv stable ex 2(2)] 2 r
      by (intro exI [of _ "(dropped pj v2)\<lparr>waiting := pj # waiting v2, active := {}\<rparr>"]) (simp add: effort_def)
  next
    case 3
    then have "card (live v2) + p' < card (live v) + p \<or> card (live v2) + p' = card (live v) + p \<and> waiting v2 = W"
      using out v1 by (auto simp: outcome_def)
    then show ?thesis using ready_Suspend [OF rep inv stable ex pos [OF 3(2)]] 3 r w
      by (intro exI [of _ "(dropped pj v2)\<lparr>active := {}\<rparr>"]) (auto simp: effort_def)
  qed
qed

context spawning_code
begin

lemma body_outcome:
  assumes rep: "represents k s v" and ex: "executing pj m v" and nw: "\<not> waiter v pj"
    and body: "body pj s = (Some c, t)"
  obtains v' n where "represents k t v'" "spawned pj m n v v'"
    "if c then n = 0 \<and> pot (search.more t) \<le> pot (search.more s) else pot (search.more t) + n < pot (search.more s)"
proof -
  obtain n where "spawn_run k pj (job_of s pj) n s t"
    "if c then n = 0 \<and> pot (search.more t) \<le> pot (search.more s) else pot (search.more t) + n < pot (search.more s)"
    using spawns [OF allowed_live [OF rep executing_live [OF ex]] body] by blast
  then show ?thesis using that spawn_run_view [OF _ stable rep ex nw refl refl] by blast
qed

lemma plain_outcome:
  assumes rep: "represents k s v" and ex: "executing pj 1 v" and nw: "\<not> waiter v pj"
    and ch: "children v pj = {}" and asg: "assigned v pj = None" and body: "body pj s = (Some c, t)"
  shows "\<exists>v'. represents k t v' \<and> outcome pj c (pot (search.more s)) (pot (search.more t)) v v'"
proof -
  obtain v' n where v': "represents k t v'" "spawned pj 1 n v v'"
    and p: "if c then n = 0 \<and> pot (search.more t) \<le> pot (search.more s) else pot (search.more t) + n < pot (search.more s)"
    by (rule body_outcome [OF rep ex nw body])
  have "view_inv v" using ex by (simp add: executing_def)
  then have "\<not> in_queue v pj" using queue_member(2) [of v pj] asg by (auto simp: in_queue_def)
  then show ?thesis using v' p ch by (intro exI [of _ v']) (auto simp: outcome_def spawned_def split: if_splits)
qed

lemma main_outcome:
  assumes rep: "represents k s v" and ent: "entered q pj EjqrMain v0 v" and body: "body pj s = (Some c, t)"
  shows "\<exists>v'. represents k (if c then NotifyCompleted q t else snd (UlpDecrRefs pj t)) v'
    \<and> outcome pj c (pot (search.more s)) (pot (search.more t)) v0 v'"
proof -
  have ex: "executing pj 2 v" and ch: "children v pj = {}" and m: "m_pj (queue v q) = Some pj" "\<not> m_fCompleted (queue v q)"
    and lv: "live v = live v0" using ent by (auto simp: entered_def)
  obtain rest where l: "m_listjQueued (queue v q) = pj # rest" using ent by (auto simp: entered_def)
  have inv: "view_inv v" using ex by (simp add: executing_def)
  have nw: "\<not> waiter v pj" using waiter_iff [OF inv, of pj q] l m by simp
  obtain v' n where v': "represents k t v'" "spawned pj 2 n v v'"
    and p: "if c then n = 0 \<and> pot (search.more t) \<le> pot (search.more s) else pot (search.more t) + n < pot (search.more s)"
    by (rule body_outcome [OF rep ex nw body])
  show ?thesis
  proof (cases c)
    case True
    then have "v' = v" using v'(2) p by (simp add: spawned_def)
    then show ?thesis using notify_main [OF _ stable ex ch m l, of t] v'(1) True p lv by (auto simp: outcome_def)
  next
    case False
    then have "executing pj (Suc 1) v'" using v'(2) by (simp add: spawned_def numeral_2_eq_2)
    then obtain v'' where "represents k (snd (UlpDecrRefs pj t)) v''" "executing pj 1 v''" "live v'' = live v'"
      using executing_dec [OF v'(1) stable, of pj 1] by auto
    then show ?thesis using v'(2) p lv False by (auto simp: outcome_def spawned_def)
  qed
qed

lemma queue_outcome:
  assumes rep: "represents k s v" and ex: "executing pj 1 v" and nw: "\<not> waiter v pj"
    and ch: "children v pj = {}" and asg: "assigned v pj = Some q" and res: "queue_execute q body pj s = (Some c, t)"
  shows "\<exists>v'. represents k t v' \<and> outcome pj c (pot (search.more s)) (pot (search.more t)) v v'"
proof -
  obtain r s1 where add: "EjqrAdd q pj s = (r, s1)" by force
  obtain v1 where v1: "represents k s1 v1" "entered q pj r v v1"
    using EjqrAdd_entered [OF rep stable ex ch nw asg] by (auto simp: add)
  have more: "search.more s1 = search.more s" using more_queue(2) [of q pj s] by (simp add: add)
  show ?thesis
  proof (cases r)
    case EjqrMain
    then obtain t' where body: "body pj s1 = (Some c, t')" and t: "t = (if c then NotifyCompleted q t' else snd (UlpDecrRefs pj t'))"
      using res by (auto simp: queue_execute_def add split: prod.splits option.splits bool.splits)
    have "search.more t = search.more t'" by (simp add: t)
    moreover have "entered q pj EjqrMain v v1" using v1(2) EjqrMain by simp
    ultimately show ?thesis using main_outcome [OF v1(1) _ body, of q v] unfolding t more by simp
  next
    case EjqrQueued
    then have "t = s1" "\<not> c" using res by (auto simp: queue_execute_def add)
    then show ?thesis using v1 EjqrQueued by (auto simp: outcome_def entered_def more)
  next
    case EjqrCompleted
    then have "t = s1" "c" using res by (auto simp: queue_execute_def add)
    then show ?thesis using v1 EjqrCompleted by (auto simp: outcome_def entered_def more)
  qed
qed

lemma FExecute_outcome:
  assumes rep: "represents k s v" and ex: "executing pj 1 v" and nw: "\<not> waiter v pj"
    and ch: "children v pj = {}" and res: "FExecute exec pj s = (Some c, t)"
  shows "\<exists>v'. represents k t v' \<and> outcome pj c (pot (search.more s)) (pot (search.more t)) v v'"
proof -
  have asg: "assigned v pj = enters k (job_of s pj)" using rep by (simp add: rep_defs)
  note run = runs [OF allowed_live [OF rep executing_live [OF ex]], unfolded res, symmetric]
  show ?thesis
  proof (cases "enters k (job_of s pj)")
    case None
    then show ?thesis using plain_outcome [OF rep ex nw ch _, of c t] asg run by simp
  next
    case (Some q)
    then show ?thesis using queue_outcome [OF rep ex nw ch _, of q c t] asg run by simp
  qed
qed

lemma round_ready:
  assumes rdy: "ready k s v" and w: "waiting v = pj # W"
    and res: "execute_job exec env pj (snd (PjRetrieve s)) = (Some r, t)"
  shows "\<exists>v'. ready k t v' \<and> (effort (pot (search.more t)) v', effort (pot (search.more s)) v) \<in> less_than <*lex*> less_than"
proof -
  obtain v1 where v1: "represents k (PreExecute pj (snd (PjRetrieve s))) v1" "executing pj 1 v1" "\<not> waiter v1 pj"
    "children v1 pj = {}" "live v1 = live v" "waiting v1 = W"
    using ready_PreExecute [OF rdy stable w] by blast
  obtain c s2 where run: "FExecute exec pj (PreExecute pj (snd (PjRetrieve s))) = (Some c, s2)"
    using res by (auto simp: execute_job_def split: prod.splits option.splits)
  have "search.more (PreExecute pj (snd (PjRetrieve s))) = search.more s" by (simp add: PreExecute_def)
  then obtain v2 where v2: "represents k s2 v2" "outcome pj c (pot (search.more s)) (pot (search.more s2)) v1 v2"
    using FExecute_outcome [OF v1(1-4) run] by auto
  define s3 where "s3 = when_tracking (upd_sched (\<lambda>c. c\<lparr>m_listjRunning := remove1 pj (m_listjRunning c)\<rparr>)) (profile_job env pj s2)"
  have "represents k (profile_job env pj s2) v2" using v2(1) by (simp add: profile_job_def represents_sched_cong Let_def)
  then have r3: "represents k s3 v2"
    unfolding s3_def by (rule represents_when_tracking) (simp add: represents_sched_cong)
  have ex: "executing pj 1 v2" using v2(2) by (simp add: outcome_def)
  note post = EjrPostExecute_dropped(1) [OF r3 stable ex, of c] EjrPostExecute_dropped(2) [OF r3 stable ex]
    EjrPostExecute_dropped(3) [OF r3 stable ex, of c]
  let ?s = "snd (EjrPostExecute pj c s3)"
  have more: "search.more ?s = search.more s2"
    by (simp add: EjrPostExecute_def Let_def case_prod_beta s3_def profile_job_def)
  have t: "t = (case fst (EjrPostExecute pj c s3) of EjrCompleted \<Rightarrow> Release pj (Complete_job pj ?s)
      | EjrRunnable \<Rightarrow> Resume pj ?s | EjrSuspended \<Rightarrow> Suspend pj ?s)"
    using res by (auto simp: execute_job_def run s3_def [symmetric] case_prod_beta Let_def split: EJobResult.splits)
  have "search.more t = search.more s2" using more
    by (simp add: t Resume_def Suspend_def Let_def split: EJobResult.split)
  then show ?thesis using round_end [OF rdy stable w v1(5,6) v2(2) post] by (simp add: t)
qed

lemma round_raises:
  assumes rdy: "ready k s v" and w: "waiting v = pj # W"
    and res: "execute_job exec env pj (snd (PjRetrieve s)) = (None, t)"
  shows "\<exists>s'. allowed k (job_of s' pj) \<and> fst (body pj s') = None"
proof -
  let ?s = "PreExecute pj (snd (PjRetrieve s))"
  obtain v1 where v1: "represents k ?s v1" "executing pj 1 v1" "\<not> waiter v1 pj" "children v1 pj = {}"
    using ready_PreExecute [OF rdy stable w] by blast
  have ok: "allowed k (job_of ?s pj)" by (rule allowed_live [OF v1(1) executing_live [OF v1(2)]])
  have asg: "assigned v1 pj = enters k (job_of ?s pj)" using v1(1) by (simp add: rep_defs)
  have "fst (FExecute exec pj ?s) = None"
    using res by (auto simp: execute_job_def Let_def case_prod_beta split: prod.splits option.splits EJobResult.splits)
  then have none: "fst (case enters k (job_of ?s pj) of None \<Rightarrow> body pj ?s | Some q \<Rightarrow> queue_execute q body pj ?s) = None"
    using runs [OF ok] by simp
  show ?thesis
  proof (cases "enters k (job_of ?s pj)")
    case None
    then show ?thesis using none ok by auto
  next
    case (Some q)
    obtain r s1 where add: "EjqrAdd q pj ?s = (r, s1)" by force
    obtain v2 where v2: "represents k s1 v2" "entered q pj r v1 v2"
      using EjqrAdd_entered [OF v1(1) stable v1(2,4,3), of q] asg Some by (auto simp: add)
    have "live v2 = live v1" using v2(2) by (simp add: entered_def)
    then have "allowed k (job_of s1 pj)" using allowed_live [OF v2(1)] executing_live [OF v1(2)] by simp
    moreover have "fst (body pj s1) = None"
      using none by (auto simp: Some queue_execute_def add split: prod.splits option.splits bool.splits EJobQueueResult.splits)
    ultimately show ?thesis by blast
  qed
qed

lemma loop_returns:
  assumes "ready k s v"
  shows "\<exists>e. ExecuteJobs exec env n s = Some e
    \<and> (case e of Finished t \<Rightarrow> \<exists>v'. ready k t v' \<and> waiting v' = []
       | Raised t \<Rightarrow> (\<exists>u. fAbort env u) \<or> (\<exists>pj u. allowed k (job_of u pj) \<and> fst (body pj u) = None))"
  using assms
proof (induction "effort (pot (search.more s)) v" arbitrary: s v n rule: wf_induct_rule [OF wf_lex_prod [OF wf_less_than wf_less_than]])
  case less: 1
  note get = represents_PjRetrieve [of k s v, OF _ stable]
  have rep: "represents k s v" using less.prems by (simp add: ready_def)
  show ?case
  proof (cases "waiting v")
    case Nil
    then have "fst (PjRetrieve s) = None" "ready k (snd (PjRetrieve s)) v"
      using get [OF rep] less.prems by (simp_all add: ready_def)
    then show ?thesis using Nil by (subst ExecuteJobs.simps) (auto simp: case_prod_beta)
  next
    case (Cons pj W)
    have "fst (PjRetrieve s) = Some pj" using get [OF rep] Cons by simp
    then have pop: "PjRetrieve s = (Some pj, snd (PjRetrieve s))" by (metis prod.collapse)
    obtain r t where run: "execute_job exec env pj (snd (PjRetrieve s)) = (r, t)" by force
    show ?thesis
    proof (cases r)
      case None
      then show ?thesis using round_raises [OF less.prems Cons run [unfolded None]]
        by (subst ExecuteJobs.simps, subst pop) (auto simp: run)
    next
      case (Some r')
      obtain v' where v': "ready k t v'"
        "(effort (pot (search.more t)) v', effort (pot (search.more s)) v) \<in> less_than <*lex*> less_than"
        using round_ready [OF less.prems Cons run [unfolded Some]] by blast
      note next_round = less.hyps [OF v'(2) v'(1)]
      show ?thesis
        by (subst ExecuteJobs.simps, subst pop) (use next_round in \<open>auto simp: run Some split: EJobResult.split\<close>)
    qed
  qed
qed

end

text \<open>The levels of the jobs exclude that jobs wait for each other in a circle.\<close>

definition wait_class :: "view \<Rightarrow> job_ref \<Rightarrow> nat" where
  "wait_class v j = (if assigned v j = None then 2 else if waiter v j then 1 else 0)"

lemma waits_for_descends:
  assumes rdy: "ready k s v" and e: "(j, c) \<in> waits_for v"
  shows "((level k (job_of s c), wait_class v c, c), (level k (job_of s j), wait_class v j, j))
    \<in> less_than <*lex*> less_than <*lex*> parent_rel v"
proof -
  have rep: "represents k s v" and inv: "view_inv v" and dr: "draining v = {}" using rdy by (auto simp: ready_def)
  have asg: "assigned v x = enters k (job_of s x)" and pr: "par v x = m_pjParent (job_of s x)" for x
    using rep by (simp_all add: rep_defs)
  have fine: "x \<in> live v \<Longrightarrow> enters k (job_of s x) = Some q \<Longrightarrow> level k (job_of s x) = queue_level k q" for x q
    using rep by (simp add: rep_defs)
  consider "c \<in> children v j" | q where "j \<in> set (m_listjQueued (queue v q))" "m_pj (queue v q) = Some c" "c \<noteq> j"
    using e by (auto simp: waits_for_def)
  then show ?thesis
  proof cases
    case 1
    then have c: "c \<in> live v" "par v c = Some j" by (auto simp: children_def)
    then have below: "below_parent k (job_of s c) (job_of s j)" using rep by (simp add: represents_def jobs_fine_def pr)
    moreover have "(c, j) \<in> parent_rel v" using c by (simp add: parent_rel_def)
    ultimately show ?thesis by (auto simp: below_parent_def wait_class_def asg)
  next
    case 2
    have "queue_ok False (queue v q)" using queues_okD(1) [OF inv, of q] dr by simp
    then have c: "c \<in> set (m_listjQueued (queue v q))"
      using 2(1,2) by (auto simp: queue_ok_def split: if_splits list.splits)
    note mem = queue_member [OF inv 2(1)] queue_member [OF inv c]
    have "waiter v j" "\<not> waiter v c" using waiter_iff [OF inv 2(1)] waiter_iff [OF inv c] 2 by auto
    then show ?thesis using mem fine [of j q] fine [of c q] by (simp add: wait_class_def asg)
  qed
qed

lemma waits_for_acyclic:
  assumes "ready k s v"
  shows "acyclic (waits_for v)"
proof -
  have inv: "view_inv v" using assms by (simp add: ready_def)
  have "finite (live v)" using view_invD(1) [OF inv] by (simp add: sets_ok_def)
  then have "finite (live v \<times> live v)" by simp
  moreover have "parent_rel v \<subseteq> live v \<times> live v"
    using view_invD(2) [OF inv] by (auto simp: parents_ok_def parent_rel_def)
  ultimately have "finite (parent_rel v)" by (rule finite_subset [rotated])
  moreover have "acyclic (parent_rel v)" using view_invD(2) [OF inv] by (simp add: parents_ok_def)
  ultimately have wf: "wf (less_than <*lex*> less_than <*lex*> parent_rel v)"
    by (intro wf_lex_prod wf_less_than finite_acyclic_wf)
  have "(waits_for v)\<inverse> \<subseteq> inv_image (less_than <*lex*> less_than <*lex*> parent_rel v) (\<lambda>j. (level k (job_of s j), wait_class v j, j))"
    using waits_for_descends [OF assms] by (auto simp: inv_image_def simp del: in_lex_prod)
  then have "wf ((waits_for v)\<inverse>)" by (rule wf_subset [OF wf_inv_image [OF wf]])
  then show ?thesis using wf_acyclic acyclic_converse by blast
qed

text \<open>What the loop leaves behind.\<close>

definition settled :: "('j, 'w) search_scheme \<Rightarrow> bool" where
  "settled s \<longleftrightarrow> m_ulpTotal (sched s) = 0 \<and> m_ulpRunning (sched s) = 0 \<and> m_ulpQueued (sched s) = 0
    \<and> m_listjlWaiting (sched s) = [] \<and> m_ulpStatsQueued (sched s) = m_ulpStatsDequeued (sched s)
    \<and> (\<forall>q. m_listjQueued (queue_store s q) = [])"

lemma ready_settled:
  assumes rdy: "ready k s v" and w: "waiting v = []"
  shows "settled s"
proof -
  have rep: "represents k s v" and inv: "view_inv v" and idle: "active v = {}" "draining v = {}"
    using rdy by (auto simp: ready_def)
  have live: "live v = {}" by (rule idle_done [OF inv idle w waits_for_acyclic [OF rdy]])
  have "m_listjQueued (queue v q) = []" for q
    using queue_member(1) [OF inv, of _ q] live by (cases "m_listjQueued (queue v q)") auto
  then show ?thesis using rep live w ready_own [OF rdy] by (simp add: settled_def rep_defs)
qed

subsection \<open>The start of a search\<close>

text \<open>
  A new factory and a new scheduler, as \<^verbatim>\<open>CEngine::Optimize\<close> makes them, in a state whose queues are new.
\<close>

definition new_search :: "nat \<Rightarrow> bool \<Rightarrow> ('j, 'w) search_scheme \<Rightarrow> ('j, 'w) search_scheme" where
  "new_search ulJobs fTrackingJobs s = CJobFactory_new ulJobs (s\<lparr>sched := CScheduler_new ulJobs fTrackingJobs\<rparr>)"

lemma pools_warm:
  assumes "pools_ok s {}" "PjCreate ejt s = (pj, t)"
  shows "pools_ok (Release pj t) {}"
proof -
  obtain obj f where get: "PtRetrieve_factory ejt (factory s) = (obj, f)" by force
  have pj: "pj = Job ejt obj" and t: "factory t = f" "m_ejt (job_of t pj) = ejt"
    using assms(2) by (auto simp: PjCreate_def get Let_def)
  have "pools_ok t {pj}" using pools_PjCreate(2) [OF assms(1) get t(1)] t(2) pj by simp
  from pools_Release [OF this, of pj] show ?thesis by simp
qed

lemma pools_new: "pools_ok (CJobFactory_new ulJobs s) {}"
proof -
  have start: "pools_ok (s\<lparr>factory := \<lparr>m_ulJobs = ulJobs, m_pools = \<lambda>_. None\<rparr>\<rparr>) {}"
    by (simp add: pools_ok_def pool_ok_def objs_of_def)
  have "pools_ok t {} \<Longrightarrow> pools_ok (fold (\<lambda>ejt s. case PjCreate ejt s of (pj, s') \<Rightarrow> Release pj s') ejts t) {}" for ejts t
    by (induction ejts arbitrary: t) (auto split: prod.split intro: pools_warm)
  from this [OF start] show ?thesis by (simp only: CJobFactory_new_def)
qed

lemma new_keeps:
  "sched (CJobFactory_new ulJobs s) = sched s" "queue_store (CJobFactory_new ulJobs s) = queue_store s"
  "search.more (CJobFactory_new ulJobs s) = search.more s"
proof -
  let ?g = "\<lambda>ejt s. case PjCreate ejt s of (pj, s') \<Rightarrow> Release pj s'"
  have "sched (?g ejt t) = sched t \<and> queue_store (?g ejt t) = queue_store t \<and> search.more (?g ejt t) = search.more t"
    for ejt and t :: "('a, 'b) search_scheme"
    by (simp add: PjCreate_def Let_def split: prod.split)
  then have "sched (fold ?g ejts t) = sched t \<and> queue_store (fold ?g ejts t) = queue_store t
      \<and> search.more (fold ?g ejts t) = search.more t" for ejts and t :: "('a, 'b) search_scheme"
    by (induction ejts arbitrary: t) simp_all
  then show "sched (CJobFactory_new ulJobs s) = sched s" "queue_store (CJobFactory_new ulJobs s) = queue_store s"
    "search.more (CJobFactory_new ulJobs s) = search.more s"
    by (simp_all only: CJobFactory_new_def) simp_all
qed

definition idle_view :: "'j job_kind \<Rightarrow> ('j, 'w) search_scheme \<Rightarrow> view" where
  "idle_view k s = \<lparr>live = {}, active = {}, own = (\<lambda>_. 0), draining = {},
    par = (\<lambda>j. m_pjParent (job_of s j)), refs = (\<lambda>j. m_ulpRefs (job_of s j)), waiting = [],
    queue = queue_store s, assigned = (\<lambda>j. enters k (job_of s j))\<rparr>"

lemma ready_new:
  assumes "\<forall>q. queue_store s q = CJobQueue_new"
  shows "ready k (new_search ulJobs fTrackingJobs s) (idle_view k (new_search ulJobs fTrackingJobs s))"
proof -
  let ?s = "new_search ulJobs fTrackingJobs s"
  have f: "sched ?s = CScheduler_new ulJobs fTrackingJobs" "queue_store ?s = queue_store s"
    by (simp_all add: new_search_def new_keeps)
  have "represents k ?s (idle_view k ?s)"
    using pools_new [of ulJobs] owned_Init
    by (simp add: represents_def links_ok_def counters_ok_def fields_ok_def jobs_fine_def idle_view_def f CScheduler_new_def)
      (simp add: new_search_def)
  moreover have "view_inv (idle_view k ?s)" using assms
    by (simp add: view_inv_def view_parts idle_view_def f CJobQueue_new_def queue_ok_def waiter_def parent_rel_def acyclic_def)
  ultimately show ?thesis by (simp add: ready_def idle_view_def)
qed

lemma ready_spawn_root:
  assumes rdy: "ready k s v" and stable: "kind_stable k" and init: "init_ok k init"
  shows "\<exists>v'. ready k (spawn_job ejt init None s) v'"
proof -
  have rep: "represents k s v" and inv: "view_inv v" using rdy by (auto simp: ready_def)
  obtain r a where r: "r \<notin> live v" "represents k (spawn_job ejt init None s) (add_job r None a v)"
    using represents_spawn [OF rep stable init inv, of None ejt] by auto
  then show ?thesis using view_add [OF inv r(1), of None a] rdy
    by (intro exI [of _ "add_job r None a v"]) (simp add: ready_def)
qed

context spawning_code
begin

lemma run_settles:
  assumes "init_ok k init" and "\<forall>q. queue_store s q = CJobQueue_new"
  shows "\<exists>e. Run exec env (spawn_job ejt init None (new_search ulJobs fTrackingJobs s)) = Some e
    \<and> (case e of Finished t \<Rightarrow> settled t
       | Raised t \<Rightarrow> (\<exists>u. fAbort env u) \<or> (\<exists>pj u. allowed k (job_of u pj) \<and> fst (body pj u) = None))"
proof -
  obtain v where v: "ready k (spawn_job ejt init None (new_search ulJobs fTrackingJobs s)) v"
    using ready_spawn_root [OF ready_new [OF assms(2)] stable assms(1)] by blast
  obtain e where e: "ExecuteJobs exec env 0 (spawn_job ejt init None (new_search ulJobs fTrackingJobs s)) = Some e"
    "case e of Finished t \<Rightarrow> \<exists>v'. ready k t v' \<and> waiting v' = []
       | Raised t \<Rightarrow> (\<exists>u. fAbort env u) \<or> (\<exists>pj u. allowed k (job_of u pj) \<and> fst (body pj u) = None)"
    using loop_returns [OF v] by blast
  then have "case e of Finished t \<Rightarrow> settled t
       | Raised t \<Rightarrow> (\<exists>u. fAbort env u) \<or> (\<exists>pj u. allowed k (job_of u pj) \<and> fst (body pj u) = None)"
    using ready_settled by (cases e) auto
  then show ?thesis using e(1) by (simp add: Run_def)
qed

end

text \<open>
  \<^bold>\<open>C2\<close> Liveness of the scheduler.  For every job code that keeps to the contract, from a new factory and
  scheduler with one root job, \<^verbatim>\<open>CScheduler::Run\<close> returns.  When it returns without an exception, every job
  has completed: none is live, running, waiting or held in a queue, although jobs suspend for their
  children and wait in queues for each other.  It ends with an exception only if the abort flag was raised
  or the code of a job raised.
\<close>

theorem Run_completes_all_jobs:
  assumes "spawning_code k exec body pot" and "init_ok k init" and "\<forall>q. queue_store s q = CJobQueue_new"
  shows "\<exists>e. Run exec env (spawn_job ejt init None (new_search ulJobs fTrackingJobs s)) = Some e
    \<and> (case e of Finished t \<Rightarrow> settled t
       | Raised t \<Rightarrow> (\<exists>u. fAbort env u) \<or> (\<exists>pj u. allowed k (job_of u pj) \<and> fst (body pj u) = None))"
  using assms by (rule spawning_code.run_settles)


end
