(* ===== verification/JobTest.thy ===== *)
theory JobTest
  imports SchedulerLive
begin

text \<open>
  The job of the scheduler tests, \<^verbatim>\<open>CJobTest\<close>: it spawns copies of itself, or starts jobs that meet in a
  queue.  It keeps to the contract of the scheduler, so the processing loop completes all of its jobs.
\<close>

subsection \<open>CJobTest\<close>

datatype ETestType = EttSpawn | EttStartQueue | EttQueueu

text \<open>The job has a member \<^verbatim>\<open>m_pjq\<close> of its own, which hides the one of \<^verbatim>\<open>CJob\<close>.\<close>

record CJobTest = CJob +
  m_ett :: ETestType
  m_ulRounds :: "32 word"
  m_ulFanout :: "32 word"
  m_ulIters :: "32 word"
  m_pjqTest :: "nat option"

text \<open>The static counter \<^verbatim>\<open>m_ulpCnt\<close> is what the job code adds to the state.\<close>

type_synonym test_ext = "unit CJobTest_ext"
type_synonym test_search = "(test_ext, nat) search_scheme"

abbreviation m_ulpCnt :: "test_search \<Rightarrow> nat" where
  "m_ulpCnt s \<equiv> search.more s"

definition set_cnt :: "nat \<Rightarrow> test_search \<Rightarrow> test_search" where
  "set_cnt n s = search.more_update (\<lambda>_. n) s"

definition ResetCnt :: "test_search \<Rightarrow> test_search" where
  "ResetCnt = set_cnt 0"

definition Init_test :: "ETestType \<Rightarrow> 32 word \<Rightarrow> 32 word \<Rightarrow> 32 word \<Rightarrow> nat option \<Rightarrow> CJobTest \<Rightarrow> CJobTest" where
  "Init_test ett ulRounds ulFanout ulIters pjq j =
    j\<lparr>m_ett := ett, m_ulRounds := ulRounds, m_ulFanout := ulFanout, m_ulIters := ulIters, m_pjqTest := pjq\<rparr>"

definition Init_copy :: "CJobTest \<Rightarrow> CJobTest \<Rightarrow> CJobTest" where
  "Init_copy pjt = Init_test (m_ett pjt) (m_ulRounds pjt) (m_ulFanout pjt) (m_ulIters pjt) (m_pjqTest pjt)"

subsubsection \<open>Loop\<close>

abbreviation (input) GPOPT_JOB_TEST_DUMMY_CONST :: "32 word" where
  "GPOPT_JOB_TEST_DUMMY_CONST \<equiv> 45"

text \<open>
  \<open>loop_inner\<close> is the inner \<^verbatim>\<open>for\<close> loop; its bound is the value of the counter before the loop.  The abort
  flag is read at the end of each outer round; \<open>Some False\<close> is the exception that it causes.
\<close>

fun loop_inner :: "nat \<Rightarrow> 32 word \<Rightarrow> 32 word" where
  "loop_inner 0 ulOuter = ulOuter"
| "loop_inner (Suc ulInner) ulOuter =
    loop_inner ulInner (if 0 < ulOuter * (ulOuter + GPOPT_JOB_TEST_DUMMY_CONST) then ulOuter + 1 else ulOuter)"

partial_function (option) Loop :: "(nat \<Rightarrow> bool) \<Rightarrow> nat \<Rightarrow> 32 word \<Rightarrow> 32 word \<Rightarrow> bool option" where
  "Loop ab n ulIters ulOuter =
    (if ulOuter < ulIters then
       let ulOuter = loop_inner (unat ulOuter) ulOuter + 1
       in if ab n then Some False else Loop ab (n + 1) ulIters ulOuter
     else Some True)"

text \<open>A step of the outer loop; the last value that it cannot pass is where the counter plus 45 wraps to zero.\<close>

abbreviation (input) last_outer :: nat where
  "last_outer \<equiv> 2 ^ 32 - 45"

lemma stuck_value:
  assumes "unat x \<le> last_outer" "0 < x * (x + GPOPT_JOB_TEST_DUMMY_CONST)"
  shows "unat (x + 1) = unat x + 1" "unat (x + 1) \<le> last_outer"
proof -
  have "unat x \<noteq> last_outer"
  proof
    assume "unat x = last_outer"
    then have "unat (x + GPOPT_JOB_TEST_DUMMY_CONST) = 0" by (simp add: unat_word_ariths)
    then have "x + GPOPT_JOB_TEST_DUMMY_CONST = 0" by (simp add: unat_eq_0)
    then show False using assms(2) by simp
  qed
  then have lt: "unat x < last_outer" using assms(1) by simp
  then show s: "unat (x + 1) = unat x + 1" by (simp add: unat_word_ariths)
  show "unat (x + 1) \<le> last_outer" using lt s by simp
qed

lemma loop_inner_bounds:
  "unat x \<le> last_outer \<Longrightarrow> unat x \<le> unat (loop_inner i x) \<and> unat (loop_inner i x) \<le> last_outer"
proof (induction i arbitrary: x)
  case (Suc i)
  show ?case
  proof (cases "0 < x * (x + GPOPT_JOB_TEST_DUMMY_CONST)")
    case True
    note step = stuck_value [OF Suc.prems True]
    show ?thesis using Suc.IH [OF step(2)] step(1) True by simp
  next
    case False
    then show ?thesis using Suc.IH [OF Suc.prems] by simp
  qed
qed simp

lemma loop_step:
  assumes "unat x \<le> last_outer"
  shows "unat x < unat (loop_inner i x + 1)" "unat (loop_inner i x + 1) \<le> last_outer + 1"
proof -
  note b = loop_inner_bounds [OF assms, of i]
  then have "unat (loop_inner i x + 1) = unat (loop_inner i x) + 1" by (simp add: unat_word_ariths)
  then show "unat x < unat (loop_inner i x + 1)" "unat (loop_inner i x + 1) \<le> last_outer + 1" using b by auto
qed

lemma Loop_ends:
  assumes "unat ulIters \<le> last_outer + 1"
  shows "\<exists>b. Loop ab n ulIters x = Some b \<and> ((\<forall>i. \<not> ab i) \<longrightarrow> b)"
proof (induction "unat ulIters - unat x" arbitrary: x n rule: less_induct)
  case less
  show ?case
  proof (cases "x < ulIters")
    case True
    then have lt: "unat x < unat ulIters" by (simp add: word_less_nat_alt)
    let ?y = "loop_inner (unat x) x + 1"
    have "unat x < unat ?y" by (rule loop_step(1)) (use lt assms in simp)
    then have "unat ulIters - unat ?y < unat ulIters - unat x" using lt by simp
    from less [OF this] show ?thesis by (subst Loop.simps) (auto simp: Let_def True)
  next
    case False
    then show ?thesis by (subst Loop.simps) auto
  qed
qed

text \<open>From the value after the last one the counter wraps around to zero and stays there, so the loop starts again.\<close>

lemma loop_inner_add: "loop_inner (m + n) x = loop_inner n (loop_inner m x)"
  by (induction m arbitrary: x) simp_all

lemma loop_inner_zero: "loop_inner n 0 = 0"
  by (induction n) simp_all

lemma loop_inner_wraps: "m \<le> 44 \<Longrightarrow> loop_inner m (- word_of_nat m) = 0"
proof (induction m)
  case (Suc m)
  let ?x = "- word_of_nat (Suc m) :: 32 word"
  have d: "(word_of_nat (44 - m) :: 32 word) = 44 - word_of_nat m" using Suc.prems by (simp add: of_nat_diff)
  have "?x * (?x + GPOPT_JOB_TEST_DUMMY_CONST) = - word_of_nat (Suc m * (44 - m))"
    unfolding of_nat_mult d by (simp add: algebra_simps)
  moreover have "0 < Suc m * (44 - m)" "Suc m * (44 - m) < 2 ^ 32"
    using Suc.prems mult_le_mono [of "Suc m" 44 "44 - m" 44] by auto
  then have "(word_of_nat (Suc m * (44 - m)) :: 32 word) \<noteq> 0"
    using dvd_imp_le [of "2 ^ 32" "Suc m * (44 - m)"] unfolding word_of_nat_eq_0_iff by fastforce
  ultimately have "0 < ?x * (?x + GPOPT_JOB_TEST_DUMMY_CONST)" by (simp only: word_gt_0 neg_0_equal_iff_equal neg_equal_0_iff_equal eq_commute [of 0] not_False_eq_True)
  then have "loop_inner (Suc m) ?x = loop_inner m (?x + 1)" by simp
  also have "?x + 1 = - word_of_nat m" by simp
  finally show ?case using Suc by simp
qed simp

lemma loop_restart:
  assumes "unat x = last_outer + 1"
  shows "loop_inner (unat x) x + 1 = 1"
proof -
  have "x = word_of_nat (last_outer + 1)" using assms by (metis of_nat_unat ucast_id)
  then have x: "x = - word_of_nat 44" by simp
  have "unat x = 44 + (last_outer + 1 - 44)" using assms by simp
  then have "loop_inner (unat x) x = loop_inner (last_outer + 1 - 44) (loop_inner 44 (- word_of_nat 44))"
    by (simp only: loop_inner_add x)
  then show ?thesis by (simp add: loop_inner_wraps loop_inner_zero del: of_nat_numeral)
qed

lemma Loop_diverges:
  assumes "Loop ab n ulIters x = Some b"
  shows "\<not> (last_outer + 1 < unat ulIters \<and> unat x \<le> last_outer + 1 \<and> (\<forall>i. \<not> ab i))"
proof (rule Loop.raw_induct [where P = "\<lambda>ab n ulIters x b. \<not> (last_outer + 1 < unat ulIters \<and> unat x \<le> last_outer + 1 \<and> (\<forall>i. \<not> ab i))",
      OF _ assms], goal_cases)
  case 1: (1 rec ab n ulIters x b)
  show ?case
  proof
    assume h: "last_outer + 1 < unat ulIters \<and> unat x \<le> last_outer + 1 \<and> (\<forall>i. \<not> ab i)"
    have lt: "x < ulIters" using h by (simp add: word_less_nat_alt)
    let ?y = "loop_inner (unat x) x + 1"
    have "unat ?y \<le> last_outer + 1"
    proof (cases "unat x = last_outer + 1")
      case True
      show ?thesis unfolding loop_restart [OF True] by simp
    next
      case False
      then show ?thesis using loop_step(2) [of x "unat x"] h by simp
    qed
    moreover have "rec ab (n + 1) ulIters ?y = Some b" using 1(2) h lt by (simp add: Let_def)
    ultimately show False using 1(1) [of ab "n + 1" ulIters ?y b] h by simp
  qed
qed

text \<open>
  \<^bold>\<open>C33\<close> Without an abort \<^verbatim>\<open>CJobTest::Loop\<close> returns exactly when the number of iterations is at most
  \<open>2 ^ 32 - 44\<close>: above it the unsigned counter wraps around before it reaches the bound, and the loop never
  ends.  The default value of \<^verbatim>\<open>m_ulIters\<close>, the largest unsigned number, is above it.
\<close>

theorem Loop_returns_iff:
  "(\<exists>b. Loop (\<lambda>_. False) 0 ulIters 0 = Some b) \<longleftrightarrow> unat ulIters \<le> 2 ^ 32 - 44"
proof
  assume "\<exists>b. Loop (\<lambda>_. False) 0 ulIters 0 = Some b"
  then obtain b where "Loop (\<lambda>_. False) 0 ulIters 0 = Some b" by (rule exE)
  from Loop_diverges [OF this] show "unat ulIters \<le> 2 ^ 32 - 44" by force
next
  assume "unat ulIters \<le> 2 ^ 32 - 44"
  then show "\<exists>b. Loop (\<lambda>_. False) 0 ulIters 0 = Some b"
    using Loop_ends [of ulIters "\<lambda>_. False" 0 0] by auto
qed

subsubsection \<open>Execution\<close>

text \<open>
  The abort flag as \<^verbatim>\<open>GPOS_CHECK_ABORT\<close> reads it: after a child was added, and in the rounds of \<^verbatim>\<open>Loop\<close>.
  When \<^verbatim>\<open>Loop\<close> does not return, neither does the job, which is counted as not returning normally.
\<close>

record test_env =
  abort_spawn :: "test_search \<Rightarrow> bool"
  abort_loop :: "test_search \<Rightarrow> nat \<Rightarrow> bool"

definition Loop_job :: "test_env \<Rightarrow> job_ref \<Rightarrow> test_search \<Rightarrow> bool" where
  "Loop_job te pj s \<longleftrightarrow> Loop (abort_loop te s) 0 (m_ulIters (job_of s pj)) 0 = Some True"

text \<open>The loop that adds children; \<open>init\<close> is how a child is initialized from its parent.\<close>

fun add_children ::
  "test_env \<Rightarrow> (CJobTest \<Rightarrow> CJobTest \<Rightarrow> CJobTest) \<Rightarrow> job_ref \<Rightarrow> nat \<Rightarrow> test_search \<Rightarrow> bool \<times> test_search" where
  "add_children te init pj 0 s = (True, s)"
| "add_children te init pj (Suc i) s =
    (let s = spawn_job EjtTest (init (job_of s pj)) (Some pj) s
     in if abort_spawn te s then (False, s) else add_children te init pj i s)"

definition FSpawn :: "test_env \<Rightarrow> (test_ext, nat) job_code" where
  "FSpawn te pj s =
    (let ulpOffset = m_ulpCnt s; s = set_cnt (ulpOffset + 1) s
     in if ulpOffset < unat (m_ulRounds (job_of s pj)) then
          (case add_children te Init_copy pj (unat (m_ulFanout (job_of s pj))) s of
             (False, s) \<Rightarrow> (None, s)
           | (True, s) \<Rightarrow> if Loop_job te pj s then (Some False, s) else (None, s))
        else (Some True, s))"

definition FStartQueue :: "test_env \<Rightarrow> (test_ext, nat) job_code" where
  "FStartQueue te pj s =
    (let ulpOffset = m_ulpCnt s; s = set_cnt (ulpOffset + 1) s
     in if ulpOffset = 0 then
          (case add_children te (\<lambda>pjt. Init_test EttQueueu (m_ulRounds pjt) (m_ulFanout pjt) (m_ulIters pjt) (m_pjqTest pjt))
             pj (unat (m_ulFanout (job_of s pj))) s of
             (False, s) \<Rightarrow> (None, s)
           | (True, s) \<Rightarrow> (Some False, s))
        else (Some True, s))"

definition FQueue :: "test_env \<Rightarrow> (test_ext, nat) job_code" where
  "FQueue te pj s =
    (let q = the (m_pjqTest (job_of s pj))
     in case EjqrAdd q pj s of
          (EjqrMain, s) \<Rightarrow> if Loop_job te pj s then (Some True, NotifyCompleted q s) else (None, s)
        | (EjqrQueued, s) \<Rightarrow> (Some False, s)
        | (EjqrCompleted, s) \<Rightarrow> (Some True, s))"

definition FExecute_test :: "test_env \<Rightarrow> (test_ext, nat) job_code" where
  "FExecute_test te pj s =
    (case m_ett (job_of s pj) of
       EttSpawn \<Rightarrow> FSpawn te pj s
     | EttQueueu \<Rightarrow> FQueue te pj s
     | EttStartQueue \<Rightarrow> FStartQueue te pj s)"

subsection \<open>The contract\<close>

text \<open>All jobs of a test have the same parameters; those that meet in a queue are below the others.\<close>

definition test_kind :: "32 word \<Rightarrow> 32 word \<Rightarrow> 32 word \<Rightarrow> test_ext job_kind" where
  "test_kind ulRounds ulFanout ulIters =
    \<lparr>enters = (\<lambda>j. if m_ett j = EttQueueu then m_pjqTest j else None),
     allowed = (\<lambda>j. m_pjq j = None \<and> m_ulRounds j = ulRounds \<and> m_ulFanout j = ulFanout \<and> m_ulIters j = ulIters
       \<and> (m_ett j = EttSpawn \<or> m_pjqTest j \<noteq> None)),
     level = (\<lambda>j. if m_ett j = EttQueueu then 0 else 1),
     queue_level = (\<lambda>_. 0)\<rparr>"

definition test_body :: "test_env \<Rightarrow> (test_ext, nat) job_code" where
  "test_body te pj s =
    (case m_ett (job_of s pj) of
       EttSpawn \<Rightarrow> FSpawn te pj s
     | EttQueueu \<Rightarrow> (if Loop_job te pj s then Some True else None, s)
     | EttStartQueue \<Rightarrow> FStartQueue te pj s)"

text \<open>A round of spawning is paid for from the rounds that are left.\<close>

definition test_pot :: "32 word \<Rightarrow> 32 word \<Rightarrow> nat \<Rightarrow> nat" where
  "test_pot ulRounds ulFanout cnt = (max (unat ulRounds) 1 - cnt) * (unat ulFanout + 1)"

lemma test_kind_stable: "kind_stable (test_kind ulRounds ulFanout ulIters)"
  by (simp add: kind_stable_def test_kind_def)

lemma set_cnt_fields [simp]:
  "job_store (set_cnt n s) = job_store s" "search.more (set_cnt n s) = n" "sched (set_cnt n s) = sched s"
  "factory (set_cnt n s) = factory s" "queue_store (set_cnt n s) = queue_store s"
  by (simp_all add: set_cnt_def)

lemma set_cnt_same: "same_jobs k s (set_cnt n s)"
  by (simp add: same_jobs_def)

lemma same_jobs_trans: "same_jobs k s t \<Longrightarrow> same_jobs k t u \<Longrightarrow> same_jobs k s u"
  by (simp add: same_jobs_def)

lemma spawn_run_quiet: "spawn_run k pj jp n t u \<Longrightarrow> same_jobs k s t \<Longrightarrow> spawn_run k pj jp n s u"
  by (erule spawn_run.cases) (blast intro: spawn_run.intros same_jobs_trans)+

text \<open>What does not depend on what the scheduler changes is the same in the parent after adding a child.\<close>

definition unscheduled :: "(CJobTest \<Rightarrow> 'a) \<Rightarrow> bool" where
  "unscheduled f \<longleftrightarrow> (\<forall>j p n st. f (j\<lparr>m_pjParent := p\<rparr>) = f j \<and> f (j\<lparr>m_ulpRefs := n\<rparr>) = f j \<and> f (j\<lparr>m_ejs := st\<rparr>) = f j)"

lemma spawn_job_keeps:
  assumes "unscheduled f" "\<And>j. f (g j) = c" "f (job_of s pj) = c"
  shows "f (job_of (spawn_job ejt g parent s) pj) = c"
proof -
  have u: "f (j\<lparr>m_pjParent := p\<rparr>) = f j" "f (j\<lparr>m_ulpRefs := n\<rparr>) = f j" "f (j\<lparr>m_ejs := st\<rparr>) = f j" for j p n st
    using assms(1) by (simp_all add: unscheduled_def)
  show ?thesis using assms(2,3)
    by (simp add: spawn_job_def PjCreate_def Add_def Schedule_def Let_def case_prod_beta when_tracking_def
        SetState_job_def SetParent_def IncRefs_def u split: option.split)
qed

lemma add_children_keeps:
  assumes f: "unscheduled f" "\<And>j. f (g j) = c" and init: "unscheduled init" "\<And>j. init (g j) = g"
  shows "init (job_of s pj) = g \<Longrightarrow> f (job_of s pj) = c \<Longrightarrow> f (job_of (snd (add_children te init pj n s)) pj) = c"
proof (induction n arbitrary: s)
  case (Suc n)
  let ?s = "spawn_job EjtTest g (Some pj) s"
  have k: "init (job_of ?s pj) = g" "f (job_of ?s pj) = c"
    using spawn_job_keeps [OF init Suc.prems(1)] spawn_job_keeps [OF f Suc.prems(2)] by auto
  from Suc.IH [OF this] show ?case using Suc.prems k by (simp add: Let_def)
qed simp

lemma add_children_run:
  assumes init: "unscheduled init" "\<And>j. init (g j) = g" and ok: "init_ok k g" "\<And>j. below_parent k (g j) jp"
  shows "init (job_of s pj) = g \<Longrightarrow> add_children te init pj n s = (True, t) \<Longrightarrow>
    spawn_run k pj jp n s t \<and> search.more t = search.more s"
proof (induction n arbitrary: s)
  case 0
  then show ?case by (auto intro: spawn_run.quiet_step)
next
  case (Suc n)
  let ?s = "spawn_job EjtTest g (Some pj) s"
  have "init (job_of ?s pj) = g" by (rule spawn_job_keeps [OF init Suc.prems(1)])
  moreover have "add_children te init pj n ?s = (True, t)"
    using Suc.prems by (simp add: Let_def split: if_splits)
  ultimately have "spawn_run k pj jp n ?s t" "search.more t = search.more s" using Suc.IH [of ?s] by auto
  then show ?case using spawn_run.spawn_step [OF same_jobs_refl ok] by blast
qed

lemma Init_unscheduled:
  "unscheduled Init_copy" "unscheduled (\<lambda>pjt. Init_test ett (m_ulRounds pjt) (m_ulFanout pjt) (m_ulIters pjt) (m_pjqTest pjt))"
  by (simp_all add: unscheduled_def Init_copy_def)

lemma Init_again:
  "Init_copy (Init_copy jp j) = Init_copy jp"
  "Init_test ett (m_ulRounds (Init_test e r f i q j)) (m_ulFanout (Init_test e r f i q j)) (m_ulIters (Init_test e r f i q j))
    (m_pjqTest (Init_test e r f i q j)) = Init_test ett r f i q"
  by (simp_all add: Init_copy_def Init_test_def)

lemma pot_spends: "cnt < max (unat ulRounds) 1 \<Longrightarrow>
  test_pot ulRounds ulFanout (Suc cnt) + unat ulFanout < test_pot ulRounds ulFanout cnt"
proof -
  assume "cnt < max (unat ulRounds) 1"
  then have "max (unat ulRounds) 1 - cnt = Suc (max (unat ulRounds) 1 - Suc cnt)" by simp
  then show ?thesis by (simp only: test_pot_def mult_Suc)
qed

lemma pot_mono: "test_pot ulRounds ulFanout (Suc cnt) \<le> test_pot ulRounds ulFanout cnt"
  unfolding test_pot_def by (intro mult_le_mono) simp_all

lemma FSpawn_contract:
  assumes ok: "allowed (test_kind r f i) (job_of s pj)" and sp: "m_ett (job_of s pj) = EttSpawn"
    and run: "FSpawn te pj s = (Some c, t)"
  shows "\<exists>n. spawn_run (test_kind r f i) pj (job_of s pj) n s t \<and>
    (if c then n = 0 \<and> test_pot r f (search.more t) \<le> test_pot r f (search.more s)
     else test_pot r f (search.more t) + n < test_pot r f (search.more s))"
proof (cases "m_ulpCnt s < unat r")
  case True
  let ?k = "test_kind r f i" and ?s = "set_cnt (m_ulpCnt s + 1) s" and ?g = "Init_copy (job_of s pj)"
  have par: "m_ulRounds (job_of s pj) = r" "m_ulFanout (job_of s pj) = f" using ok by (auto simp: test_kind_def)
  have t: "add_children te Init_copy pj (unat f) ?s = (True, t)" and c: "\<not> c"
    using run True par by (auto simp: FSpawn_def Let_def split: prod.splits bool.splits if_splits)
  have "init_ok ?k ?g" "\<And>j. below_parent ?k (?g j) (job_of s pj)" using ok sp
    by (auto simp: init_ok_def job_fine_def below_parent_def test_kind_def Init_copy_def Init_test_def)
  from add_children_run [OF Init_unscheduled(1) _ this _ t] Init_again(1)
  have "spawn_run ?k pj (job_of s pj) (unat f) ?s t" "search.more t = m_ulpCnt s + 1" by simp_all
  then show ?thesis using spawn_run_quiet [OF _ set_cnt_same] pot_spends [of "m_ulpCnt s" r f] True c
    by (intro exI [of _ "unat f"]) auto
next
  case False
  then have "c" "t = set_cnt (m_ulpCnt s + 1) s" using run ok by (auto simp: FSpawn_def Let_def test_kind_def)
  then show ?thesis using pot_mono by (intro exI [of _ 0]) (auto intro: spawn_run.quiet_step set_cnt_same)
qed

lemma FStartQueue_contract:
  assumes ok: "allowed (test_kind r f i) (job_of s pj)" and st: "m_ett (job_of s pj) = EttStartQueue"
    and run: "FStartQueue te pj s = (Some c, t)"
  shows "\<exists>n. spawn_run (test_kind r f i) pj (job_of s pj) n s t \<and>
    (if c then n = 0 \<and> test_pot r f (search.more t) \<le> test_pot r f (search.more s)
     else test_pot r f (search.more t) + n < test_pot r f (search.more s))"
proof (cases "m_ulpCnt s = 0")
  case True
  let ?init = "\<lambda>pjt. Init_test EttQueueu (m_ulRounds pjt) (m_ulFanout pjt) (m_ulIters pjt) (m_pjqTest pjt)"
  let ?k = "test_kind r f i" and ?s = "set_cnt (m_ulpCnt s + 1) s" and ?g = "?init (job_of s pj)"
  have par: "m_ulFanout (job_of s pj) = f" using ok by (auto simp: test_kind_def)
  have t: "add_children te ?init pj (unat f) ?s = (True, t)" and c: "\<not> c"
    using run True par by (auto simp: FStartQueue_def Let_def split: prod.splits bool.splits)
  have "init_ok ?k ?g" "\<And>j. below_parent ?k (?g j) (job_of s pj)" using ok st
    by (auto simp: init_ok_def job_fine_def below_parent_def test_kind_def Init_test_def)
  from add_children_run [OF Init_unscheduled(2) _ this _ t] Init_again(2)
  have "spawn_run ?k pj (job_of s pj) (unat f) ?s t" "search.more t = m_ulpCnt s + 1" by simp_all
  then show ?thesis using spawn_run_quiet [OF _ set_cnt_same] pot_spends [of "m_ulpCnt s" r f] True c
    by (intro exI [of _ "unat f"]) auto
next
  case False
  then have "c" "t = set_cnt (m_ulpCnt s + 1) s" using run by (auto simp: FStartQueue_def Let_def)
  then show ?thesis using pot_mono by (intro exI [of _ 0]) (auto intro: spawn_run.quiet_step set_cnt_same)
qed

lemma FExecute_test_queue:
  assumes "allowed (test_kind r f i) (job_of s pj)"
  shows "FExecute (FExecute_test te) pj s = (case enters (test_kind r f i) (job_of s pj) of
    None \<Rightarrow> test_body te pj s | Some q \<Rightarrow> queue_execute q (test_body te) pj s)"
proof (cases "m_ett (job_of s pj) = EttQueueu")
  case True
  then obtain q where q: "m_pjq (job_of s pj) = None" "m_pjqTest (job_of s pj) = Some q"
    using assms by (auto simp: test_kind_def)
  have "m_ett (job_of (snd (EjqrAdd q pj s)) pj) = EttQueueu"
    using True by (simp add: EjqrAdd_def IncRefs_def Let_def)
  then show ?thesis using True q
    by (auto simp: FExecute_def FExecute_test_def FQueue_def queue_execute_def test_body_def test_kind_def
        split: prod.splits EJobQueueResult.splits)
next
  case False
  then show ?thesis using assms
    by (cases "m_ett (job_of s pj)") (auto simp: FExecute_def FExecute_test_def test_body_def test_kind_def)
qed

interpretation test: spawning_code "test_kind r f i" "FExecute_test te" "test_body te" "test_pot r f" for r f i te
proof unfold_locales
  show "kind_stable (test_kind r f i)" by (rule test_kind_stable)
  show "FExecute (FExecute_test te) pj s = (case enters (test_kind r f i) (job_of s pj) of
      None \<Rightarrow> test_body te pj s | Some q \<Rightarrow> queue_execute q (test_body te) pj s)"
    if "allowed (test_kind r f i) (job_of s pj)" for s pj
    by (rule FExecute_test_queue [OF that])
  show "\<exists>n. spawn_run (test_kind r f i) pj (job_of s pj) n s t \<and>
      (if c then n = 0 \<and> test_pot r f (search.more t) \<le> test_pot r f (search.more s)
       else test_pot r f (search.more t) + n < test_pot r f (search.more s))"
    if ok: "allowed (test_kind r f i) (job_of s pj)" and run: "test_body te pj s = (Some c, t)" for s pj c t
  proof (cases "m_ett (job_of s pj)")
    case EttSpawn
    then show ?thesis using FSpawn_contract [OF ok] run by (simp add: test_body_def)
  next
    case EttStartQueue
    then show ?thesis using FStartQueue_contract [OF ok] run by (simp add: test_body_def)
  next
    case EttQueueu
    then show ?thesis using run
      by (intro exI [of _ 0]) (auto simp: test_body_def split: if_splits intro: spawn_run.quiet_step)
  qed
qed

subsection \<open>Completion of the tests\<close>

lemma add_children_done:
  "\<forall>s. \<not> abort_spawn te s \<Longrightarrow> fst (add_children te init pj n s)"
  by (induction n arbitrary: s) (simp_all add: Let_def)

lemma Loop_job_done:
  assumes "\<forall>s n. \<not> abort_loop te s n" "unat (m_ulIters (job_of s pj)) \<le> 2 ^ 32 - 44"
  shows "Loop_job te pj s"
  using Loop_ends [of "m_ulIters (job_of s pj)" "abort_loop te s" 0 0] assms by (auto simp: Loop_job_def)

lemma test_body_returns:
  assumes ab: "\<forall>s. \<not> abort_spawn te s" "\<forall>s n. \<not> abort_loop te s n" and i: "unat i \<le> 2 ^ 32 - 44"
    and ok: "allowed (test_kind r f i) (job_of s pj)"
  shows "fst (test_body te pj s) \<noteq> None"
proof -
  have it: "m_ulIters (job_of s pj) = i" using ok by (simp add: test_kind_def)
  have "m_ulIters (job_of (snd (add_children te Init_copy pj n (set_cnt c s))) pj) = i" for n c
    by (rule add_children_keeps [OF _ _ Init_unscheduled(1), of m_ulIters "Init_copy (job_of s pj)"])
      (simp_all add: unscheduled_def Init_copy_def Init_test_def it)
  then have "Loop_job te pj (snd (add_children te Init_copy pj n (set_cnt c s)))" for n c
    using Loop_job_done [OF ab(2)] i by simp
  moreover have "Loop_job te pj s" using Loop_job_done [OF ab(2)] it i by simp
  ultimately show ?thesis using add_children_done [OF ab(1)]
    by (auto simp: test_body_def FSpawn_def FStartQueue_def Let_def case_prod_beta split: ETestType.split bool.split)
qed

lemma test_init_ok: "ett = EttSpawn \<or> q \<noteq> None \<Longrightarrow> init_ok (test_kind r f i) (Init_test ett r f i q)"
  by (auto simp: init_ok_def job_fine_def test_kind_def Init_test_def)

text \<open>A state before a test: no job and new queues.\<close>

definition test_start :: test_search where
  "test_start = \<lparr>job_store = \<lambda>_. \<lparr>m_pjParent = None, m_pjq = None, m_ulpRefs = 0, m_ejt = EjtTest, m_fInit = False,
      m_ejs = EjsInit, m_ett = EttSpawn, m_ulRounds = - 1, m_ulFanout = - 1, m_ulIters = - 1, m_pjqTest = None\<rparr>,
    queue_store = \<lambda>_. CJobQueue_new, sched = CScheduler_new 0 False, factory = \<lparr>m_ulJobs = 0, m_pools = \<lambda>_. None\<rparr>,
    \<dots> = 0\<rparr>"

definition no_abort :: test_env where
  "no_abort = \<lparr>abort_spawn = \<lambda>_. False, abort_loop = \<lambda>_ _. False\<rparr>"

definition quiet_env :: "(test_ext, nat) sched_env" where
  "quiet_env = \<lparr>fProfile = True, ElapsedUS = \<lambda>_. 1, fAbort = \<lambda>_. False\<rparr>"

theorem Run_completes_all_jobs_witness:
  "\<exists>e. Run (FExecute_test no_abort) quiet_env
      (spawn_job EjtTest (Init_test EttStartQueue 0 5 10 (Some 0)) None (new_search 8 True test_start)) = Some e
    \<and> (case e of Finished t \<Rightarrow> settled t
       | Raised t \<Rightarrow> (\<exists>u. fAbort quiet_env u)
         \<or> (\<exists>pj u. allowed (test_kind 0 5 10) (job_of u pj)
           \<and> fst (test_body no_abort pj u) = None))"
  by (rule Run_completes_all_jobs [OF test.spawning_code_axioms test_init_ok]) (simp_all add: test_start_def)



end
