(* ===== verification/HashMap.thy ===== *)
theory HashMap
  imports BitVector
begin

text \<open>
  The hash containers of gpos: \<^verbatim>\<open>CHashMap\<close> and \<^verbatim>\<open>CHashSet\<close> with their iterators, over the array operations
  of \<^verbatim>\<open>CDynamicPtrArray\<close>.  A hash chain is an array of elements, created when the first element falls into it; a
  separate array keeps the keys in the order of insertion for the iterators.  Keys are compared with the
  parameter \<open>EqFn\<close> and placed with the parameter \<open>HashFn\<close>.
\<close>

subsection \<open>CDynamicPtrArray\<close>

text \<open>Arrays are lists; capacity and growth are not observable.  A missing element or position is \<open>None\<close>.\<close>

fun arr_Find :: "('a \<Rightarrow> bool) \<Rightarrow> 'a list \<Rightarrow> 'a option" where
  "arr_Find eq [] = None"
| "arr_Find eq (x # xs) = (if eq x then Some x else arr_Find eq xs)"

fun arr_IndexOf :: "('a \<Rightarrow> bool) \<Rightarrow> 'a list \<Rightarrow> nat option" where
  "arr_IndexOf eq [] = None"
| "arr_IndexOf eq (x # xs) = (if eq x then Some 0 else map_option Suc (arr_IndexOf eq xs))"

definition arr_Swap :: "nat \<Rightarrow> nat \<Rightarrow> 'a list \<Rightarrow> 'a list" where
  "arr_Swap pos1 pos2 xs = (let temp = xs ! pos1; xs = xs[pos1 := xs ! pos2] in xs[pos2 := temp])"

definition arr_RemoveLast :: "'a list \<Rightarrow> 'a option \<times> 'a list" where
  "arr_RemoveLast xs = (if xs = [] then (None, xs) else (Some (last xs), butlast xs))"

text \<open>\<open>eq x y\<close> compares an element \<open>x\<close> of this array with an element \<open>y\<close> of the other one.\<close>

fun IndexesOfSubsequence :: "('a \<Rightarrow> 'a \<Rightarrow> bool) \<Rightarrow> 'a list \<Rightarrow> 'a list \<Rightarrow> nat list option" where
  "IndexesOfSubsequence eq xs [] = Some []"
| "IndexesOfSubsequence eq xs (e # es) =
    (case arr_IndexOf (\<lambda>x. eq x e) xs of
       None \<Rightarrow> None
     | Some index \<Rightarrow> map_option ((#) index) (IndexesOfSubsequence eq xs es))"

definition CreateReducedArray :: "'a list \<Rightarrow> nat list \<Rightarrow> 'a list" where
  "CreateReducedArray xs indexes_to_choose = map ((!) xs) indexes_to_choose"

lemma arr_Find_None: "arr_Find eq xs = None \<longleftrightarrow> (\<forall>x\<in>set xs. \<not> eq x)"
  by (induction xs) auto

lemma arr_Find_Some: "arr_Find eq xs = Some x \<Longrightarrow> x \<in> set xs \<and> eq x"
  by (induction xs) (auto split: if_splits)

lemma arr_IndexOf_None: "arr_IndexOf eq xs = None \<longleftrightarrow> (\<forall>x\<in>set xs. \<not> eq x)"
  by (induction xs) auto

lemma arr_IndexOf_Some:
  "arr_IndexOf eq xs = Some i \<Longrightarrow> i < length xs \<and> eq (xs ! i) \<and> arr_Find eq xs = Some (xs ! i)"
  by (induction xs arbitrary: i) (auto split: if_splits)


subsection \<open>Hash chains\<close>

text \<open>
  Chains hold elements with a key; \<open>None\<close> is the chain pointer that is still null.  \<open>chain_Append\<close> is the part of
  \<^verbatim>\<open>Insert\<close> that creates the chain if necessary and appends the element.
\<close>

type_synonym 'e hash_chains = "'e list option list"

definition chain_Find :: "('e \<Rightarrow> bool) \<Rightarrow> 'e list option \<Rightarrow> 'e option" where
  "chain_Find eq chain = (case chain of None \<Rightarrow> None | Some es \<Rightarrow> arr_Find eq es)"

definition chain_Append :: "nat \<Rightarrow> 'e \<Rightarrow> 'e hash_chains \<Rightarrow> nat list \<Rightarrow> 'e hash_chains \<times> nat list" where
  "chain_Append i elem cs filled =
    (let (cs, filled) = (case cs ! i of None \<Rightarrow> (cs[i := Some []], filled @ [i]) | Some _ \<Rightarrow> (cs, filled))
     in (cs[i := Some (the (cs ! i) @ [elem])], filled))"

definition elems_of :: "'e hash_chains \<Rightarrow> 'e set" where
  "elems_of cs = {e. \<exists>es. Some es \<in> set cs \<and> e \<in> set es}"

text \<open>What the containers rely on: equality is an equivalence that the hash function respects.\<close>

locale hash_keys =
  fixes HashFn :: "'k \<Rightarrow> nat" and EqFn :: "'k \<Rightarrow> 'k \<Rightarrow> bool"
  assumes eq_refl: "EqFn a a"
    and eq_sym: "EqFn a b \<Longrightarrow> EqFn b a"
    and eq_trans: "EqFn a b \<Longrightarrow> EqFn b c \<Longrightarrow> EqFn a c"
    and eq_hash: "EqFn a b \<Longrightarrow> HashFn a = HashFn b"

text \<open>Elements lie in the chain of their hash value, no two with equal keys; the created chains are recorded.\<close>

definition chains_ok ::
  "('k \<Rightarrow> nat) \<Rightarrow> ('k \<Rightarrow> 'k \<Rightarrow> bool) \<Rightarrow> ('e \<Rightarrow> 'k) \<Rightarrow> nat \<Rightarrow> 'e hash_chains \<Rightarrow> nat list \<Rightarrow> bool" where
  "chains_ok HashFn EqFn key n cs filled \<longleftrightarrow> 0 < n \<and> length cs = n
    \<and> (\<forall>i<n. \<forall>es. cs ! i = Some es \<longrightarrow> (\<forall>e\<in>set es. HashFn (key e) mod n = i) \<and> sorted_wrt (\<lambda>a b. \<not> EqFn (key a) (key b)) es)
    \<and> distinct filled \<and> set filled = {i. i < n \<and> cs ! i \<noteq> None}"

lemma elems_of_nth: "e \<in> elems_of cs \<longleftrightarrow> (\<exists>i es. i < length cs \<and> cs ! i = Some es \<and> e \<in> set es)"
  unfolding elems_of_def by (auto simp: in_set_conv_nth)

lemma elems_of_update:
  assumes "i < length cs"
  shows "elems_of (cs[i := Some es]) =
    {e. \<exists>j fs. j < length cs \<and> j \<noteq> i \<and> cs ! j = Some fs \<and> e \<in> set fs} \<union> set es"
  using assms unfolding elems_of_nth [abs_def] set_eq_iff by (auto simp: elems_of_nth nth_list_update split: if_splits)

lemma elems_of_split:
  assumes "i < length cs"
  shows "elems_of cs = {e. \<exists>j fs. j < length cs \<and> j \<noteq> i \<and> cs ! j = Some fs \<and> e \<in> set fs}
    \<union> set (case cs ! i of None \<Rightarrow> [] | Some es \<Rightarrow> es)"
proof (cases "cs ! i")
  case None
  then have "e \<in> elems_of cs \<longleftrightarrow> (\<exists>j fs. j < length cs \<and> j \<noteq> i \<and> cs ! j = Some fs \<and> e \<in> set fs)" for e
    unfolding elems_of_nth by (metis option.distinct(1))
  then show ?thesis using None by (simp add: set_eq_iff)
next
  case (Some es)
  then have "cs[i := Some es] = cs" by (metis list_update_id)
  then show ?thesis using elems_of_update [OF assms, of es] Some by simp
qed

lemma chain_Append_nth:
  assumes "i < length cs" "chain_Append i elem cs filled = (cs', filled')"
  shows "cs' = cs[i := Some (case cs ! i of None \<Rightarrow> [elem] | Some es \<Rightarrow> es @ [elem])]"
    "filled' = (if cs ! i = None then filled @ [i] else filled)"
  using assms by (auto simp: chain_Append_def Let_def split: option.splits)

lemma sorted_wrt_pair:
  assumes "sorted_wrt P xs" "a \<in> set xs" "b \<in> set xs" "\<And>x y. P x y \<Longrightarrow> P y x"
  shows "a = b \<or> P a b"
  using assms(1-3) by (induction xs) (auto intro: assms(4))

lemma chains_ok_elem:
  assumes "chains_ok HashFn EqFn key n cs filled" "i < n" "cs ! i = Some es" "e \<in> set es"
  shows "HashFn (key e) mod n = i" "e \<in> elems_of cs"
  using assms unfolding chains_ok_def elems_of_nth by auto

context hash_keys
begin

lemma eq_iff: "EqFn a b \<Longrightarrow> EqFn a c \<longleftrightarrow> EqFn b c"
  using eq_sym eq_trans by blast

text \<open>A lookup finds the element with an equal key, wherever it is.\<close>

lemma chain_Find_iff:
  assumes ok: "chains_ok HashFn EqFn key n cs filled"
  shows "chain_Find (\<lambda>e. EqFn (key e) k) (cs ! (HashFn k mod n)) = Some e \<longleftrightarrow> e \<in> elems_of cs \<and> EqFn (key e) k"
proof
  have n: "HashFn k mod n < n" and len: "length cs = n" using ok by (auto simp: chains_ok_def)
  assume "chain_Find (\<lambda>e. EqFn (key e) k) (cs ! (HashFn k mod n)) = Some e"
  then show "e \<in> elems_of cs \<and> EqFn (key e) k"
    using n len by (auto simp: chain_Find_def elems_of_nth split: option.splits dest!: arr_Find_Some)
next
  assume e: "e \<in> elems_of cs \<and> EqFn (key e) k"
  then obtain i es where i: "i < n" "cs ! i = Some es" "e \<in> set es" using ok by (auto simp: elems_of_nth chains_ok_def)
  have "i = HashFn k mod n" using chains_ok_elem(1) [OF ok i] eq_hash e by auto
  moreover obtain f where f: "arr_Find (\<lambda>e. EqFn (key e) k) es = Some f" using i e arr_Find_None by fastforce
  moreover have "f = e"
  proof -
    have "sorted_wrt (\<lambda>a b. \<not> EqFn (key a) (key b)) es" using ok i by (auto simp: chains_ok_def)
    then have "f = e \<or> \<not> EqFn (key f) (key e)"
      using arr_Find_Some [OF f] i(3) eq_sym by (blast dest: sorted_wrt_pair)
    then show ?thesis using arr_Find_Some [OF f] e eq_sym eq_trans by blast
  qed
  ultimately show "chain_Find (\<lambda>e. EqFn (key e) k) (cs ! (HashFn k mod n)) = Some e"
    using i(2) by (simp add: chain_Find_def)
qed

lemma elems_unique:
  assumes "chains_ok HashFn EqFn key n cs filled" "a \<in> elems_of cs" "b \<in> elems_of cs" "EqFn (key a) (key b)"
  shows "a = b"
  using chain_Find_iff [OF assms(1), of "key b" a] chain_Find_iff [OF assms(1), of "key b" b] assms eq_refl by simp

lemma chain_Find_None:
  assumes "chains_ok HashFn EqFn key n cs filled"
  shows "chain_Find (\<lambda>e. EqFn (key e) k) (cs ! (HashFn k mod n)) = None \<longleftrightarrow> (\<forall>e\<in>elems_of cs. \<not> EqFn (key e) k)"
  using chain_Find_iff [OF assms] by (metis not_Some_eq)

lemma chain_Append_ok:
  assumes ok: "chains_ok HashFn EqFn key n cs filled" and new: "\<forall>e\<in>elems_of cs. \<not> EqFn (key e) (key elem)"
    and app: "chain_Append (HashFn (key elem) mod n) elem cs filled = (cs', filled')"
  shows "chains_ok HashFn EqFn key n cs' filled'" "elems_of cs' = insert elem (elems_of cs)"
proof -
  define h where "h = HashFn (key elem) mod n"
  have n: "h < n" and len: "length cs = n" using ok by (auto simp: chains_ok_def h_def)
  have i: "h < length cs" using n len by simp
  note cs' = chain_Append_nth [OF i app [folded h_def]]
  let ?es = "case cs ! h of None \<Rightarrow> [] | Some es \<Rightarrow> es"
  have es: "(case cs ! h of None \<Rightarrow> [elem] | Some es \<Rightarrow> es @ [elem]) = ?es @ [elem]" by (simp split: option.split)
  have "(\<forall>e\<in>set ?es. HashFn (key e) mod n = h \<and> e \<in> elems_of cs) \<and> sorted_wrt (\<lambda>a b. \<not> EqFn (key a) (key b)) ?es"
  proof (cases "cs ! h")
    case (Some es)
    then show ?thesis using chains_ok_elem [OF ok n Some] ok n by (auto simp: chains_ok_def)
  qed simp
  then have old: "\<forall>e\<in>set ?es. HashFn (key e) mod n = h \<and> e \<in> elems_of cs"
    "sorted_wrt (\<lambda>a b. \<not> EqFn (key a) (key b)) ?es" by auto
  have srt: "sorted_wrt (\<lambda>a b. \<not> EqFn (key a) (key b)) (?es @ [elem])" using old new by (simp add: sorted_wrt_append)
  have "(\<forall>e\<in>set fs. HashFn (key e) mod n = j) \<and> sorted_wrt (\<lambda>a b. \<not> EqFn (key a) (key b)) fs"
    if j: "j < n" "cs' ! j = Some fs" for j fs
  proof (cases "j = h")
    case True
    then have "fs = ?es @ [elem]" using j i unfolding cs'(1) es by simp
    then show ?thesis using old(1) srt True by (simp add: h_def [symmetric])
  next
    case False
    then have "cs ! j = Some fs" using j unfolding cs'(1) by simp
    then show ?thesis using ok j(1) by (simp add: chains_ok_def)
  qed
  moreover have "distinct filled'" "set filled' = {i. i < n \<and> cs' ! i \<noteq> None}"
    using ok n len by (auto simp: cs' chains_ok_def nth_list_update)
  ultimately show "chains_ok HashFn EqFn key n cs' filled'"
    using n len by (simp add: chains_ok_def cs'(1))
  show "elems_of cs' = insert elem (elems_of cs)"
    unfolding cs'(1) es elems_of_update [OF i] elems_of_split [OF i] by auto
qed

end

subsection \<open>CHashMap\<close>

text \<open>An element is a key and a value; a value can be a null pointer.\<close>

record ('k, 'v) CHashMap =
  m_num_chains :: nat
  m_map_size :: nat
  m_chains :: "('k \<times> 'v option) hash_chains"
  m_keys :: "'k list"
  m_filled_chains :: "nat list"

definition CHashMap_new :: "nat \<Rightarrow> ('k, 'v) CHashMap" where
  "CHashMap_new num_chains = \<lparr>m_num_chains = num_chains, m_map_size = 0, m_chains = replicate num_chains None,
    m_keys = [], m_filled_chains = []\<rparr>"

definition GetChain :: "('k \<Rightarrow> nat) \<Rightarrow> 'k \<Rightarrow> ('k, 'v) CHashMap \<Rightarrow> nat" where
  "GetChain HashFn key m = HashFn key mod m_num_chains m"

definition Lookup_map :: "('k \<Rightarrow> nat) \<Rightarrow> ('k \<Rightarrow> 'k \<Rightarrow> bool) \<Rightarrow> 'k \<Rightarrow> ('k, 'v) CHashMap \<Rightarrow> ('k \<times> 'v option) option" where
  "Lookup_map HashFn EqFn key m = chain_Find (\<lambda>e. EqFn (fst e) key) (m_chains m ! GetChain HashFn key m)"

definition Find_map :: "('k \<Rightarrow> nat) \<Rightarrow> ('k \<Rightarrow> 'k \<Rightarrow> bool) \<Rightarrow> 'k \<Rightarrow> ('k, 'v) CHashMap \<Rightarrow> 'v option" where
  "Find_map HashFn EqFn key m = (case Lookup_map HashFn EqFn key m of None \<Rightarrow> None | Some elem \<Rightarrow> snd elem)"

definition InsertUnique :: "('k \<Rightarrow> nat) \<Rightarrow> 'k \<Rightarrow> 'v option \<Rightarrow> ('k, 'v) CHashMap \<Rightarrow> ('k, 'v) CHashMap" where
  "InsertUnique HashFn key value m =
    (let (cs, filled) = chain_Append (GetChain HashFn key m) (key, value) (m_chains m) (m_filled_chains m)
     in m\<lparr>m_chains := cs, m_filled_chains := filled, m_map_size := m_map_size m + 1, m_keys := m_keys m @ [key]\<rparr>)"

definition Insert_map ::
  "('k \<Rightarrow> nat) \<Rightarrow> ('k \<Rightarrow> 'k \<Rightarrow> bool) \<Rightarrow> 'k \<Rightarrow> 'v option \<Rightarrow> ('k, 'v) CHashMap \<Rightarrow> bool \<times> ('k, 'v) CHashMap" where
  "Insert_map HashFn EqFn key value m =
    (if Find_map HashFn EqFn key m \<noteq> None then (False, m)
     else
       let (cs, filled) = chain_Append (GetChain HashFn key m) (key, value) (m_chains m) (m_filled_chains m)
       in (True, m\<lparr>m_chains := cs, m_filled_chains := filled, m_map_size := m_map_size m + 1, m_keys := m_keys m @ [key]\<rparr>))"

definition Replace_map ::
  "('k \<Rightarrow> nat) \<Rightarrow> ('k \<Rightarrow> 'k \<Rightarrow> bool) \<Rightarrow> 'k \<Rightarrow> 'v option \<Rightarrow> ('k, 'v) CHashMap \<Rightarrow> bool \<times> ('k, 'v) CHashMap" where
  "Replace_map HashFn EqFn key ptNew m =
    (let i = GetChain HashFn key m
     in case m_chains m ! i of
          None \<Rightarrow> (False, m)
        | Some es \<Rightarrow>
            (case arr_IndexOf (\<lambda>e. EqFn (fst e) key) es of
               None \<Rightarrow> (False, m)
             | Some ul \<Rightarrow> (True, m\<lparr>m_chains := (m_chains m)[i := Some (es[ul := (fst (es ! ul), ptNew)])]\<rparr>)))"

definition Delete_map ::
  "('k \<Rightarrow> nat) \<Rightarrow> ('k \<Rightarrow> 'k \<Rightarrow> bool) \<Rightarrow> 'k \<Rightarrow> ('k, 'v) CHashMap \<Rightarrow> bool \<times> ('k, 'v) CHashMap" where
  "Delete_map HashFn EqFn key m =
    (let i = GetChain HashFn key m
     in case m_chains m ! i of
          None \<Rightarrow> (False, m)
        | Some es \<Rightarrow>
            (case arr_IndexOf (\<lambda>e. EqFn (fst e) key) es of
               None \<Rightarrow> (False, m)
             | Some ul \<Rightarrow>
                 (True, m\<lparr>m_chains := (m_chains m)[i := Some (snd (arr_RemoveLast (arr_Swap ul (length es - 1) es)))]\<rparr>)))"

definition Size_map :: "('k, 'v) CHashMap \<Rightarrow> nat" where
  "Size_map m = m_map_size m"

subsubsection \<open>CHashMapIter\<close>

text \<open>The position of an iterator is the number of keys that it has passed.\<close>

definition Advance_map :: "('k, 'v) CHashMap \<Rightarrow> nat \<Rightarrow> bool \<times> nat" where
  "Advance_map m key_idx = (if key_idx < length (m_keys m) then (True, key_idx + 1) else (False, key_idx))"

definition Get_map :: "('k \<Rightarrow> nat) \<Rightarrow> ('k \<Rightarrow> 'k \<Rightarrow> bool) \<Rightarrow> ('k, 'v) CHashMap \<Rightarrow> nat \<Rightarrow> ('k \<times> 'v option) option" where
  "Get_map HashFn EqFn m key_idx = (let k = m_keys m ! (key_idx - 1) in Lookup_map HashFn EqFn k m)"

definition Key_iter :: "('k \<Rightarrow> nat) \<Rightarrow> ('k \<Rightarrow> 'k \<Rightarrow> bool) \<Rightarrow> ('k, 'v) CHashMap \<Rightarrow> nat \<Rightarrow> 'k option" where
  "Key_iter HashFn EqFn m key_idx = map_option fst (Get_map HashFn EqFn m key_idx)"

definition Value_iter :: "('k \<Rightarrow> nat) \<Rightarrow> ('k \<Rightarrow> 'k \<Rightarrow> bool) \<Rightarrow> ('k, 'v) CHashMap \<Rightarrow> nat \<Rightarrow> 'v option" where
  "Value_iter HashFn EqFn m key_idx = (case Get_map HashFn EqFn m key_idx of None \<Rightarrow> None | Some elem \<Rightarrow> snd elem)"

text \<open>The usual loop \<^verbatim>\<open>while (iter.Advance())\<close> and the values it sees.\<close>

function iterate_map :: "('k \<Rightarrow> nat) \<Rightarrow> ('k \<Rightarrow> 'k \<Rightarrow> bool) \<Rightarrow> ('k, 'v) CHashMap \<Rightarrow> nat \<Rightarrow> ('k option \<times> 'v option) list" where
  "iterate_map HashFn EqFn m key_idx =
    (case Advance_map m key_idx of
       (True, i) \<Rightarrow> (Key_iter HashFn EqFn m i, Value_iter HashFn EqFn m i) # iterate_map HashFn EqFn m i
     | (False, i) \<Rightarrow> [])"
  by pat_completeness auto

termination
  by (relation "measure (\<lambda>(_, _, m, i). length (m_keys m) - i)") (auto simp: Advance_map_def split: if_splits)

declare iterate_map.simps [simp del]

subsubsection \<open>Invariant\<close>

text \<open>
  \<open>map_ok\<close> is about the chains; \<open>keys_ok\<close> says that the array of keys and the size agree with them.
\<close>

definition map_ok :: "('k \<Rightarrow> nat) \<Rightarrow> ('k \<Rightarrow> 'k \<Rightarrow> bool) \<Rightarrow> ('k, 'v) CHashMap \<Rightarrow> bool" where
  "map_ok HashFn EqFn m \<longleftrightarrow> chains_ok HashFn EqFn fst (m_num_chains m) (m_chains m) (m_filled_chains m)
    \<and> (\<forall>e\<in>elems_of (m_chains m). snd e \<noteq> None)"

definition keys_ok :: "('k \<Rightarrow> 'k \<Rightarrow> bool) \<Rightarrow> ('k, 'v) CHashMap \<Rightarrow> bool" where
  "keys_ok EqFn m \<longleftrightarrow> m_map_size m = length (m_keys m) \<and> sorted_wrt (\<lambda>a b. \<not> EqFn a b) (m_keys m)
    \<and> set (m_keys m) = fst ` elems_of (m_chains m)"

lemma map_ok_new: "0 < n \<Longrightarrow> map_ok HashFn EqFn (CHashMap_new n) \<and> keys_ok EqFn (CHashMap_new n)"
  by (auto simp: map_ok_def keys_ok_def CHashMap_new_def chains_ok_def elems_of_def)

text \<open>A chain whose elements are exchanged for others of the same hash value.\<close>

lemma chains_ok_update:
  assumes ok: "chains_ok HashFn EqFn key n cs filled" and i: "i < n" "cs ! i = Some es"
    and h: "\<forall>e\<in>set es'. HashFn (key e) mod n = i" and srt: "sorted_wrt (\<lambda>a b. \<not> EqFn (key a) (key b)) es'"
  shows "chains_ok HashFn EqFn key n (cs[i := Some es']) filled"
    "elems_of (cs[i := Some es']) = (elems_of cs - set es) \<union> set es'"
proof -
  have len: "length cs = n" using ok by (simp add: chains_ok_def)
  have "(\<forall>e\<in>set fs. HashFn (key e) mod n = j) \<and> sorted_wrt (\<lambda>a b. \<not> EqFn (key a) (key b)) fs"
    if j: "j < n" "cs[i := Some es'] ! j = Some fs" for j fs
    using ok j h srt len by (cases "j = i") (simp_all add: chains_ok_def)
  moreover have "set filled = {j. j < n \<and> cs[i := Some es'] ! j \<noteq> None}"
    using ok i len by (auto simp: chains_ok_def nth_list_update)
  ultimately show "chains_ok HashFn EqFn key n (cs[i := Some es']) filled" using ok by (simp add: chains_ok_def)
  have il: "i < length cs" using i len by simp
  have "e \<notin> set es" if "j < n" "j \<noteq> i" "cs ! j = Some fs" "e \<in> set fs" for j fs e
    using chains_ok_elem(1) [OF ok that(1,3,4)] chains_ok_elem(1) [OF ok i] that(2) by blast
  then show "elems_of (cs[i := Some es']) = (elems_of cs - set es) \<union> set es'"
    unfolding elems_of_update [OF il] elems_of_split [OF il] using i(2) len by auto
qed

lemma delete_swap:
  assumes "ul < length es"
  shows "snd (arr_RemoveLast (arr_Swap ul (length es - 1) es)) = butlast (es[ul := last es])"
proof -
  have ne: "es \<noteq> []" using assms by auto
  have "(es[ul := last es])[length es - 1 := es ! ul] \<noteq> []" using ne by simp
  moreover have "butlast ((es[ul := last es])[length es - 1 := es ! ul]) = butlast (es[ul := last es])"
    by (rule nth_equalityI) (simp_all add: nth_butlast nth_list_update)
  ultimately show ?thesis using ne by (simp add: arr_RemoveLast_def arr_Swap_def Let_def last_conv_nth)
qed

lemma sorted_wrt_sym:
  assumes "\<And>x y. P x y \<Longrightarrow> P y x"
  shows "sorted_wrt P xs \<longleftrightarrow> (\<forall>i<length xs. \<forall>j<length xs. i \<noteq> j \<longrightarrow> P (xs ! i) (xs ! j))"
proof
  assume "sorted_wrt P xs"
  then have "i < j \<Longrightarrow> j < length xs \<Longrightarrow> P (xs ! i) (xs ! j)" for i j by (simp add: sorted_wrt_iff_nth_less)
  then show "\<forall>i<length xs. \<forall>j<length xs. i \<noteq> j \<longrightarrow> P (xs ! i) (xs ! j)"
    using assms by (auto simp: neq_iff)
qed (simp add: sorted_wrt_iff_nth_less)

lemma delete_elems:
  assumes srt: "sorted_wrt P es" and sym: "\<And>x y. P x y \<Longrightarrow> P y x" and irr: "\<And>x. x \<in> set es \<Longrightarrow> \<not> P x x" and ul: "ul < length es"
  shows "sorted_wrt P (butlast (es[ul := last es]))" "set (butlast (es[ul := last es])) = set es - {es ! ul}"
proof -
  let ?n = "length es - 1"
  have "last es = es ! ?n" using ul by (intro last_conv_nth) auto
  then have nth: "butlast (es[ul := last es]) ! j = es ! (if j = ul then ?n else j)" if "j < ?n" for j
    using that ul by (auto simp: nth_butlast nth_list_update)
  have all: "\<forall>i<length es. \<forall>j<length es. i \<noteq> j \<longrightarrow> P (es ! i) (es ! j)"
    using srt sorted_wrt_sym [of P es] sym by blast
  show "sorted_wrt P (butlast (es[ul := last es]))"
    unfolding sorted_wrt_iff_nth_less using all nth ul by auto
  have ne: "es ! i \<noteq> es ! j" if "i < length es" "j < length es" "i \<noteq> j" for i j
    using all irr that by (metis nth_mem)
  have "x \<in> set (butlast (es[ul := last es])) \<longleftrightarrow> (\<exists>j<?n. x = es ! (if j = ul then ?n else j))" for x
    using nth by (auto simp: in_set_conv_nth)
  also have "(\<exists>j<?n. x = es ! (if j = ul then ?n else j)) \<longleftrightarrow> (\<exists>i<length es. i \<noteq> ul \<and> x = es ! i)" for x
  proof
    assume "\<exists>i<length es. i \<noteq> ul \<and> x = es ! i"
    then obtain i where i: "i < length es" "i \<noteq> ul" "x = es ! i" by blast
    show "\<exists>j<?n. x = es ! (if j = ul then ?n else j)"
    proof (cases "i = ?n")
      case True
      then show ?thesis using i ul by (intro exI [of _ ul]) auto
    next
      case False
      then show ?thesis using i by (intro exI [of _ i]) auto
    qed
  next
    assume "\<exists>j<?n. x = es ! (if j = ul then ?n else j)"
    then obtain j where "j < ?n" "x = es ! (if j = ul then ?n else j)" by blast
    then show "\<exists>i<length es. i \<noteq> ul \<and> x = es ! i"
      using ul by (intro exI [of _ "if j = ul then ?n else j"]) auto
  qed
  finally have mem: "x \<in> set (butlast (es[ul := last es])) \<longleftrightarrow> (\<exists>i<length es. i \<noteq> ul \<and> x = es ! i)" for x .
  show "set (butlast (es[ul := last es])) = set es - {es ! ul}"
    using ne ul unfolding set_eq_iff mem by (auto simp: in_set_conv_nth)
qed

subsubsection \<open>Lookups after changes\<close>

context hash_keys
begin

lemma Lookup_iff:
  "map_ok HashFn EqFn m \<Longrightarrow> Lookup_map HashFn EqFn k m = Some e \<longleftrightarrow> e \<in> elems_of (m_chains m) \<and> EqFn (fst e) k"
  unfolding map_ok_def Lookup_map_def GetChain_def by (rule chain_Find_iff) (rule conjunct1)

lemma Find_iff:
  assumes "map_ok HashFn EqFn m"
  shows "Find_map HashFn EqFn k m = Some v \<longleftrightarrow> (\<exists>k'. (k', Some v) \<in> elems_of (m_chains m) \<and> EqFn k' k)"
proof
  assume "Find_map HashFn EqFn k m = Some v"
  then obtain e where e: "Lookup_map HashFn EqFn k m = Some e" "snd e = Some v"
    by (auto simp: Find_map_def split: option.splits)
  then show "\<exists>k'. (k', Some v) \<in> elems_of (m_chains m) \<and> EqFn k' k"
    using Lookup_iff [OF assms, of k e] by (cases e) auto
next
  assume "\<exists>k'. (k', Some v) \<in> elems_of (m_chains m) \<and> EqFn k' k"
  then obtain k' where "Lookup_map HashFn EqFn k m = Some (k', Some v)" using Lookup_iff [OF assms] by fastforce
  then show "Find_map HashFn EqFn k m = Some v" by (simp add: Find_map_def)
qed

lemma Find_None:
  assumes "map_ok HashFn EqFn m"
  shows "Find_map HashFn EqFn k m = None \<longleftrightarrow> (\<forall>e\<in>elems_of (m_chains m). \<not> EqFn (fst e) k)"
proof -
  have "\<exists>v. e = (fst e, Some v)" if "e \<in> elems_of (m_chains m)" for e
    using assms that by (cases e) (auto simp: map_ok_def)
  then show ?thesis using Find_iff [OF assms, of k] by (metis fst_conv not_Some_eq)
qed

text \<open>Two maps whose elements agree near a key agree on it.\<close>

lemma Find_cong:
  assumes "map_ok HashFn EqFn m" "map_ok HashFn EqFn m'"
    and "\<And>e. EqFn (fst e) k \<Longrightarrow> e \<in> elems_of (m_chains m) \<longleftrightarrow> e \<in> elems_of (m_chains m')"
  shows "Find_map HashFn EqFn k m = Find_map HashFn EqFn k m'"
proof (rule option.expand)
  show "(Find_map HashFn EqFn k m = None) = (Find_map HashFn EqFn k m' = None)"
    unfolding Find_None [OF assms(1)] Find_None [OF assms(2)] using assms(3) by blast
  assume "Find_map HashFn EqFn k m \<noteq> None" "Find_map HashFn EqFn k m' \<noteq> None"
  then obtain v where v: "Find_map HashFn EqFn k m = Some v" by blast
  then have "Find_map HashFn EqFn k m' = Some v"
    unfolding Find_iff [OF assms(1)] Find_iff [OF assms(2)] using assms(3) by fastforce
  then show "the (Find_map HashFn EqFn k m) = the (Find_map HashFn EqFn k m')" using v by simp
qed

lemma InsertUnique_ok:
  assumes ok: "map_ok HashFn EqFn m" and new: "Find_map HashFn EqFn k m = None"
  shows "map_ok HashFn EqFn (InsertUnique HashFn k (Some v) m)"
    "elems_of (m_chains (InsertUnique HashFn k (Some v) m)) = insert (k, Some v) (elems_of (m_chains m))"
    "keys_ok EqFn m \<Longrightarrow> keys_ok EqFn (InsertUnique HashFn k (Some v) m)"
    "m_keys (InsertUnique HashFn k (Some v) m) = m_keys m @ [k]"
proof -
  obtain cs filled where app: "chain_Append (HashFn (fst (k, Some v)) mod m_num_chains m) (k, Some v) (m_chains m) (m_filled_chains m) = (cs, filled)"
    by force
  have free: "\<forall>e\<in>elems_of (m_chains m). \<not> EqFn (fst e) (fst (k, Some v))" using new Find_None [OF ok] by simp
  have base: "chains_ok HashFn EqFn fst (m_num_chains m) (m_chains m) (m_filled_chains m)" using ok by (simp add: map_ok_def)
  note app_ok = chain_Append_ok [OF base free app]
  have fields: "m_chains (InsertUnique HashFn k (Some v) m) = cs" "m_filled_chains (InsertUnique HashFn k (Some v) m) = filled"
    "m_num_chains (InsertUnique HashFn k (Some v) m) = m_num_chains m"
    "m_map_size (InsertUnique HashFn k (Some v) m) = m_map_size m + 1"
    using app by (simp_all add: InsertUnique_def GetChain_def)
  show keys: "m_keys (InsertUnique HashFn k (Some v) m) = m_keys m @ [k]"
    using app by (simp add: InsertUnique_def GetChain_def)
  show el: "elems_of (m_chains (InsertUnique HashFn k (Some v) m)) = insert (k, Some v) (elems_of (m_chains m))"
    using app_ok(2) by (simp add: fields)
  show "map_ok HashFn EqFn (InsertUnique HashFn k (Some v) m)"
    unfolding map_ok_def el using app_ok(1) ok by (simp add: fields map_ok_def)
  show "keys_ok EqFn (InsertUnique HashFn k (Some v) m)" if "keys_ok EqFn m"
    unfolding keys_ok_def el keys using that free by (auto simp: fields keys_ok_def sorted_wrt_append)
qed

lemma Insert_unique:
  "Insert_map HashFn EqFn k v m = (if Find_map HashFn EqFn k m = None then (True, InsertUnique HashFn k v m) else (False, m))"
  by (simp add: Insert_map_def InsertUnique_def Let_def case_prod_beta)

lemma Find_InsertUnique:
  assumes ok: "map_ok HashFn EqFn m" and new: "Find_map HashFn EqFn k m = None"
  shows "Find_map HashFn EqFn k' (InsertUnique HashFn k (Some v) m) = (if EqFn k k' then Some v else Find_map HashFn EqFn k' m)"
proof (cases "EqFn k k'")
  case True
  then show ?thesis using Find_iff [OF InsertUnique_ok(1) [OF ok new]] InsertUnique_ok(2) [OF ok new] by auto
next
  case False
  have "Find_map HashFn EqFn k' (InsertUnique HashFn k (Some v) m) = Find_map HashFn EqFn k' m"
    by (rule Find_cong [OF InsertUnique_ok(1) [OF ok new] ok]) (use False in \<open>auto simp: InsertUnique_ok(2) [OF ok new]\<close>)
  then show ?thesis using False by simp
qed

text \<open>Replacing and deleting touch one element.\<close>

lemma found_elem:
  assumes ok: "map_ok HashFn EqFn m" and i: "i = GetChain HashFn k m" "m_chains m ! i = Some es"
    and ul: "arr_IndexOf (\<lambda>e. EqFn (fst e) k) es = Some ul"
  shows "i < m_num_chains m" "ul < length es" "es ! ul \<in> elems_of (m_chains m)" "EqFn (fst (es ! ul)) k"
    "\<forall>e\<in>set es. HashFn (fst e) mod m_num_chains m = i" "sorted_wrt (\<lambda>a b. \<not> EqFn (fst a) (fst b)) es"
    "\<exists>v. Find_map HashFn EqFn k m = Some v \<and> snd (es ! ul) = Some v"
proof -
  have base: "chains_ok HashFn EqFn fst (m_num_chains m) (m_chains m) (m_filled_chains m)" using ok by (simp add: map_ok_def)
  show n: "i < m_num_chains m" using base i by (simp add: GetChain_def chains_ok_def)
  show u: "ul < length es" and e: "EqFn (fst (es ! ul)) k" using arr_IndexOf_Some [OF ul] by auto
  show el: "es ! ul \<in> elems_of (m_chains m)" using chains_ok_elem(2) [OF base n i(2)] u by simp
  show "\<forall>e\<in>set es. HashFn (fst e) mod m_num_chains m = i" using chains_ok_elem(1) [OF base n i(2)] by blast
  show "sorted_wrt (\<lambda>a b. \<not> EqFn (fst a) (fst b)) es" using base n i(2) by (simp add: chains_ok_def)
  have "Lookup_map HashFn EqFn k m = Some (es ! ul)" using Lookup_iff [OF ok] el e by blast
  moreover have "snd (es ! ul) \<noteq> None" using ok el by (simp add: map_ok_def)
  ultimately show "\<exists>v. Find_map HashFn EqFn k m = Some v \<and> snd (es ! ul) = Some v" by (auto simp: Find_map_def)
qed

lemma no_elem:
  assumes ok: "map_ok HashFn EqFn m"
    and none: "m_chains m ! GetChain HashFn k m = None \<or> (\<exists>es. m_chains m ! GetChain HashFn k m = Some es \<and> arr_IndexOf (\<lambda>e. EqFn (fst e) k) es = None)"
  shows "Find_map HashFn EqFn k m = None"
proof -
  have "Lookup_map HashFn EqFn k m = None"
    using none by (auto simp: Lookup_map_def chain_Find_def arr_IndexOf_None arr_Find_None)
  then show ?thesis by (simp add: Find_map_def)
qed

lemma Replace_ok:
  assumes ok: "map_ok HashFn EqFn m" and res: "Replace_map HashFn EqFn k (Some v) m = (b, m')"
  shows "map_ok HashFn EqFn m'" "b \<longleftrightarrow> Find_map HashFn EqFn k m \<noteq> None"
    "Find_map HashFn EqFn k' m' = (if EqFn k k' \<and> b then Some v else Find_map HashFn EqFn k' m)"
    "keys_ok EqFn m \<Longrightarrow> keys_ok EqFn m'" "m_keys m' = m_keys m"
proof -
  let ?i = "GetChain HashFn k m"
  consider es ul where "m_chains m ! ?i = Some es" "arr_IndexOf (\<lambda>e. EqFn (fst e) k) es = Some ul"
    | "m_chains m ! ?i = None \<or> (\<exists>es. m_chains m ! ?i = Some es \<and> arr_IndexOf (\<lambda>e. EqFn (fst e) k) es = None)"
    by (cases "m_chains m ! ?i") auto
  then have "map_ok HashFn EqFn m' \<and> b = (Find_map HashFn EqFn k m \<noteq> None)
    \<and> Find_map HashFn EqFn k' m' = (if EqFn k k' \<and> b then Some v else Find_map HashFn EqFn k' m)
    \<and> (keys_ok EqFn m \<longrightarrow> keys_ok EqFn m') \<and> m_keys m' = m_keys m"
  proof cases
    case 2
    then have "b = False" "m' = m" using res by (auto simp: Replace_map_def Let_def)
    then show ?thesis using no_elem [OF ok 2] ok by simp
  next
    case (1 es ul)
    note fe = found_elem [OF ok refl 1]
    let ?new = "(fst (es ! ul), Some v)" and ?es = "es[ul := (fst (es ! ul), Some v)]"
    have b: "b" and m': "m' = m\<lparr>m_chains := (m_chains m)[?i := Some ?es]\<rparr>"
      using res 1 by (auto simp: Replace_map_def Let_def)
    have base: "chains_ok HashFn EqFn fst (m_num_chains m) (m_chains m) (m_filled_chains m)" using ok by (simp add: map_ok_def)
    have keys: "map fst ?es = map fst es" using fe(2) by (auto intro: nth_equalityI simp: nth_list_update)
    then have fsts: "fst ` set ?es = fst ` set es" by (metis set_map)
    have h: "\<forall>e\<in>set ?es. HashFn (fst e) mod m_num_chains m = ?i"
    proof
      fix e assume "e \<in> set ?es"
      then obtain f where "f \<in> set es" "fst f = fst e" using fsts by (metis imageE image_eqI)
      then show "HashFn (fst e) mod m_num_chains m = ?i" using fe(5) by metis
    qed
    have "sorted_wrt (\<lambda>a b. \<not> EqFn a b) (map fst ?es)" unfolding keys sorted_wrt_map by (rule fe(6))
    then have srt: "sorted_wrt (\<lambda>a b. \<not> EqFn (fst a) (fst b)) ?es" by (simp only: sorted_wrt_map)
    note upd = chains_ok_update [OF base fe(1) 1(1) h srt]
    have el: "elems_of (m_chains m') = (elems_of (m_chains m) - set es) \<union> set ?es" using upd(2) m' by simp
    have sub: "set es \<subseteq> elems_of (m_chains m)" using chains_ok_elem(2) [OF base fe(1) 1(1)] by blast
    have "elems_of (m_chains m') \<subseteq> insert ?new (elems_of (m_chains m))"
      unfolding el using set_update_subset_insert [of es ul ?new] sub by blast
    then have "\<forall>e\<in>elems_of (m_chains m'). snd e \<noteq> None" using ok unfolding map_ok_def by fastforce
    then have ok': "map_ok HashFn EqFn m'" using upd(1) m' by (simp add: map_ok_def)
    have "?new \<in> elems_of (m_chains m')" using el fe(2) by (simp add: set_update_memI)
    then have "Find_map HashFn EqFn k' m' = Some v" if "EqFn k k'"
      using Find_iff [OF ok'] fe(4) eq_trans that by blast
    moreover have "Find_map HashFn EqFn k' m' = Find_map HashFn EqFn k' m" if n: "\<not> EqFn k k'"
    proof (rule Find_cong [OF ok' ok])
      fix e :: "'k \<times> 'a option" assume e: "EqFn (fst e) k'"
      then have far: "\<not> EqFn (fst e) (fst (es ! ul))" using n fe(4) eq_sym eq_trans by blast
      then have "e \<noteq> ?new" "e \<noteq> es ! ul" using eq_refl by auto
      then have "e \<in> set ?es \<longleftrightarrow> e \<in> set es" using fe(2) by (auto simp: in_set_conv_nth nth_list_update)
      then show "e \<in> elems_of (m_chains m') \<longleftrightarrow> e \<in> elems_of (m_chains m)" using el sub by blast
    qed
    moreover have "fst ` elems_of (m_chains m') = fst ` elems_of (m_chains m)"
      unfolding el image_Un fsts using sub by blast
    ultimately show ?thesis using b ok' fe(7) m' by (auto simp: keys_ok_def)
  qed
  then show "map_ok HashFn EqFn m'" "b \<longleftrightarrow> Find_map HashFn EqFn k m \<noteq> None"
    "Find_map HashFn EqFn k' m' = (if EqFn k k' \<and> b then Some v else Find_map HashFn EqFn k' m)"
    "keys_ok EqFn m \<Longrightarrow> keys_ok EqFn m'" "m_keys m' = m_keys m" by blast+
qed

lemma Delete_ok:
  assumes ok: "map_ok HashFn EqFn m" and res: "Delete_map HashFn EqFn k m = (b, m')"
  shows "map_ok HashFn EqFn m'" "b \<longleftrightarrow> Find_map HashFn EqFn k m \<noteq> None"
    "Find_map HashFn EqFn k' m' = (if EqFn k k' then None else Find_map HashFn EqFn k' m)"
    "m_keys m' = m_keys m" "m_map_size m' = m_map_size m"
proof -
  let ?i = "GetChain HashFn k m"
  consider es ul where "m_chains m ! ?i = Some es" "arr_IndexOf (\<lambda>e. EqFn (fst e) k) es = Some ul"
    | "m_chains m ! ?i = None \<or> (\<exists>es. m_chains m ! ?i = Some es \<and> arr_IndexOf (\<lambda>e. EqFn (fst e) k) es = None)"
    by (cases "m_chains m ! ?i") auto
  then have "map_ok HashFn EqFn m' \<and> b = (Find_map HashFn EqFn k m \<noteq> None)
    \<and> Find_map HashFn EqFn k' m' = (if EqFn k k' then None else Find_map HashFn EqFn k' m)
    \<and> m_keys m' = m_keys m \<and> m_map_size m' = m_map_size m"
  proof cases
    case 2
    then have "b = False" "m' = m" using res by (auto simp: Delete_map_def Let_def)
    moreover have "Find_map HashFn EqFn k' m = None" if "EqFn k k'"
      using no_elem [OF ok 2] that eq_sym eq_trans unfolding Find_None [OF ok] by blast
    ultimately show ?thesis using no_elem [OF ok 2] ok by simp
  next
    case (1 es ul)
    note fe = found_elem [OF ok refl 1]
    let ?es = "butlast (es[ul := last es])"
    have b: "b" and m': "m' = m\<lparr>m_chains := (m_chains m)[?i := Some ?es]\<rparr>"
      using res 1 delete_swap [OF fe(2)] by (auto simp: Delete_map_def Let_def)
    have base: "chains_ok HashFn EqFn fst (m_num_chains m) (m_chains m) (m_filled_chains m)" using ok by (simp add: map_ok_def)
    have srt: "sorted_wrt (\<lambda>a b. \<not> EqFn (fst a) (fst b)) ?es" and set: "set ?es = set es - {es ! ul}"
      using delete_elems [OF fe(6) _ _ fe(2)] eq_sym eq_refl by blast+
    have h: "\<forall>e\<in>set ?es. HashFn (fst e) mod m_num_chains m = ?i" using fe(5) set by blast
    note upd = chains_ok_update [OF base fe(1) 1(1) h srt]
    have sub: "set es \<subseteq> elems_of (m_chains m)" using chains_ok_elem(2) [OF base fe(1) 1(1)] by blast
    have el: "elems_of (m_chains m') = elems_of (m_chains m) - {es ! ul}" using upd(2) m' sub set fe(2) by auto
    have ok': "map_ok HashFn EqFn m'" using upd(1) el ok m' by (auto simp: map_ok_def)
    have "Find_map HashFn EqFn k' m' = None" if "EqFn k k'"
      unfolding Find_None [OF ok'] el
      using elems_unique [OF base _ fe(3)] fe(4) that eq_sym eq_trans by blast
    moreover have "Find_map HashFn EqFn k' m' = Find_map HashFn EqFn k' m" if n: "\<not> EqFn k k'"
      by (rule Find_cong [OF ok' ok]) (use n fe(4) eq_sym eq_trans el in blast)
    ultimately show ?thesis using b ok' fe(7) m' by auto
  qed
  then show "map_ok HashFn EqFn m'" "b \<longleftrightarrow> Find_map HashFn EqFn k m \<noteq> None"
    "Find_map HashFn EqFn k' m' = (if EqFn k k' then None else Find_map HashFn EqFn k' m)"
    "m_keys m' = m_keys m" "m_map_size m' = m_map_size m" by blast+
qed

text \<open>Iteration and size.\<close>

lemma iterate_drop:
  "iterate_map HashFn EqFn m i = map (\<lambda>k. case Lookup_map HashFn EqFn k m of None \<Rightarrow> (None, None) | Some e \<Rightarrow> (Some (fst e), snd e))
    (drop i (m_keys m))"
proof (induction "length (m_keys m) - i" arbitrary: i)
  case 0
  then show ?case by (subst iterate_map.simps) (simp add: Advance_map_def)
next
  case (Suc n)
  then have i: "i < length (m_keys m)" by simp
  have "iterate_map HashFn EqFn m i = (Key_iter HashFn EqFn m (Suc i), Value_iter HashFn EqFn m (Suc i)) # iterate_map HashFn EqFn m (Suc i)"
    using i by (subst iterate_map.simps) (simp add: Advance_map_def)
  then show ?case using Suc.hyps(1) [of "Suc i"] Suc.hyps(2) i Cons_nth_drop_Suc [OF i, symmetric]
    by (simp add: Key_iter_def Value_iter_def Get_map_def split: option.split)
qed

lemma Lookup_key:
  assumes ok: "map_ok HashFn EqFn m" and keys: "keys_ok EqFn m" and k: "k \<in> set (m_keys m)"
  shows "\<exists>v. Lookup_map HashFn EqFn k m = Some (k, Some v) \<and> Find_map HashFn EqFn k m = Some v"
proof -
  obtain e where e: "e \<in> elems_of (m_chains m)" "fst e = k" using keys k by (auto simp: keys_ok_def)
  then have "Lookup_map HashFn EqFn k m = Some e" using Lookup_iff [OF ok] eq_refl by auto
  moreover obtain v where "snd e = Some v" using ok e by (auto simp: map_ok_def)
  ultimately show ?thesis using e by (cases e) (simp add: Find_map_def)
qed

lemma iterate_entries:
  assumes ok: "map_ok HashFn EqFn m" and keys: "keys_ok EqFn m"
  shows "iterate_map HashFn EqFn m 0 = map (\<lambda>k. (Some k, Find_map HashFn EqFn k m)) (m_keys m)"
  unfolding iterate_drop using Lookup_key [OF assms] by fastforce

lemma distinct_keys: "keys_ok EqFn m \<Longrightarrow> distinct (m_keys m)"
  unfolding keys_ok_def distinct_conv_nth sorted_wrt_iff_nth_less using eq_refl by (metis linorder_neqE_nat)

lemma Size_card:
  assumes ok: "map_ok HashFn EqFn m" and keys: "keys_ok EqFn m"
  shows "Size_map m = card (elems_of (m_chains m))"
proof -
  have base: "chains_ok HashFn EqFn fst (m_num_chains m) (m_chains m) (m_filled_chains m)" using ok by (simp add: map_ok_def)
  have "inj_on fst (elems_of (m_chains m))" using elems_unique [OF base] eq_refl by (intro inj_onI) metis
  then have "card (elems_of (m_chains m)) = card (set (m_keys m))" using keys by (simp add: keys_ok_def card_image)
  then show ?thesis using distinct_card [OF distinct_keys [OF keys]] keys by (simp add: Size_map_def keys_ok_def)
qed

lemma Delete_card:
  assumes ok: "map_ok HashFn EqFn m" and keys: "keys_ok EqFn m" and found: "Find_map HashFn EqFn k m \<noteq> None"
    and res: "Delete_map HashFn EqFn k m = (b, m')"
  shows "(None, None) \<in> set (iterate_map HashFn EqFn m' 0)" "Size_map m' = card (elems_of (m_chains m)) "
proof -
  note del = Delete_ok [OF ok res]
  obtain e where e: "e \<in> elems_of (m_chains m)" "EqFn (fst e) k" using found Find_None [OF ok, of k] by auto
  then have "fst e \<in> set (m_keys m')" using keys del(4) by (auto simp: keys_ok_def)
  moreover have "Find_map HashFn EqFn (fst e) m' = None" using del(3) e(2) eq_sym by simp
  then have "Lookup_map HashFn EqFn (fst e) m' = None"
    using Find_None [OF del(1)] Lookup_iff [OF del(1)] by (metis not_Some_eq)
  ultimately show "(None, None) \<in> set (iterate_map HashFn EqFn m' 0)" unfolding iterate_drop by force
  show "Size_map m' = card (elems_of (m_chains m))" using Size_card [OF ok keys] del(5) by (simp add: Size_map_def)
qed

end

text \<open>The keys of \<^verbatim>\<open>UlongToUlongMap\<close>, and more generally keys that are compared by identity.\<close>

definition HashValue_ulong :: "32 word \<Rightarrow> nat" where
  "HashValue_ulong k = unat (HashByteArray (store_le 4 (ucast k)))"

interpretation ulong_keys: hash_keys HashValue_ulong "(=)"
  by unfold_locales simp_all

interpretation eq_keys: hash_keys h "(=)" for h
  by unfold_locales simp_all

text \<open>
  \<^bold>\<open>C35\<close> \<^verbatim>\<open>CHashMap\<close> is a finite map from keys up to \<open>EqFn\<close>, as long as nothing is deleted.  \<^verbatim>\<open>Insert\<close> adds the entry and
  reports success exactly when the key is absent, \<^verbatim>\<open>Replace\<close> changes the value exactly when it is present,
  neither affects other keys, both keep the invariants; an iterator visits every entry exactly once, in the
  order of insertion, and \<^verbatim>\<open>Size\<close> is the number of entries.
\<close>

theorem hash_map_refines_map:
  assumes "hash_keys HashFn EqFn" and "map_ok HashFn EqFn m" "keys_ok EqFn m"
  shows "(case Insert_map HashFn EqFn k (Some v) m of (b, m') \<Rightarrow>
      map_ok HashFn EqFn m' \<and> keys_ok EqFn m' \<and> (b \<longleftrightarrow> Find_map HashFn EqFn k m = None)
      \<and> m_keys m' = m_keys m @ (if b then [k] else [])
      \<and> (\<forall>k'. Find_map HashFn EqFn k' m' = (if b \<and> EqFn k k' then Some v else Find_map HashFn EqFn k' m)))
    \<and> (case Replace_map HashFn EqFn k (Some v) m of (b, m') \<Rightarrow>
      map_ok HashFn EqFn m' \<and> keys_ok EqFn m' \<and> (b \<longleftrightarrow> Find_map HashFn EqFn k m \<noteq> None) \<and> m_keys m' = m_keys m
      \<and> (\<forall>k'. Find_map HashFn EqFn k' m' = (if b \<and> EqFn k k' then Some v else Find_map HashFn EqFn k' m)))
    \<and> iterate_map HashFn EqFn m 0 = map (\<lambda>k. (Some k, Find_map HashFn EqFn k m)) (m_keys m)
    \<and> distinct (m_keys m) \<and> Size_map m = card (elems_of (m_chains m))"
proof -
  note h = hash_keys.Insert_unique [OF assms(1), of k "Some v" m] hash_keys.InsertUnique_ok [OF assms(1,2), of k v]
    hash_keys.Find_InsertUnique [OF assms(1,2), of k _ v]
  obtain b m' where rep: "Replace_map HashFn EqFn k (Some v) m = (b, m')" by force
  note r = hash_keys.Replace_ok [OF assms(1,2) rep]
  show ?thesis using h r assms(2,3) rep hash_keys.iterate_entries [OF assms] hash_keys.distinct_keys [OF assms(1,3)]
      hash_keys.Size_card [OF assms]
    by (auto split: if_splits)
qed

theorem hash_map_refines_map_witness:
  "(case Insert_map HashValue_ulong (=) 7 (Some (9 :: 32 word)) (CHashMap_new 127) of (b, m') \<Rightarrow>
      b \<and> Find_map HashValue_ulong (=) 7 m' = Some 9 \<and> m_keys m' = [7])"
proof -
  have "map_ok HashValue_ulong (=) (CHashMap_new 127 :: (32 word, 32 word) CHashMap)"
    "keys_ok (=) (CHashMap_new 127 :: (32 word, 32 word) CHashMap)" using map_ok_new [of 127] by auto
  note base = hash_map_refines_map [OF ulong_keys.hash_keys_axioms this, of 7 9]
  have "Find_map HashValue_ulong (=) 7 (CHashMap_new 127 :: (32 word, 32 word) CHashMap) = None"
    by (simp add: Find_map_def Lookup_map_def GetChain_def CHashMap_new_def chain_Find_def)
  then show ?thesis using base by (auto simp: CHashMap_new_def split: prod.splits)
qed



subsection \<open>CHashSet\<close>

record 'k CHashSet =
  m_set_num_chains :: nat
  m_set_size :: nat
  m_set_chains :: "'k hash_chains"
  m_elements :: "'k list"
  m_set_filled_chains :: "nat list"

definition CHashSet_new :: "nat \<Rightarrow> 'k CHashSet" where
  "CHashSet_new num_chains = \<lparr>m_set_num_chains = num_chains, m_set_size = 0, m_set_chains = replicate num_chains None,
    m_elements = [], m_set_filled_chains = []\<rparr>"

definition Lookup_set :: "('k \<Rightarrow> nat) \<Rightarrow> ('k \<Rightarrow> 'k \<Rightarrow> bool) \<Rightarrow> 'k \<Rightarrow> 'k CHashSet \<Rightarrow> 'k option" where
  "Lookup_set HashFn EqFn value s = chain_Find (\<lambda>e. EqFn e value) (m_set_chains s ! (HashFn value mod m_set_num_chains s))"

definition Contains_set :: "('k \<Rightarrow> nat) \<Rightarrow> ('k \<Rightarrow> 'k \<Rightarrow> bool) \<Rightarrow> 'k \<Rightarrow> 'k CHashSet \<Rightarrow> bool" where
  "Contains_set HashFn EqFn value s \<longleftrightarrow>
    chain_Find (\<lambda>e. EqFn e value) (m_set_chains s ! (HashFn value mod m_set_num_chains s)) \<noteq> None"

definition Insert_set :: "('k \<Rightarrow> nat) \<Rightarrow> ('k \<Rightarrow> 'k \<Rightarrow> bool) \<Rightarrow> 'k \<Rightarrow> 'k CHashSet \<Rightarrow> bool \<times> 'k CHashSet" where
  "Insert_set HashFn EqFn value s =
    (if Contains_set HashFn EqFn value s then (False, s)
     else
       let (cs, filled) = chain_Append (HashFn value mod m_set_num_chains s) value (m_set_chains s) (m_set_filled_chains s)
       in (True, s\<lparr>m_set_chains := cs, m_set_filled_chains := filled, m_set_size := m_set_size s + 1,
             m_elements := m_elements s @ [value]\<rparr>))"

definition First_set :: "'k CHashSet \<Rightarrow> 'k option" where
  "First_set s = (if length (m_elements s) = 0 \<or> m_set_size s = 0 then None else Some (m_elements s ! 0))"

text \<open>The values that the loop over a \<^verbatim>\<open>CHashSetIter\<close> sees.\<close>

definition Get_set :: "('k \<Rightarrow> nat) \<Rightarrow> ('k \<Rightarrow> 'k \<Rightarrow> bool) \<Rightarrow> 'k CHashSet \<Rightarrow> nat \<Rightarrow> 'k option" where
  "Get_set HashFn EqFn s elem_idx = (let t = m_elements s ! (elem_idx - 1) in Lookup_set HashFn EqFn t s)"

definition Advance_set :: "'k CHashSet \<Rightarrow> nat \<Rightarrow> bool \<times> nat" where
  "Advance_set s elem_idx = (if elem_idx < length (m_elements s) then (True, elem_idx + 1) else (False, elem_idx))"

function iterate_set :: "('k \<Rightarrow> nat) \<Rightarrow> ('k \<Rightarrow> 'k \<Rightarrow> bool) \<Rightarrow> 'k CHashSet \<Rightarrow> nat \<Rightarrow> 'k option list" where
  "iterate_set HashFn EqFn s elem_idx =
    (case Advance_set s elem_idx of
       (True, i) \<Rightarrow> Get_set HashFn EqFn s i # iterate_set HashFn EqFn s i
     | (False, i) \<Rightarrow> [])"
  by pat_completeness auto

termination
  by (relation "measure (\<lambda>(_, _, s, i). length (m_elements s) - i)") (auto simp: Advance_set_def split: if_splits)

declare iterate_set.simps [simp del]

definition set_ok :: "('k \<Rightarrow> nat) \<Rightarrow> ('k \<Rightarrow> 'k \<Rightarrow> bool) \<Rightarrow> 'k CHashSet \<Rightarrow> bool" where
  "set_ok HashFn EqFn s \<longleftrightarrow> chains_ok HashFn EqFn (\<lambda>e. e) (m_set_num_chains s) (m_set_chains s) (m_set_filled_chains s)
    \<and> m_set_size s = length (m_elements s) \<and> sorted_wrt (\<lambda>a b. \<not> EqFn a b) (m_elements s)
    \<and> set (m_elements s) = elems_of (m_set_chains s)"

lemma set_ok_new: "0 < n \<Longrightarrow> set_ok HashFn EqFn (CHashSet_new n)"
  by (auto simp: set_ok_def CHashSet_new_def chains_ok_def elems_of_def)

lemma iterate_set_drop: "iterate_set HashFn EqFn s i = map (\<lambda>k. Lookup_set HashFn EqFn k s) (drop i (m_elements s))"
proof (induction "length (m_elements s) - i" arbitrary: i)
  case 0
  then show ?case by (subst iterate_set.simps) (simp add: Advance_set_def)
next
  case (Suc n)
  then have i: "i < length (m_elements s)" by simp
  have "iterate_set HashFn EqFn s i = Get_set HashFn EqFn s (Suc i) # iterate_set HashFn EqFn s (Suc i)"
    using i by (subst iterate_set.simps) (simp add: Advance_set_def)
  then show ?case using Suc.hyps(1) [of "Suc i"] Suc.hyps(2) Cons_nth_drop_Suc [OF i, symmetric]
    by (simp add: Get_set_def)
qed

context hash_keys
begin

lemma Contains_iff:
  assumes "set_ok HashFn EqFn s"
  shows "Contains_set HashFn EqFn k s \<longleftrightarrow> (\<exists>e\<in>set (m_elements s). EqFn e k)"
proof -
  have base: "chains_ok HashFn EqFn (\<lambda>e. e) (m_set_num_chains s) (m_set_chains s) (m_set_filled_chains s)"
    using assms by (simp add: set_ok_def)
  show ?thesis using chain_Find_None [OF base, of k] assms by (simp add: Contains_set_def set_ok_def)
qed

lemma Lookup_set_elem:
  assumes "set_ok HashFn EqFn s" "k \<in> set (m_elements s)"
  shows "Lookup_set HashFn EqFn k s = Some k"
proof -
  have base: "chains_ok HashFn EqFn (\<lambda>e. e) (m_set_num_chains s) (m_set_chains s) (m_set_filled_chains s)"
    using assms by (simp add: set_ok_def)
  show ?thesis using chain_Find_iff [OF base, of k k] assms eq_refl by (simp add: Lookup_set_def set_ok_def)
qed

lemma iterate_set_elements:
  assumes "set_ok HashFn EqFn s"
  shows "iterate_set HashFn EqFn s 0 = map Some (m_elements s)"
  unfolding iterate_set_drop using Lookup_set_elem [OF assms] by simp

lemma Insert_set_ok:
  assumes ok: "set_ok HashFn EqFn s" and res: "Insert_set HashFn EqFn k s = (b, s')"
  shows "set_ok HashFn EqFn s'" "b \<longleftrightarrow> \<not> Contains_set HashFn EqFn k s"
    "m_elements s' = m_elements s @ (if b then [k] else [])"
proof -
  have base: "chains_ok HashFn EqFn (\<lambda>e. e) (m_set_num_chains s) (m_set_chains s) (m_set_filled_chains s)"
    using ok by (simp add: set_ok_def)
  show b: "b \<longleftrightarrow> \<not> Contains_set HashFn EqFn k s" "m_elements s' = m_elements s @ (if b then [k] else [])"
    using res by (auto simp: Insert_set_def Let_def case_prod_beta split: if_splits)
  show "set_ok HashFn EqFn s'"
  proof (cases b)
    case True
    obtain cs filled where app: "chain_Append (HashFn k mod m_set_num_chains s) k (m_set_chains s) (m_set_filled_chains s) = (cs, filled)"
      by force
    have s': "s' = s\<lparr>m_set_chains := cs, m_set_filled_chains := filled, m_set_size := m_set_size s + 1,
        m_elements := m_elements s @ [k]\<rparr>"
      using res True b(1) app by (simp add: Insert_set_def split: if_splits)
    have free: "\<forall>e\<in>elems_of (m_set_chains s). \<not> EqFn e k"
      using True b(1) chain_Find_None [OF base, of k] by (simp add: Contains_set_def)
    note app_ok = chain_Append_ok [OF base free app]
    show ?thesis using ok app_ok free by (auto simp: set_ok_def s' sorted_wrt_append)
  next
    case False
    then show ?thesis using ok res by (auto simp: Insert_set_def Let_def case_prod_beta split: if_splits)
  qed
qed

end

text \<open>
  \<^bold>\<open>C37\<close> \<^verbatim>\<open>CHashSet\<close> is a finite set up to \<open>EqFn\<close> with the order of insertion: \<^verbatim>\<open>Insert\<close> adds a value and reports success
  exactly when no equal value is present, \<^verbatim>\<open>Contains\<close> decides membership, an iterator visits every element
  once in the order of insertion, \<^verbatim>\<open>First\<close> is the element that was inserted first, and the size is right.
\<close>

theorem hash_set_refines_set:
  assumes "hash_keys HashFn EqFn" and "set_ok HashFn EqFn s"
  shows "(case Insert_set HashFn EqFn k s of (b, s') \<Rightarrow>
      set_ok HashFn EqFn s' \<and> (b \<longleftrightarrow> \<not> Contains_set HashFn EqFn k s) \<and> m_elements s' = m_elements s @ (if b then [k] else [])
      \<and> (\<forall>x. Contains_set HashFn EqFn x s' \<longleftrightarrow> EqFn k x \<or> Contains_set HashFn EqFn x s))
    \<and> iterate_set HashFn EqFn s 0 = map Some (m_elements s)
    \<and> (Contains_set HashFn EqFn k s \<longleftrightarrow> list_ex (\<lambda>e. EqFn e k) (m_elements s))
    \<and> First_set s = (case m_elements s of [] \<Rightarrow> None | e # _ \<Rightarrow> Some e) \<and> m_set_size s = length (m_elements s)"
proof -
  obtain b s' where ins: "Insert_set HashFn EqFn k s = (b, s')" by force
  note i = hash_keys.Insert_set_ok [OF assms ins]
  note c = hash_keys.Contains_iff [OF assms] hash_keys.Contains_iff [OF assms(1) i(1)]
  have size: "m_set_size s = length (m_elements s)" using assms(2) by (simp add: set_ok_def)
  have "Contains_set HashFn EqFn x s' \<longleftrightarrow> EqFn k x \<or> Contains_set HashFn EqFn x s" for x
  proof (cases b)
    case True
    then show ?thesis using c i(3) by auto
  next
    case False
    then obtain e where e: "e \<in> set (m_elements s)" "EqFn e k" using c(1) i(2) by auto
    have "EqFn k x \<Longrightarrow> EqFn e x" by (rule hash_keys.eq_trans [OF assms(1) e(2)])
    then show ?thesis using c i(3) False e(1) by auto
  qed
  then show ?thesis using i ins size c(1) hash_keys.iterate_set_elements [OF assms]
    by (simp add: First_set_def list_ex_iff split: list.split)
qed

theorem hash_set_refines_set_witness:
  "case Insert_set HashValue_ulong (=) 7 (CHashSet_new 127) of (b, s') \<Rightarrow> b \<and> m_elements s' = [7] \<and> Contains_set HashValue_ulong (=) 7 s'"
  using hash_set_refines_set [OF ulong_keys.hash_keys_axioms set_ok_new, of 127 7]
  by (simp add: CHashSet_new_def Contains_set_def chain_Find_def split: prod.splits)

end
