(* ===== verification/TreeMap.thy ===== *)
theory TreeMap
  imports HashMap "HOL-Library.Monad_Syntax"
begin

text \<open>
  \<^verbatim>\<open>libgpopt/include/gpopt/search/CTreeMap.h\<close>: the table that counts and unranks the plans of a memo.  Elements
  are linked as alternatives for the \<open>n\<close>-th child of other elements; a tree chooses one alternative for every
  child.  The element type stands for the objects up to \<^verbatim>\<open>EqFn\<close>.  Nodes are objects that share children, so
  they live in a store; the address of a node is its number \<open>m_ul\<close>, the global root is number 0.
\<close>

subsection \<open>Checked arithmetic\<close>

text \<open>\<^verbatim>\<open>gpos::Add\<close> and \<^verbatim>\<open>gpos::Multiply\<close>; \<open>None\<close> is the overflow exception.\<close>

definition gpos_Add :: "ullong \<Rightarrow> ullong \<Rightarrow> ullong option" where
  "gpos_Add first second = (if first > - 1 - second then None else Some (first + second))"

definition gpos_Multiply :: "ullong \<Rightarrow> ullong \<Rightarrow> ullong option" where
  "gpos_Multiply first second = (if 0 < second \<and> first > (- 1) div second then None else Some (first * second))"

lemma unat_max: "unat (- 1 :: ullong) = 2 ^ 64 - 1"
  using unat_sub_if' [of 0 "1 :: ullong"] by simp

lemma gpos_Add_exact:
  "gpos_Add a b = (if unat a + unat b < 2 ^ 64 then Some (word_of_nat (unat a + unat b)) else None)"
proof -
  have le: "b \<le> - 1" by simp
  then have "unat (- 1 - b) = 2 ^ 64 - 1 - unat b" using unat_sub [of b "- 1"] unat_max by simp
  moreover have "unat b \<le> 2 ^ 64 - 1" using le unat_max by (simp add: word_le_nat_alt)
  ultimately have "a > - 1 - b \<longleftrightarrow> \<not> unat a + unat b < 2 ^ 64" by (auto simp: word_less_nat_alt)
  then show ?thesis by (simp add: gpos_Add_def)
qed

lemma gpos_Multiply_exact:
  "gpos_Multiply a b = (if unat a * unat b < 2 ^ 64 then Some (word_of_nat (unat a * unat b)) else None)"
proof (cases "b = 0")
  case False
  then have b: "0 < unat b" by (simp add: unat_gt_0)
  have "unat ((- 1) div b) = (2 ^ 64 - 1) div unat b" by (simp add: unat_div_distrib unat_max)
  then have "a > (- 1) div b \<longleftrightarrow> (2 ^ 64 - 1) div unat b < unat a" by (simp add: word_less_nat_alt)
  also have "\<dots> \<longleftrightarrow> \<not> unat a * unat b < 2 ^ 64"
    using b by (simp add: div_less_iff_less_mult) linarith
  finally show ?thesis using False by (simp add: gpos_Multiply_def word_gt_0)
qed (simp add: gpos_Multiply_def)

subsection \<open>CTreeNode\<close>

datatype ENodeState = EnsUncounted | EnsCounting | EnsCounted

record 'a CTreeNode =
  m_ul :: nat
  m_value :: "'a option"
  m_pdrgdrgptn :: "nat list list"
  m_ullCount :: ullong
  m_ulIncoming :: nat
  m_ens :: ENodeState

definition CTreeNode_new :: "nat \<Rightarrow> 'a option \<Rightarrow> 'a CTreeNode" where
  "CTreeNode_new ul value = \<lparr>m_ul = ul, m_value = value, m_pdrgdrgptn = [], m_ullCount = - 1, m_ulIncoming = 0,
    m_ens = EnsUncounted\<rparr>"

type_synonym 'a links = "('a \<times> nat \<times> 'a, bool) CHashMap"

record 'a CTreeMap =
  m_ulCountNodes :: nat
  m_ulCountLinks :: nat
  m_ptmap :: "('a, nat) CHashMap"
  m_plinkmap :: "'a links"
  tree_nodes :: "nat \<Rightarrow> 'a CTreeNode"

definition upd_node :: "nat \<Rightarrow> ('a CTreeNode \<Rightarrow> 'a CTreeNode) \<Rightarrow> 'a CTreeMap \<Rightarrow> 'a CTreeMap" where
  "upd_node n f tm = tm\<lparr>tree_nodes := (tree_nodes tm)(n := f (tree_nodes tm n))\<rparr>"

definition Add_node :: "nat \<Rightarrow> nat \<Rightarrow> nat \<Rightarrow> 'a CTreeMap \<Rightarrow> 'a CTreeMap" where
  "Add_node this ulPos ptn tm =
    (let tm = upd_node this (\<lambda>n. n\<lparr>m_pdrgdrgptn := m_pdrgdrgptn n @ replicate (ulPos + 1 - length (m_pdrgdrgptn n)) []\<rparr>) tm;
         tm = upd_node ptn (\<lambda>n. n\<lparr>m_ulIncoming := m_ulIncoming n + 1\<rparr>) tm
     in upd_node this (\<lambda>n. n\<lparr>m_pdrgdrgptn := (m_pdrgdrgptn n)[ulPos := m_pdrgdrgptn n ! ulPos @ [ptn]]\<rparr>) tm)"

definition FCounted :: "'a CTreeNode \<Rightarrow> bool" where
  "FCounted n \<longleftrightarrow> m_ens n = EnsCounted"

subsubsection \<open>Counting\<close>

text \<open>
  The three mutually recursive loops as one function: the count of a node, the sum over the alternatives of
  one child and the product over the children, the last two with the value accumulated so far.  The
  recursion does not return on a cyclic graph (\<open>None\<close>); the value is \<open>None\<close> when the count overflows.
\<close>

datatype count_call = CountNode nat | CountAlts "nat list" ullong | CountKids "nat list list" ullong

partial_function (option) count_run :: "count_call \<Rightarrow> 'a CTreeMap \<Rightarrow> (ullong option \<times> 'a CTreeMap) option" where
  "count_run call tm =
    (case call of
       CountNode n \<Rightarrow>
         if FCounted (tree_nodes tm n) then Some (Some (m_ullCount (tree_nodes tm n)), tm)
         else do {
           (r, tm) \<leftarrow> count_run (CountKids (m_pdrgdrgptn (tree_nodes tm n)) 1) (upd_node n (\<lambda>n. n\<lparr>m_ens := EnsCounting\<rparr>) tm);
           case r of
             None \<Rightarrow> Some (None, tm)
           | Some ullCount \<Rightarrow> Some (Some ullCount, upd_node n (\<lambda>n. n\<lparr>m_ullCount := ullCount, m_ens := EnsCounted\<rparr>) tm)
         }
     | CountAlts alts ull \<Rightarrow>
         (case alts of
            [] \<Rightarrow> Some (Some ull, tm)
          | ptn # rest \<Rightarrow> do {
              (r, tm) \<leftarrow> count_run (CountNode ptn) tm;
              case r of
                None \<Rightarrow> Some (None, tm)
              | Some ullCount \<Rightarrow>
                  (case gpos_Add ull ullCount of None \<Rightarrow> Some (None, tm) | Some ull \<Rightarrow> count_run (CountAlts rest ull) tm)
            })
     | CountKids kids ullCount \<Rightarrow>
         (case kids of
            [] \<Rightarrow> Some (Some ullCount, tm)
          | alts # rest \<Rightarrow> do {
              (r, tm) \<leftarrow> count_run (CountAlts alts 0) tm;
              case r of
                None \<Rightarrow> Some (None, tm)
              | Some ull \<Rightarrow>
                  if 0 = ull then Some (Some 0, tm)
                  else (case gpos_Multiply ullCount ull of None \<Rightarrow> Some (None, tm) | Some ullCount \<Rightarrow> count_run (CountKids rest ullCount) tm)
            }))"

definition UllCount_node :: "nat \<Rightarrow> 'a CTreeMap \<Rightarrow> (ullong option \<times> 'a CTreeMap) option" where
  "UllCount_node n tm = count_run (CountNode n) tm"

definition UllCount_child :: "nat \<Rightarrow> nat \<Rightarrow> 'a CTreeMap \<Rightarrow> (ullong option \<times> 'a CTreeMap) option" where
  "UllCount_child n ulChild tm = count_run (CountAlts (m_pdrgdrgptn (tree_nodes tm n) ! ulChild) 0) tm"

subsubsection \<open>Unranking\<close>

text \<open>
  Again one function for the two overloads of \<^verbatim>\<open>PrUnrank\<close>, which may count and so may raise: the tree of a
  node, the trees of its children, and the search for the alternative of one child, which remembers
  the alternative it looked at last.  The parameter \<open>prfn\<close> is the rehydrate function; it may change the
  global context.  Only the global root has no value, and it is never rehydrated.
\<close>

datatype unrank_call = UnrankNode nat ullong | UnrankKids "nat list list" ullong | UnrankAlts "nat list" "nat option" ullong

type_synonym ('a, 'r, 'u) PrFn = "'a \<Rightarrow> 'r list \<Rightarrow> 'u \<Rightarrow> 'r \<times> 'u"

partial_function (option) unrank_run ::
  "('a, 'r, 'u) PrFn \<Rightarrow> unrank_call \<Rightarrow> 'u \<Rightarrow> 'a CTreeMap \<Rightarrow> (('r list \<times> 'u) option \<times> 'a CTreeMap) option" where
  "unrank_run prfn call u tm =
    (case call of
       UnrankNode n ullRank \<Rightarrow>
         if 0 = m_ul (tree_nodes tm n) then unrank_run prfn (UnrankAlts (m_pdrgdrgptn (tree_nodes tm n) ! 0) None ullRank) u tm
         else do {
           (r, tm) \<leftarrow> unrank_run prfn (UnrankKids (m_pdrgdrgptn (tree_nodes tm n)) ullRank) u tm;
           case r of
             None \<Rightarrow> Some (None, tm)
           | Some (rs, u) \<Rightarrow> (case prfn (the (m_value (tree_nodes tm n))) rs u of (pr, u) \<Rightarrow> Some (Some ([pr], u), tm))
         }
     | UnrankKids kids ullRankRem \<Rightarrow>
         (case kids of
            [] \<Rightarrow> Some (Some ([], u), tm)
          | alts # rest \<Rightarrow> do {
              (c, tm) \<leftarrow> count_run (CountAlts alts 0) tm;
              case c of
                None \<Rightarrow> Some (None, tm)
              | Some ullLocalCount \<Rightarrow> do {
                  (r, tm) \<leftarrow> unrank_run prfn (UnrankAlts alts None (ullRankRem mod ullLocalCount)) u tm;
                  case r of
                    None \<Rightarrow> Some (None, tm)
                  | Some (rs, u) \<Rightarrow> do {
                      (r', tm) \<leftarrow> unrank_run prfn (UnrankKids rest (ullRankRem div ullLocalCount)) u tm;
                      case r' of None \<Rightarrow> Some (None, tm) | Some (rs', u) \<Rightarrow> Some (Some (rs @ rs', u), tm)
                    }
                }
            })
     | UnrankAlts alts ptn ullRank \<Rightarrow>
         (case alts of
            [] \<Rightarrow> unrank_run prfn (UnrankNode (the ptn) ullRank) u tm
          | ptn # rest \<Rightarrow> do {
              (c, tm) \<leftarrow> count_run (CountNode ptn) tm;
              case c of
                None \<Rightarrow> Some (None, tm)
              | Some ullLocalCount \<Rightarrow>
                  if ullRank < ullLocalCount then unrank_run prfn (UnrankNode ptn ullRank) u tm
                  else unrank_run prfn (UnrankAlts rest (Some ptn) (ullRank - ullLocalCount)) u tm
            }))"

definition PrUnrank_node ::
  "('a, 'r, 'u) PrFn \<Rightarrow> nat \<Rightarrow> ullong \<Rightarrow> 'u \<Rightarrow> 'a CTreeMap \<Rightarrow> (('r list \<times> 'u) option \<times> 'a CTreeMap) option" where
  "PrUnrank_node prfn n ullRank u tm = unrank_run prfn (UnrankNode n ullRank) u tm"

subsection \<open>CTreeMap\<close>

definition STreeLink_HashValue :: "('a \<Rightarrow> nat) \<Rightarrow> 'a \<times> nat \<times> 'a \<Rightarrow> nat" where
  "STreeLink_HashValue HashFn ptlink =
    (case ptlink of (ptParent, ulChildIndex, ptChild) \<Rightarrow>
       unat (CombineHashes (word_of_nat (HashFn ptParent))
         (CombineHashes (word_of_nat (HashFn ptChild)) (word_of_nat (HashValue_ulong (word_of_nat ulChildIndex))))))"

definition CTreeMap_new :: "'a CTreeMap" where
  "CTreeMap_new = \<lparr>m_ulCountNodes = 0, m_ulCountLinks = 0, m_ptmap = CHashMap_new 127, m_plinkmap = CHashMap_new 127,
    tree_nodes = (\<lambda>_. CTreeNode_new 0 None)\<rparr>"

definition Ptn :: "('a \<Rightarrow> nat) \<Rightarrow> 'a \<Rightarrow> 'a CTreeMap \<Rightarrow> nat \<times> 'a CTreeMap" where
  "Ptn HashFn value tm =
    (case Find_map HashFn (=) value (m_ptmap tm) of
       Some ptn \<Rightarrow> (ptn, tm)
     | None \<Rightarrow>
         let ptn = m_ulCountNodes tm + 1
         in (ptn, tm\<lparr>m_ulCountNodes := ptn, tree_nodes := (tree_nodes tm)(ptn := CTreeNode_new ptn (Some value)),
               m_ptmap := snd (Insert_map HashFn (=) value (Some ptn) (m_ptmap tm))\<rparr>))"

definition Insert_link :: "('a \<Rightarrow> nat) \<Rightarrow> 'a \<Rightarrow> nat \<Rightarrow> 'a \<Rightarrow> 'a CTreeMap \<Rightarrow> 'a CTreeMap" where
  "Insert_link HashFn ptParent ulPos ptChild tm =
    (let ptlink = (ptParent, ulPos, ptChild)
     in if Find_map (STreeLink_HashValue HashFn) (=) ptlink (m_plinkmap tm) \<noteq> None then tm
        else
          let (ptnParent, tm) = Ptn HashFn ptParent tm;
              (ptnChild, tm) = Ptn HashFn ptChild tm;
              tm = Add_node ptnParent ulPos ptnChild tm
          in tm\<lparr>m_ulCountLinks := m_ulCountLinks tm + 1,
               m_plinkmap := snd (Insert_map (STreeLink_HashValue HashFn) (=) ptlink (Some True) (m_plinkmap tm))\<rparr>)"

definition InsertRoot :: "('a \<Rightarrow> nat) \<Rightarrow> 'a \<Rightarrow> 'a CTreeMap \<Rightarrow> 'a CTreeMap" where
  "InsertRoot HashFn value tm = (let (ptn, tm) = Ptn HashFn value tm in Add_node 0 0 ptn tm)"

text \<open>The loop of \<^verbatim>\<open>UllCount\<close> that hooks up the nodes without incoming edges.\<close>

definition hook_roots :: "('a \<Rightarrow> nat) \<Rightarrow> 'a CTreeMap \<Rightarrow> 'a CTreeMap" where
  "hook_roots HashFn tm =
    fold (\<lambda>(_, ptn) tm. if 0 = m_ulIncoming (tree_nodes tm (the ptn)) then Add_node 0 0 (the ptn) tm else tm)
      (iterate_map HashFn (=) (m_ptmap tm) 0) tm"

definition UllCount :: "('a \<Rightarrow> nat) \<Rightarrow> 'a CTreeMap \<Rightarrow> (ullong option \<times> 'a CTreeMap) option" where
  "UllCount HashFn tm =
    (let ulNodes = length (iterate_map HashFn (=) (m_ptmap tm) 0);
         tm = hook_roots HashFn tm
     in if 0 = ulNodes then Some (Some 0, tm) else UllCount_node 0 tm)"

definition PrUnrank ::
  "('a, 'r, 'u) PrFn \<Rightarrow> ullong \<Rightarrow> 'u \<Rightarrow> 'a CTreeMap \<Rightarrow> (('r list \<times> 'u) option \<times> 'a CTreeMap) option" where
  "PrUnrank prfn ullRank u tm = PrUnrank_node prfn 0 ullRank u tm"

end
