(* ===== verification/TreeMapCorrect.thy ===== *)
theory TreeMapCorrect
  imports TreeMap
begin

text \<open>
  Counting and unranking of \<^verbatim>\<open>CTreeMap\<close> are correct: the count is the number of trees, and unranking the
  ranks below the count produces every tree exactly once.
\<close>

subsection \<open>Enumeration of trees\<close>

datatype 'a plan_tree = Plan (plan_value: 'a) (plan_kids: "'a plan_tree list")

text \<open>All choices of one element from each list, the first list varying fastest.\<close>

fun combos :: "'b list list \<Rightarrow> 'b list list" where
  "combos [] = [[]]"
| "combos (xs # xss) = concat (map (\<lambda>ys. map (\<lambda>x. x # ys) xs) (combos xss))"

lemma length_concat_const: "(\<And>z. z \<in> set zs \<Longrightarrow> length (g z) = m) \<Longrightarrow> length (concat (map g zs)) = m * length zs"
  by (induction zs) auto

lemma nth_concat_const:
  "(\<And>z. z \<in> set zs \<Longrightarrow> length (g z) = m) \<Longrightarrow> 0 < m \<Longrightarrow> r < m * length zs \<Longrightarrow>
    concat (map g zs) ! r = g (zs ! (r div m)) ! (r mod m)"
proof (induction zs arbitrary: r)
  case (Cons z zs)
  show ?case
  proof (cases "r < m")
    case True
    then show ?thesis using Cons.prems by (simp add: nth_append)
  next
    case False
    then have "(r - m) div m = r div m - 1" "(r - m) mod m = r mod m" "0 < r div m"
      using Cons.prems by (auto simp: le_div_geq le_mod_geq div_greater_zero_iff)
    moreover have "concat (map g zs) ! (r - m) = g (zs ! ((r - m) div m)) ! ((r - m) mod m)"
      using Cons.prems False by (intro Cons.IH) auto
    ultimately show ?thesis using Cons.prems False by (simp add: nth_append nth_Cons')
  qed
qed simp

lemma length_combos: "length (combos xss) = prod_list (map length xss)"
  by (induction xss) (simp_all add: length_concat_const)

lemma nth_combos:
  assumes "r < length (combos (xs # xss))"
  shows "combos (xs # xss) ! r = xs ! (r mod length xs) # combos xss ! (r div length xs)"
proof -
  have lt: "r < length xs * length (combos xss)" using assms by (simp add: length_concat_const)
  then have pos: "0 < length xs" by (cases xs) auto
  have "combos (xs # xss) ! r = map (\<lambda>x. x # combos xss ! (r div length xs)) xs ! (r mod length xs)"
    using nth_concat_const [of "combos xss" "\<lambda>ys. map (\<lambda>x. x # ys) xs" "length xs" r] lt pos by simp
  then show ?thesis using pos by simp
qed

lemma set_combos: "set (combos xss) = {ys. list_all2 (\<lambda>y xs. y \<in> set xs) ys xss}"
  by (induction xss) (auto simp: list_all2_Cons2)

lemma distinct_concat_map:
  "distinct zs \<Longrightarrow> (\<And>z. z \<in> set zs \<Longrightarrow> distinct (g z)) \<Longrightarrow>
    (\<And>a b x. a \<in> set zs \<Longrightarrow> b \<in> set zs \<Longrightarrow> x \<in> set (g a) \<Longrightarrow> x \<in> set (g b) \<Longrightarrow> a = b) \<Longrightarrow> distinct (concat (map g zs))"
proof (induction zs)
  case (Cons z zs)
  have "distinct (concat (map g zs))" using Cons.prems by (intro Cons.IH) auto
  then show ?case using Cons.prems by fastforce
qed simp

lemma distinct_combos: "(\<And>xs. xs \<in> set xss \<Longrightarrow> distinct xs) \<Longrightarrow> distinct (combos xss)"
proof (induction xss)
  case (Cons xs xss)
  have "distinct (concat (map (\<lambda>ys. map (\<lambda>x. x # ys) xs) (combos xss)))"
    by (rule distinct_concat_map) (use Cons in \<open>auto simp: distinct_map inj_on_def\<close>)
  then show ?case by simp
qed simp

text \<open>
  The trees of a node by depth.  \<open>V\<close> gives the values of the nodes and \<open>K\<close> their alternatives; a rank \<open>h\<close>
  that decreases along the edges bounds the depth.
\<close>

fun enum_trees :: "(nat \<Rightarrow> 'a) \<Rightarrow> (nat \<Rightarrow> nat list list) \<Rightarrow> nat \<Rightarrow> nat \<Rightarrow> 'a plan_tree list" where
  "enum_trees V K 0 n = []"
| "enum_trees V K (Suc d) n = map (Plan (V n)) (combos (map (\<lambda>alts. concat (map (enum_trees V K d) alts)) (K n)))"

definition ranked :: "(nat \<Rightarrow> nat list list) \<Rightarrow> (nat \<Rightarrow> nat) \<Rightarrow> bool" where
  "ranked K h \<longleftrightarrow> (\<forall>n. \<forall>alts\<in>set (K n). \<forall>c\<in>set alts. h c < h n)"

definition trees_of :: "(nat \<Rightarrow> 'a) \<Rightarrow> (nat \<Rightarrow> nat list list) \<Rightarrow> (nat \<Rightarrow> nat) \<Rightarrow> nat \<Rightarrow> 'a plan_tree list" where
  "trees_of V K h n = enum_trees V K (Suc (h n)) n"

lemma enum_trees_stable:
  assumes "ranked K h"
  shows "h n < d \<Longrightarrow> h n < e \<Longrightarrow> enum_trees V K d n = enum_trees V K e n"
proof (induction d arbitrary: e n)
  case (Suc d)
  then obtain e' where e: "e = Suc e'" by (cases e) auto
  have "enum_trees V K d c = enum_trees V K e' c" if "alts \<in> set (K n)" "c \<in> set alts" for alts c
  proof -
    have "h c < h n" using assms that by (auto simp: ranked_def)
    then show ?thesis using Suc.prems e by (intro Suc.IH) auto
  qed
  then have "map (\<lambda>alts. concat (map (enum_trees V K d) alts)) (K n) = map (\<lambda>alts. concat (map (enum_trees V K e') alts)) (K n)"
    by (intro map_cong refl arg_cong [of _ _ concat]) auto
  then show ?case by (simp only: e enum_trees.simps)
qed simp

lemma trees_of_unfold:
  assumes "ranked K h"
  shows "trees_of V K h n = map (Plan (V n)) (combos (map (\<lambda>alts. concat (map (trees_of V K h) alts)) (K n)))"
proof -
  have "enum_trees V K (h n) c = trees_of V K h c" if "alts \<in> set (K n)" "c \<in> set alts" for alts c
    unfolding trees_of_def by (rule enum_trees_stable [OF assms]) (use assms that in \<open>auto simp: ranked_def\<close>)
  then have "map (\<lambda>alts. concat (map (enum_trees V K (h n)) alts)) (K n) = map (\<lambda>alts. concat (map (trees_of V K h) alts)) (K n)"
    by (intro map_cong refl arg_cong [of _ _ concat]) auto
  then show ?thesis by (simp only: trees_of_def [of V K h n] enum_trees.simps)
qed

definition alt_sum :: "(nat \<Rightarrow> nat) \<Rightarrow> nat list \<Rightarrow> nat" where
  "alt_sum nt alts = sum_list (map nt alts)"

lemma length_concat_sum: "length (concat (map g alts)) = alt_sum (\<lambda>c. length (g c)) alts"
  by (simp add: alt_sum_def length_concat comp_def)

lemma ntrees_unfold:
  assumes "ranked K h"
  shows "length (trees_of V K h n) = prod_list (map (alt_sum (\<lambda>c. length (trees_of V K h c))) (K n))"
  unfolding trees_of_unfold [OF assms, of V n] by (simp add: length_combos length_concat_sum comp_def)

subsection \<open>Counting\<close>

definition ull_bound :: nat where
  "ull_bound = 2 ^ 64"

lemma gpos_Add_bound: "gpos_Add a b = (if unat a + unat b < ull_bound then Some (word_of_nat (unat a + unat b)) else None)"
  by (simp only: gpos_Add_exact ull_bound_def)

lemma gpos_Multiply_bound:
  "gpos_Multiply a b = (if unat a * unat b < ull_bound then Some (word_of_nat (unat a * unat b)) else None)"
  by (simp only: gpos_Multiply_exact ull_bound_def)

lemma unat_of_nat_bound: "n < ull_bound \<Longrightarrow> unat (word_of_nat n :: ullong) = n"
  by (simp add: unat_of_nat ull_bound_def)

lemma unat_below_bound: "unat (w :: ullong) < ull_bound"
  using unsigned_less [of w] by (simp add: ull_bound_def)

text \<open>
  What counting preserves: the graph, the counts found so far, and that below a node with trees everything
  has been counted.
\<close>

definition memo_ok :: "(nat \<Rightarrow> nat list list) \<Rightarrow> (nat \<Rightarrow> nat) \<Rightarrow> 'a CTreeMap \<Rightarrow> bool" where
  "memo_ok K nt tm \<longleftrightarrow> (\<forall>n. m_pdrgdrgptn (tree_nodes tm n) = K n)
    \<and> (\<forall>n. FCounted (tree_nodes tm n) \<longrightarrow> unat (m_ullCount (tree_nodes tm n)) = nt n
        \<and> (0 < nt n \<longrightarrow> (\<forall>alts\<in>set (K n). \<forall>c\<in>set alts. FCounted (tree_nodes tm c))))"

definition counted_more :: "'a CTreeMap \<Rightarrow> 'a CTreeMap \<Rightarrow> bool" where
  "counted_more tm tm' \<longleftrightarrow> (\<forall>n. m_ul (tree_nodes tm' n) = m_ul (tree_nodes tm n) \<and> m_value (tree_nodes tm' n) = m_value (tree_nodes tm n)
      \<and> (FCounted (tree_nodes tm n) \<longrightarrow> FCounted (tree_nodes tm' n)))"

text \<open>The largest number that counting a node can meet.\<close>

definition room :: "(nat \<Rightarrow> nat list list) \<Rightarrow> (nat \<Rightarrow> nat) \<Rightarrow> nat \<Rightarrow> nat" where
  "room K nt n = prod_list (map (\<lambda>alts. max 1 (alt_sum nt alts)) (K n))"

definition counts :: "(nat \<Rightarrow> nat list list) \<Rightarrow> (nat \<Rightarrow> nat) \<Rightarrow> 'a CTreeMap \<Rightarrow> count_call \<Rightarrow> nat \<Rightarrow> nat set \<Rightarrow> bool \<Rightarrow> bool" where
  "counts K nt tm call v N ovf \<longleftrightarrow> (\<exists>r tm'. count_run call tm = Some (r, tm') \<and> memo_ok K nt tm' \<and> counted_more tm tm'
    \<and> (case r of Some c \<Rightarrow> unat c = v \<and> (\<forall>n\<in>N. FCounted (tree_nodes tm' n)) | None \<Rightarrow> ovf \<or> (\<exists>m. ull_bound \<le> room K nt m)))"

lemma counts_cases [consumes 1, case_names Overflow Value]:
  assumes "counts K nt tm call v N ovf"
  obtains tm' where "count_run call tm = Some (None, tm')" "memo_ok K nt tm'" "counted_more tm tm'"
      "ovf \<or> (\<exists>m. ull_bound \<le> room K nt m)"
  | c tm' where "count_run call tm = Some (Some c, tm')" "memo_ok K nt tm'" "counted_more tm tm'"
      "unat c = v" "\<forall>n\<in>N. FCounted (tree_nodes tm' n)"
proof -
  obtain r tm' where "count_run call tm = Some (r, tm')" "memo_ok K nt tm'" "counted_more tm tm'"
    "case r of Some c \<Rightarrow> unat c = v \<and> (\<forall>n\<in>N. FCounted (tree_nodes tm' n)) | None \<Rightarrow> ovf \<or> (\<exists>m. ull_bound \<le> room K nt m)"
    using assms unfolding counts_def by blast
  then show ?thesis using that by (cases r) auto
qed

lemma countsI_overflow:
  "count_run call tm = Some (None, tm') \<Longrightarrow> memo_ok K nt tm' \<Longrightarrow> counted_more tm tm' \<Longrightarrow> ovf \<or> (\<exists>m. ull_bound \<le> room K nt m) \<Longrightarrow>
    counts K nt tm call v N ovf"
  unfolding counts_def by (intro exI [of _ None] exI [of _ tm']) simp

lemma countsI_value:
  "count_run call tm = Some (Some c, tm') \<Longrightarrow> memo_ok K nt tm' \<Longrightarrow> counted_more tm tm' \<Longrightarrow> unat c = v \<Longrightarrow>
    \<forall>n\<in>N. FCounted (tree_nodes tm' n) \<Longrightarrow> counts K nt tm call v N ovf"
  unfolding counts_def by (intro exI [of _ "Some c"] exI [of _ tm']) simp

lemma counted_more_trans: "counted_more a b \<Longrightarrow> counted_more b c \<Longrightarrow> counted_more a c"
  by (simp add: counted_more_def)

lemma counted_more_refl [simp]: "counted_more a a"
  by (simp add: counted_more_def)

lemma counts_step:
  assumes run: "count_run call tm = count_run call' tm'" and more: "counted_more tm tm'" and c: "counts K nt tm' call' v N' ovf'"
    and ovf: "ovf' \<Longrightarrow> ovf" and N: "\<And>n. n \<in> N \<Longrightarrow> n \<notin> N' \<Longrightarrow> FCounted (tree_nodes tm' n)"
  shows "counts K nt tm call v N ovf"
  using c
proof (cases rule: counts_cases)
  case (Overflow t)
  then show ?thesis using run ovf counted_more_trans [OF more] by (intro countsI_overflow [of _ _ t]) auto
next
  case (Value w t)
  have "\<forall>n\<in>N. FCounted (tree_nodes t n)" using N Value(3,5) unfolding counted_more_def by blast
  then show ?thesis using run Value counted_more_trans [OF more] by (intro countsI_value [of _ _ w t]) auto
qed

lemma counts_alts:
  fixes tm :: "'a CTreeMap"
  assumes "\<And>c (tm :: 'a CTreeMap). c \<in> set alts \<Longrightarrow> memo_ok K nt tm \<Longrightarrow> counts K nt tm (CountNode c) (nt c) {c} False" and "memo_ok K nt tm"
  shows "counts K nt tm (CountAlts alts acc) (unat acc + alt_sum nt alts) (set alts) (ull_bound \<le> unat acc + alt_sum nt alts)"
  using assms
proof (induction alts arbitrary: acc tm)
  case Nil
  have "count_run (CountAlts [] acc) tm = Some (Some acc, tm)" by (subst count_run.simps) simp
  then show ?case by (rule countsI_value) (use Nil(2) in \<open>simp_all add: alt_sum_def\<close>)
next
  case (Cons c rest)
  have sum: "alt_sum nt (c # rest) = nt c + alt_sum nt rest" by (simp add: alt_sum_def)
  have "counts K nt tm (CountNode c) (nt c) {c} False" using Cons.prems by simp
  then show ?case
  proof (cases rule: counts_cases)
    case (Overflow t)
    then have "count_run (CountAlts (c # rest) acc) tm = Some (None, t)" by (subst count_run.simps) simp
    then show ?thesis by (rule countsI_overflow) (use Overflow in auto)
  next
    case (Value w t)
    show ?thesis
    proof (cases "unat acc + nt c < ull_bound")
      case True
      let ?w = "word_of_nat (unat acc + nt c) :: ullong"
      have run: "count_run (CountAlts (c # rest) acc) tm = count_run (CountAlts rest ?w) t"
        using Value True by (subst count_run.simps) (simp add: gpos_Add_bound)
      have "counts K nt t (CountAlts rest ?w) (unat ?w + alt_sum nt rest) (set rest) (ull_bound \<le> unat ?w + alt_sum nt rest)"
        by (rule Cons.IH) (use Cons.prems(1) Value(2) in auto)
      then have step: "counts K nt t (CountAlts rest ?w) (unat acc + (nt c + alt_sum nt rest)) (set rest)
          (ull_bound \<le> unat acc + (nt c + alt_sum nt rest))"
        by (simp only: unat_of_nat_bound [OF True] add.assoc)
      show ?thesis unfolding sum by (rule counts_step [OF run Value(3) step]) (use Value(5) in auto)
    next
      case False
      then have "count_run (CountAlts (c # rest) acc) tm = Some (None, t)"
        using Value by (subst count_run.simps) (simp add: gpos_Add_bound)
      then show ?thesis unfolding sum by (rule countsI_overflow) (use Value False in auto)
    qed
  qed
qed

lemma prod_pos: "0 < prod_list (map (\<lambda>alts. max 1 (alt_sum nt alts)) kids)"
  by (induction kids) auto

lemma counts_kids:
  fixes tm :: "'a CTreeMap"
  assumes "\<And>alts c (tm :: 'a CTreeMap). alts \<in> set kids \<Longrightarrow> c \<in> set alts \<Longrightarrow> memo_ok K nt tm \<Longrightarrow>
      counts K nt tm (CountNode c) (nt c) {c} False"
    and "memo_ok K nt tm" and "0 < unat acc"
  shows "counts K nt tm (CountKids kids acc) (unat acc * prod_list (map (alt_sum nt) kids))
    (if 0 < prod_list (map (alt_sum nt) kids) then \<Union> (set ` set kids) else {})
    (ull_bound \<le> unat acc * prod_list (map (\<lambda>alts. max 1 (alt_sum nt alts)) kids))"
  using assms
proof (induction kids arbitrary: acc tm)
  case Nil
  have "count_run (CountKids [] acc) tm = Some (Some acc, tm)" by (subst count_run.simps) simp
  then show ?case by (rule countsI_value) (use Nil(2) in simp_all)
next
  case (Cons alts rest)
  let ?s = "alt_sum nt alts" and ?p = "prod_list (map (\<lambda>alts. max 1 (alt_sum nt alts)) rest)"
  have "counts K nt tm (CountAlts alts 0) (unat (0 :: ullong) + ?s) (set alts) (ull_bound \<le> unat (0 :: ullong) + ?s)"
    by (rule counts_alts) (use Cons.prems in auto)
  then have "counts K nt tm (CountAlts alts 0) ?s (set alts) (ull_bound \<le> ?s)" by simp
  then show ?case
  proof (cases rule: counts_cases)
    case (Overflow t)
    then have "count_run (CountKids (alts # rest) acc) tm = Some (None, t)" by (subst count_run.simps) simp
    moreover have "ull_bound \<le> unat acc * (max 1 ?s * ?p)" if "ull_bound \<le> ?s"
    proof -
      have "?s * 1 \<le> max 1 ?s * ?p" using prod_pos [of nt rest] by (intro mult_le_mono) (auto simp: Suc_leI)
      also have "\<dots> \<le> unat acc * (max 1 ?s * ?p)" using Cons.prems(3) by simp
      finally show ?thesis using that by simp
    qed
    ultimately show ?thesis by (intro countsI_overflow) (use Overflow in auto)
  next
    case (Value w t)
    show ?thesis
    proof (cases "?s = 0")
      case True
      then have "w = 0" using Value(4) by (simp add: unat_eq_0)
      then have "count_run (CountKids (alts # rest) acc) tm = Some (Some 0, t)" using Value by (subst count_run.simps) simp
      then show ?thesis by (rule countsI_value) (use Value True in simp_all)
    next
      case pos: False
      then have w: "w \<noteq> 0" using Value(4) by (auto simp: unat_eq_0)
      have mx: "max 1 ?s = ?s" using pos by simp
      show ?thesis
      proof (cases "unat acc * ?s < ull_bound")
        case True
        let ?w = "word_of_nat (unat acc * ?s) :: ullong"
        note un = unat_of_nat_bound [OF True]
        have run: "count_run (CountKids (alts # rest) acc) tm = count_run (CountKids rest ?w) t"
          using Value True w by (subst count_run.simps) (simp add: gpos_Multiply_bound)
        have "counts K nt t (CountKids rest ?w) (unat ?w * prod_list (map (alt_sum nt) rest))
            (if 0 < prod_list (map (alt_sum nt) rest) then \<Union> (set ` set rest) else {}) (ull_bound \<le> unat ?w * ?p)"
          by (rule Cons.IH) (use Cons.prems Value(2) un pos in auto)
        then have "counts K nt tm (CountKids (alts # rest) acc) (unat ?w * prod_list (map (alt_sum nt) rest))
            (if 0 < prod_list (map (alt_sum nt) (alts # rest)) then \<Union> (set ` set (alts # rest)) else {})
            (ull_bound \<le> unat ?w * ?p)"
          by (rule counts_step [OF run Value(3)]) (use Value(5) in \<open>auto split: if_splits\<close>)
        then show ?thesis by (simp only: un mx mult.assoc list.map prod_list.Cons)
      next
        case False
        then have "count_run (CountKids (alts # rest) acc) tm = Some (None, t)"
          using Value w by (subst count_run.simps) (simp add: gpos_Multiply_bound)
        moreover have "unat acc * ?s * 1 \<le> unat acc * ?s * ?p"
          using prod_pos [of nt rest] by (intro mult_le_mono) (auto simp: Suc_leI)
        then have "ull_bound \<le> unat acc * (max 1 ?s * ?p)" using False mx by (simp only: mult.assoc mult_1_right not_less)
        then have "ull_bound \<le> unat acc * prod_list (map (\<lambda>alts. max 1 (alt_sum nt alts)) (alts # rest))"
          by (simp only: list.map prod_list.Cons)
        ultimately show ?thesis by (intro countsI_overflow [OF _ Value(2,3) disjI1])
      qed
    qed
  qed
qed

lemma upd_node_fields [simp]:
  "tree_nodes (upd_node n f tm) m = (if m = n then f (tree_nodes tm n) else tree_nodes tm m)"
  by (simp add: upd_node_def)

lemma counts_node:
  fixes tm :: "'a CTreeMap"
  assumes rk: "ranked K h" and nt: "\<And>n. nt n = prod_list (map (alt_sum nt) (K n))"
  shows "memo_ok K nt tm \<Longrightarrow> counts K nt tm (CountNode n) (nt n) {n} False"
proof (induction "h n" arbitrary: n tm rule: less_induct)
  case less
  show ?case
  proof (cases "FCounted (tree_nodes tm n)")
    case True
    then have "count_run (CountNode n) tm = Some (Some (m_ullCount (tree_nodes tm n)), tm)" by (subst count_run.simps) simp
    then show ?thesis by (rule countsI_value) (use less.prems True in \<open>auto simp: memo_ok_def\<close>)
  next
    case False
    let ?t0 = "upd_node n (\<lambda>n. n\<lparr>m_ens := EnsCounting\<rparr>) tm"
    have m0: "memo_ok K nt ?t0" using less.prems False by (auto simp: memo_ok_def FCounted_def)
    have more0: "counted_more tm ?t0" using False by (simp add: counted_more_def FCounted_def)
    have "counts K nt ?t0 (CountKids (K n) 1) (unat (1 :: ullong) * prod_list (map (alt_sum nt) (K n)))
        (if 0 < prod_list (map (alt_sum nt) (K n)) then \<Union> (set ` set (K n)) else {})
        (ull_bound \<le> unat (1 :: ullong) * prod_list (map (\<lambda>alts. max 1 (alt_sum nt alts)) (K n)))"
      by (rule counts_kids) (use less.hyps rk m0 in \<open>auto simp: ranked_def\<close>)
    then have "counts K nt ?t0 (CountKids (K n) 1) (nt n) (if 0 < nt n then \<Union> (set ` set (K n)) else {})
        (ull_bound \<le> room K nt n)"
      using nt [of n] by (simp add: room_def)
    then show ?thesis
    proof (cases rule: counts_cases)
      case (Overflow t)
      then have "count_run (CountNode n) tm = Some (None, t)"
        using False less.prems by (subst count_run.simps) (simp add: memo_ok_def)
      then show ?thesis by (rule countsI_overflow) (use Overflow counted_more_trans [OF more0] in auto)
    next
      case (Value w t)
      let ?t = "upd_node n (\<lambda>n. n\<lparr>m_ullCount := w, m_ens := EnsCounted\<rparr>) t"
      have "count_run (CountNode n) tm = Some (Some w, ?t)"
        using False Value less.prems by (subst count_run.simps) (simp add: memo_ok_def)
      moreover have "memo_ok K nt ?t" using Value(2,4,5) unfolding memo_ok_def by (auto simp: FCounted_def split: if_splits)
      moreover have "counted_more t ?t" by (simp add: counted_more_def FCounted_def)
      ultimately show ?thesis
        using counted_more_trans [OF counted_more_trans [OF more0 Value(3)]] Value(4)
        by (intro countsI_value) (auto simp: FCounted_def)
    qed
  qed
qed

subsection \<open>Unranking\<close>

text \<open>Rehydration of a tree, children first and from left to right, with the context passed along.\<close>

fun rehydrate :: "('a, 'r, 'u) PrFn \<Rightarrow> 'a plan_tree \<Rightarrow> 'u \<Rightarrow> 'r \<times> 'u"
  and rehydrate_list :: "('a, 'r, 'u) PrFn \<Rightarrow> 'a plan_tree list \<Rightarrow> 'u \<Rightarrow> 'r list \<times> 'u" where
  "rehydrate prfn (Plan v ts) u = (case rehydrate_list prfn ts u of (rs, u) \<Rightarrow> prfn v rs u)"
| "rehydrate_list prfn [] u = ([], u)"
| "rehydrate_list prfn (t # ts) u =
    (case rehydrate prfn t u of (r, u) \<Rightarrow> case rehydrate_list prfn ts u of (rs, u) \<Rightarrow> (r # rs, u))"

text \<open>In a graph that has been counted nothing changes any more.\<close>

lemma count_counted:
  assumes "memo_ok K nt tm" "FCounted (tree_nodes tm n)"
  shows "\<exists>w. count_run (CountNode n) tm = Some (Some w, tm) \<and> unat w = nt n"
  using assms by (subst count_run.simps) (simp add: memo_ok_def)

lemma count_alts_counted:
  assumes "memo_ok K nt tm" "\<forall>c\<in>set alts. FCounted (tree_nodes tm c)" "unat acc + alt_sum nt alts < ull_bound"
  shows "\<exists>w. count_run (CountAlts alts acc) tm = Some (Some w, tm) \<and> unat w = unat acc + alt_sum nt alts"
  using assms(2,3)
proof (induction alts arbitrary: acc)
  case Nil
  then show ?case by (subst count_run.simps) (simp add: alt_sum_def)
next
  case (Cons c rest)
  obtain w where w: "count_run (CountNode c) tm = Some (Some w, tm)" "unat w = nt c"
    using count_counted [OF assms(1), of c] Cons.prems by auto
  have lt: "unat acc + nt c < ull_bound" using Cons.prems(2) by (simp add: alt_sum_def)
  let ?w = "word_of_nat (unat acc + nt c) :: ullong"
  have un: "unat ?w = unat acc + nt c" by (rule unat_of_nat_bound [OF lt])
  have "count_run (CountAlts (c # rest) acc) tm = count_run (CountAlts rest ?w) tm"
    using w lt by (subst count_run.simps) (simp add: gpos_Add_bound)
  moreover have "\<exists>x. count_run (CountAlts rest ?w) tm = Some (Some x, tm) \<and> unat x = unat ?w + alt_sum nt rest"
  proof (rule Cons.IH)
    show "unat ?w + alt_sum nt rest < ull_bound" unfolding un using Cons.prems(2) by (simp add: alt_sum_def)
  qed (use Cons.prems(1) in simp)
  ultimately show ?case unfolding un by (simp add: alt_sum_def add.assoc)
qed

text \<open>What unranking relies on: a counted graph in which the alternatives are proper nodes.\<close>

definition unrankable :: "(nat \<Rightarrow> 'a) \<Rightarrow> (nat \<Rightarrow> nat list list) \<Rightarrow> (nat \<Rightarrow> nat) \<Rightarrow> 'a CTreeMap \<Rightarrow> bool" where
  "unrankable V K nt tm \<longleftrightarrow> memo_ok K nt tm \<and> (\<forall>n. \<forall>alts\<in>set (K n). \<forall>c\<in>set alts. m_ul (tree_nodes tm c) \<noteq> 0)
    \<and> (\<forall>n. the (m_value (tree_nodes tm n)) = V n)"

definition unranks ::
  "('a, 'r, 'u) PrFn \<Rightarrow> 'a CTreeMap \<Rightarrow> unrank_call \<Rightarrow> 'a plan_tree list \<Rightarrow> bool" where
  "unranks prfn tm call ts \<longleftrightarrow> (\<forall>u. unrank_run prfn call u tm = Some (Some (rehydrate_list prfn ts u), tm))"

lemma unranks_alts:
  fixes tm :: "'a CTreeMap" and prfn :: "('a, 'r, 'u) PrFn"
  assumes memo: "memo_ok K (\<lambda>c. length (T c)) tm"
    and node: "\<And>c r. c \<in> set alts \<Longrightarrow> unat r < length (T c) \<Longrightarrow> unranks prfn tm (UnrankNode c r) [T c ! unat r]"
    and cnt: "\<forall>c\<in>set alts. FCounted (tree_nodes tm c)"
  shows "unat r < length (concat (map T alts)) \<Longrightarrow>
    unranks prfn tm (UnrankAlts alts p r) [concat (map T alts) ! unat r]"
  using node cnt
proof (induction alts arbitrary: p r)
  case (Cons c rest)
  obtain w where w: "count_run (CountNode c) tm = Some (Some w, tm)" "unat w = length (T c)"
    using count_counted [OF memo, of c] Cons.prems(3) by auto
  show ?case
  proof (cases "r < w")
    case True
    then have lt: "unat r < length (T c)" using w(2) by (simp add: word_less_nat_alt)
    have "unrank_run prfn (UnrankAlts (c # rest) p r) u tm = unrank_run prfn (UnrankNode c r) u tm" for u
      using w True by (subst unrank_run.simps) simp
    then show ?thesis using Cons.prems(2) [of c r] lt by (simp add: unranks_def nth_append)
  next
    case False
    then have le: "w \<le> r" by simp
    have un: "unat (r - w) = unat r - length (T c)" using unat_sub [OF le] w(2) by simp
    have ge: "length (T c) \<le> unat r" using le w(2) by (simp add: word_le_nat_alt)
    have "unrank_run prfn (UnrankAlts (c # rest) p r) u tm = unrank_run prfn (UnrankAlts rest (Some c) (r - w)) u tm" for u
      using w False by (subst unrank_run.simps) simp
    moreover have "unranks prfn tm (UnrankAlts rest (Some c) (r - w)) [concat (map T rest) ! unat (r - w)]"
      by (rule Cons.IH) (use Cons.prems un ge in auto)
    ultimately show ?thesis using ge un by (simp add: unranks_def nth_append)
  qed
qed simp

lemma unranks_kids:
  fixes tm :: "'a CTreeMap" and prfn :: "('a, 'r, 'u) PrFn"
  assumes memo: "memo_ok K (\<lambda>c. length (T c)) tm"
    and node: "\<And>alts c r. alts \<in> set kids \<Longrightarrow> c \<in> set alts \<Longrightarrow> unat r < length (T c) \<Longrightarrow> unranks prfn tm (UnrankNode c r) [T c ! unat r]"
    and cnt: "\<forall>alts\<in>set kids. \<forall>c\<in>set alts. FCounted (tree_nodes tm c)"
    and fit: "\<forall>alts\<in>set kids. length (concat (map T alts)) < ull_bound"
  shows "unat r < length (combos (map (\<lambda>alts. concat (map T alts)) kids)) \<Longrightarrow>
    unranks prfn tm (UnrankKids kids r) (combos (map (\<lambda>alts. concat (map T alts)) kids) ! unat r)"
  using node cnt fit
proof (induction kids arbitrary: r)
  case Nil
  have "unrank_run prfn (UnrankKids [] r) u tm = Some (Some ([], u), tm)" for u by (subst unrank_run.simps) simp
  then show ?case using Nil by (simp add: unranks_def)
next
  case (Cons alts rest)
  let ?xs = "concat (map T alts)" and ?xss = "map (\<lambda>alts. concat (map T alts)) rest"
  have lt: "unat r < length ?xs * length (combos ?xss)" using Cons.prems(1) by (simp add: length_concat_const)
  then have pos: "0 < length ?xs" by (cases "length ?xs") auto
  have "unat (0 :: ullong) + alt_sum (\<lambda>c. length (T c)) alts < ull_bound"
    using Cons.prems(4) by (simp add: length_concat_sum)
  then obtain w where w: "count_run (CountAlts alts 0) tm = Some (Some w, tm)" "unat w = length ?xs"
    using count_alts_counted [OF memo, of alts 0] Cons.prems(3) by (auto simp: length_concat_sum)
  have m: "unat (r mod w) = unat r mod length ?xs" and q: "unat (r div w) = unat r div length ?xs"
    using w(2) by (simp_all add: unat_mod_distrib unat_div_distrib)
  have alt: "unranks prfn tm (UnrankAlts alts None (r mod w)) [?xs ! unat (r mod w)]"
    by (rule unranks_alts [OF memo]) (use Cons.prems pos m in auto)
  have "unat r div length ?xs < length (combos ?xss)" using lt pos by (simp add: less_mult_imp_div_less mult.commute)
  then have kids: "unranks prfn tm (UnrankKids rest (r div w)) (combos ?xss ! unat (r div w))"
    by (intro Cons.IH) (use Cons.prems q in auto)
  have nth: "combos (map (\<lambda>alts. concat (map T alts)) (alts # rest)) ! unat r = ?xs ! unat (r mod w) # combos ?xss ! unat (r div w)"
    using nth_combos [of "unat r" ?xs ?xss] Cons.prems(1) m q by simp
  have "unrank_run prfn (UnrankKids (alts # rest) r) u tm
      = Some (Some (rehydrate_list prfn (?xs ! unat (r mod w) # combos ?xss ! unat (r div w)) u), tm)" for u
    using w(1) alt kids by (subst unrank_run.simps) (simp add: unranks_def split: prod.split)
  then show ?case unfolding nth by (simp add: unranks_def)
qed

lemma prod_list_factor:
  assumes "x \<in> set xs" "0 < prod_list xs"
  shows "x \<le> prod_list (xs :: nat list)"
  using assms by (intro dvd_imp_le prod_list_dvd)

lemma unranks_node:
  fixes tm :: "'a CTreeMap" and prfn :: "('a, 'r, 'u) PrFn"
  assumes rk: "ranked K h" and un: "unrankable V K (\<lambda>c. length (trees_of V K h c)) tm"
  shows "FCounted (tree_nodes tm n) \<Longrightarrow> m_ul (tree_nodes tm n) \<noteq> 0 \<Longrightarrow> unat r < length (trees_of V K h n) \<Longrightarrow>
    unranks prfn tm (UnrankNode n r) [trees_of V K h n ! unat r]"
proof (induction "h n" arbitrary: n r rule: less_induct)
  case less
  let ?T = "trees_of V K h" and ?xss = "map (\<lambda>alts. concat (map (trees_of V K h) alts)) (K n)"
  have memo: "memo_ok K (\<lambda>c. length (?T c)) tm" using un by (simp add: unrankable_def)
  have len: "length (?T n) = length (combos ?xss)" unfolding trees_of_unfold [OF rk, of V n] by simp
  have cnt: "unat (m_ullCount (tree_nodes tm n)) = length (?T n)" using memo less.prems(1) by (simp add: memo_ok_def)
  have below: "\<forall>alts\<in>set (K n). \<forall>c\<in>set alts. FCounted (tree_nodes tm c)"
    using memo less.prems(1,3) unfolding memo_ok_def by (metis gr_zeroI not_less_zero)
  have "0 < prod_list (map length ?xss)" using less.prems(3) len by (simp add: length_combos)
  then have fit: "length (concat (map ?T alts)) < ull_bound" if "alts \<in> set (K n)" for alts
    using prod_list_factor [of "length (concat (map ?T alts))" "map length ?xss"] that len cnt
      unat_below_bound [of "m_ullCount (tree_nodes tm n)"] by (simp add: length_combos)
  have kids: "unranks prfn tm (UnrankKids (K n) r) (combos ?xss ! unat r)"
  proof (rule unranks_kids [OF memo])
    show "unranks prfn tm (UnrankNode c x) [?T c ! unat x]" if "alts \<in> set (K n)" "c \<in> set alts" "unat x < length (?T c)" for alts c x
      by (rule less.hyps) (use that rk below un in \<open>auto simp: ranked_def unrankable_def\<close>)
  qed (use below fit less.prems(3) len in auto)
  have "?T n ! unat r = Plan (V n) (combos ?xss ! unat r)"
    unfolding trees_of_unfold [OF rk, of V n] using less.prems(3) len by (subst nth_map) auto
  moreover have "m_pdrgdrgptn (tree_nodes tm n) = K n" "the (m_value (tree_nodes tm n)) = V n"
    using memo un by (auto simp: memo_ok_def unrankable_def)
  ultimately show ?case using kids less.prems(2) unfolding unranks_def
    by (subst unrank_run.simps) (simp split: prod.split)
qed

subsection \<open>The trees as a set\<close>

lemma mem_trees:
  assumes "ranked K h"
  shows "t \<in> set (trees_of V K h n) \<longleftrightarrow> plan_value t = V n
    \<and> list_all2 (\<lambda>s alts. \<exists>c\<in>set alts. s \<in> set (trees_of V K h c)) (plan_kids t) (K n)"
  unfolding trees_of_unfold [OF assms, of V n] set_map set_combos
  by (cases t) (auto simp: list_all2_map2 image_iff)

lemma tree_value: "ranked K h \<Longrightarrow> t \<in> set (trees_of V K h n) \<Longrightarrow> plan_value t = V n"
  using mem_trees by blast

lemma distinct_alts:
  assumes "distinct alts" "inj_on V (set alts)" "\<And>c. c \<in> set alts \<Longrightarrow> distinct (trees_of V K h c)" and rk: "ranked K h"
  shows "distinct (concat (map (trees_of V K h) alts))"
proof (rule distinct_concat_map [OF assms(1,3)])
  show "a = b" if "a \<in> set alts" "b \<in> set alts" "x \<in> set (trees_of V K h a)" "x \<in> set (trees_of V K h b)" for a b x
    using inj_onD [OF assms(2) _ that(1,2)] tree_value [OF rk that(3)] tree_value [OF rk that(4)] by simp
qed

lemma distinct_trees:
  assumes rk: "ranked K h" and N: "\<And>n alts. n \<in> N \<Longrightarrow> alts \<in> set (K n) \<Longrightarrow> distinct alts \<and> set alts \<subseteq> N" and inj: "inj_on V N"
  shows "n \<in> N \<Longrightarrow> distinct (trees_of V K h n)"
proof (induction "h n" arbitrary: n rule: less_induct)
  case less
  have "distinct (concat (map (trees_of V K h) alts))" if "alts \<in> set (K n)" for alts
  proof (rule distinct_alts [OF _ _ _ rk])
    show "distinct (trees_of V K h c)" if "c \<in> set alts" for c
      using less.hyps [of c] rk N [OF less.prems \<open>alts \<in> set (K n)\<close>] that \<open>alts \<in> set (K n)\<close> by (auto simp: ranked_def)
  qed (use N [OF less.prems that] inj in \<open>auto intro: inj_on_subset\<close>)
  then have "distinct (combos (map (\<lambda>alts. concat (map (trees_of V K h) alts)) (K n)))"
    by (intro distinct_combos) auto
  then show ?case unfolding trees_of_unfold [OF rk, of V n] by (simp add: distinct_map inj_on_def)
qed

end
