(* ===== verification/TreeMapPlans.thy ===== *)
theory TreeMapPlans
  imports TreeMapCorrect
begin

text \<open>
  From the calls of \<^verbatim>\<open>Insert\<close> and \<^verbatim>\<open>InsertRoot\<close> to the counted and unranked trees: the graph that \<^verbatim>\<open>CTreeMap\<close>
  builds has exactly the inserted links, each once, and its trees are the plans over these links.
\<close>

subsection \<open>Specification\<close>

text \<open>
  The links as a set: \<open>(p, i, c)\<close> makes \<open>c\<close> an alternative for the \<open>i\<close>-th child of \<open>p\<close>.  A plan has at every
  element as many children as the largest linked position demands, each chosen from its alternatives.
\<close>

definition arity :: "('a \<times> nat \<times> 'a) set \<Rightarrow> 'a \<Rightarrow> nat" where
  "arity E v = Max (insert 0 (Suc ` {i. \<exists>c. (v, i, c) \<in> E}))"

fun plan_in :: "('a \<times> nat \<times> 'a) set \<Rightarrow> 'a plan_tree \<Rightarrow> bool" where
  "plan_in E (Plan v ts) \<longleftrightarrow> length ts = arity E v \<and> (\<forall>i<length ts. (v, i, plan_value (ts ! i)) \<in> E) \<and> (\<forall>t\<in>set ts. plan_in E t)"

definition targets :: "('a \<times> nat \<times> 'a) set \<Rightarrow> 'a set" where
  "targets E = {c. \<exists>p i. (p, i, c) \<in> E}"

lemma finite_positions: "finite E \<Longrightarrow> finite {i. \<exists>c. (v, i, c) \<in> E}"
  by (rule finite_subset [of _ "(\<lambda>(_, i, _). i) ` E"]) force+

lemma arity_less: "finite E \<Longrightarrow> (v, i, c) \<in> E \<Longrightarrow> i < arity E v"
proof -
  assume "finite E" "(v, i, c) \<in> E"
  then have "finite (insert 0 (Suc ` {i. \<exists>c. (v, i, c) \<in> E}))" "Suc i \<in> insert 0 (Suc ` {i. \<exists>c. (v, i, c) \<in> E})"
    using finite_positions [of E v] by auto
  from Max_ge [OF this] show ?thesis by (simp add: arity_def)
qed

lemma arity_insert:
  assumes "finite E"
  shows "arity (insert (p, i, c) E) v = (if v = p then max (arity E v) (Suc i) else arity E v)"
proof (cases "v = p")
  case True
  then have "{j. \<exists>d. (v, j, d) \<in> insert (p, i, c) E} = insert i {j. \<exists>d. (v, j, d) \<in> E}" by auto
  then have eq: "insert 0 (Suc ` {j. \<exists>d. (v, j, d) \<in> insert (p, i, c) E}) = insert (Suc i) (insert 0 (Suc ` {j. \<exists>d. (v, j, d) \<in> E}))"
    by auto
  have "finite (insert 0 (Suc ` {j. \<exists>d. (v, j, d) \<in> E}))" using finite_positions [OF assms] by simp
  then show ?thesis using True unfolding arity_def eq by (subst Max_insert) (auto simp: max.commute)
next
  case False
  then have "{j. \<exists>d. (v, j, d) \<in> insert (p, i, c) E} = {j. \<exists>d. (v, j, d) \<in> E}" by auto
  then show ?thesis using False by (simp add: arity_def)
qed

lemma arity_zero: "\<forall>i c. (v, i, c) \<notin> E \<Longrightarrow> arity E v = 0"
  by (simp add: arity_def)

subsection \<open>The graph that is built\<close>

definition node_of :: "('a \<Rightarrow> nat) \<Rightarrow> 'a CTreeMap \<Rightarrow> 'a \<Rightarrow> nat option" where
  "node_of HashFn tm v = Find_map HashFn (=) v (m_ptmap tm)"

definition names_ok :: "('a \<Rightarrow> nat) \<Rightarrow> 'a set \<Rightarrow> 'a CTreeMap \<Rightarrow> bool" where
  "names_ok HashFn X tm \<longleftrightarrow> map_ok HashFn (=) (m_ptmap tm) \<and> keys_ok (=) (m_ptmap tm) \<and> set (m_keys (m_ptmap tm)) = X
    \<and> (\<forall>v n. node_of HashFn tm v = Some n \<longrightarrow> 0 < n \<and> n \<le> m_ulCountNodes tm \<and> m_value (tree_nodes tm n) = Some v \<and> m_ul (tree_nodes tm n) = n)
    \<and> (\<forall>n. 0 < n \<longrightarrow> n \<le> m_ulCountNodes tm \<longrightarrow> (\<exists>v. node_of HashFn tm v = Some n))
    \<and> (\<forall>n. m_ulCountNodes tm < n \<longrightarrow> tree_nodes tm n = CTreeNode_new 0 None) \<and> m_ul (tree_nodes tm 0) = 0"

definition kids_ok :: "('a \<Rightarrow> nat) \<Rightarrow> ('a \<times> nat \<times> 'a) set \<Rightarrow> 'a CTreeMap \<Rightarrow> bool" where
  "kids_ok HashFn E tm \<longleftrightarrow> (\<forall>v n. node_of HashFn tm v = Some n \<longrightarrow> length (m_pdrgdrgptn (tree_nodes tm n)) = arity E v
    \<and> (\<forall>i<arity E v. distinct (m_pdrgdrgptn (tree_nodes tm n) ! i)
        \<and> (\<forall>c. c \<in> set (m_pdrgdrgptn (tree_nodes tm n) ! i) \<longleftrightarrow> (\<exists>w. (v, i, w) \<in> E \<and> node_of HashFn tm w = Some c))))"

definition roots_ok :: "('a \<Rightarrow> nat) \<Rightarrow> 'a list \<Rightarrow> 'a CTreeMap \<Rightarrow> bool" where
  "roots_ok HashFn R tm \<longleftrightarrow> m_pdrgdrgptn (tree_nodes tm 0) = (if R = [] then [] else [map (\<lambda>v. the (node_of HashFn tm v)) R])"

definition incoming_ok :: "('a \<Rightarrow> nat) \<Rightarrow> ('a \<times> nat \<times> 'a) set \<Rightarrow> 'a list \<Rightarrow> 'a CTreeMap \<Rightarrow> bool" where
  "incoming_ok HashFn E R tm \<longleftrightarrow> (\<forall>v n. node_of HashFn tm v = Some n \<longrightarrow>
    (m_ulIncoming (tree_nodes tm n) = 0 \<longleftrightarrow> v \<notin> targets E \<and> v \<notin> set R))"

definition tree_ok :: "('a \<Rightarrow> nat) \<Rightarrow> 'a set \<Rightarrow> ('a \<times> nat \<times> 'a) set \<Rightarrow> 'a list \<Rightarrow> 'a CTreeMap \<Rightarrow> bool" where
  "tree_ok HashFn X E R tm \<longleftrightarrow> names_ok HashFn X tm \<and> kids_ok HashFn E tm \<and> roots_ok HashFn R tm \<and> incoming_ok HashFn E R tm
    \<and> (\<forall>n. \<not> FCounted (tree_nodes tm n)) \<and> finite E \<and> (\<forall>(p, i, c)\<in>E. p \<in> X \<and> c \<in> X) \<and> set R \<subseteq> X"

lemma node_of_iff: "names_ok HashFn X tm \<Longrightarrow> node_of HashFn tm v \<noteq> None \<longleftrightarrow> v \<in> X"
proof -
  assume n: "names_ok HashFn X tm"
  then have ok: "map_ok HashFn (=) (m_ptmap tm)" and k: "keys_ok (=) (m_ptmap tm)" "set (m_keys (m_ptmap tm)) = X"
    by (auto simp: names_ok_def)
  show ?thesis using eq_keys.Find_None [OF ok, of v] k by (auto simp: node_of_def keys_ok_def)
qed

lemma node_ofD:
  assumes "names_ok HashFn X tm" "node_of HashFn tm v = Some n"
  shows "0 < n" "n \<le> m_ulCountNodes tm" "m_value (tree_nodes tm n) = Some v" "m_ul (tree_nodes tm n) = n"
  using assms by (simp_all add: names_ok_def)

lemma node_of_inj:
  assumes "names_ok HashFn X tm" "node_of HashFn tm v = Some n" "node_of HashFn tm w = Some n"
  shows "v = w"
proof -
  show ?thesis using node_ofD(3) [OF assms(1,2)] node_ofD(3) [OF assms(1,3)] by simp
qed

lemma node_of_eq:
  assumes "names_ok HashFn X tm" "node_of HashFn tm v = Some n" "node_of HashFn tm w = Some m"
  shows "n = m \<longleftrightarrow> v = w"
proof
  assume "n = m"
  then show "v = w" using node_of_inj [OF assms(1,2)] assms(3) by simp
next
  assume "v = w"
  then show "n = m" using assms(2,3) by simp
qed

lemma tree_ok_new: "tree_ok HashFn {} {} [] CTreeMap_new"
proof -
  have m: "map_ok HashFn (=) (CHashMap_new 127 :: ('a, nat) CHashMap)" "keys_ok (=) (CHashMap_new 127 :: ('a, nat) CHashMap)"
    using map_ok_new [of 127] by auto
  have none: "node_of HashFn CTreeMap_new v = None" for v
    by (simp add: node_of_def CTreeMap_new_def CHashMap_new_def Find_map_def Lookup_map_def GetChain_def chain_Find_def)
  have "names_ok HashFn {} CTreeMap_new" unfolding names_ok_def none
    using m by (simp add: CTreeMap_new_def) (simp add: CHashMap_new_def CTreeNode_new_def)
  moreover have "kids_ok HashFn {} CTreeMap_new" "incoming_ok HashFn {} [] CTreeMap_new"
    by (simp_all add: kids_ok_def incoming_ok_def none)
  moreover have "roots_ok HashFn [] CTreeMap_new" "\<forall>n. \<not> FCounted (tree_nodes CTreeMap_new n)"
    by (simp_all add: roots_ok_def CTreeMap_new_def CTreeNode_new_def FCounted_def)
  ultimately show ?thesis by (simp add: tree_ok_def)
qed

text \<open>\<^verbatim>\<open>Ptn\<close> creates the node of an element that has none.\<close>

definition fresh_node :: "('a \<Rightarrow> nat) \<Rightarrow> 'a \<Rightarrow> nat \<Rightarrow> 'a CTreeMap \<Rightarrow> 'a CTreeMap \<Rightarrow> bool" where
  "fresh_node HashFn v k tm tm' \<longleftrightarrow> k = m_ulCountNodes tm + 1 \<and> m_ulCountNodes tm' = k
    \<and> tree_nodes tm' = (tree_nodes tm)(k := CTreeNode_new k (Some v)) \<and> node_of HashFn tm v = None
    \<and> (\<forall>w. node_of HashFn tm' w = (if w = v then Some k else node_of HashFn tm w))"

lemma fresh_nodeD:
  assumes "fresh_node HashFn v k tm tm'"
  shows "k = m_ulCountNodes tm + 1" "m_ulCountNodes tm' = k" "tree_nodes tm' k = CTreeNode_new k (Some v)" "node_of HashFn tm v = None"
    "node_of HashFn tm' w = (if w = v then Some k else node_of HashFn tm w)" "m \<noteq> k \<Longrightarrow> tree_nodes tm' m = tree_nodes tm m"
  using assms by (simp_all add: fresh_node_def)

text \<open>A node of the extended map is the new one or a node of before.\<close>

lemma fresh_node_cases [consumes 3, case_names New Old]:
  assumes f: "fresh_node HashFn v k tm tm'" and names: "names_ok HashFn X tm" and w: "node_of HashFn tm' w = Some m"
  obtains "w = v" "m = k" | "w \<noteq> v" "node_of HashFn tm w = Some m" "m \<noteq> k" "tree_nodes tm' m = tree_nodes tm m"
proof (cases "w = v")
  case True
  then show ?thesis using that(1) w fresh_nodeD(5) [OF f, of w] by simp
next
  case False
  then have o: "node_of HashFn tm w = Some m" using w fresh_nodeD(5) [OF f, of w] by simp
  then have "m \<noteq> k" using node_ofD(2) [OF names o] fresh_nodeD(1) [OF f] by simp
  then show ?thesis using that(2) False o fresh_nodeD(6) [OF f, of m] by blast
qed

lemma Ptn_fresh:
  assumes names: "names_ok HashFn X tm" and none: "node_of HashFn tm v = None" and ptn: "Ptn HashFn v tm = (n, tm')"
  shows "fresh_node HashFn v n tm tm'" "map_ok HashFn (=) (m_ptmap tm')" "keys_ok (=) (m_ptmap tm')"
    "set (m_keys (m_ptmap tm')) = insert v X" "m_plinkmap tm' = m_plinkmap tm"
proof -
  have mo: "map_ok HashFn (=) (m_ptmap tm)" and ko: "keys_ok (=) (m_ptmap tm)" "set (m_keys (m_ptmap tm)) = X"
    using names by (auto simp: names_ok_def)
  have fnd: "Find_map HashFn (=) v (m_ptmap tm) = None" using none by (simp add: node_of_def)
  let ?n = "m_ulCountNodes tm + 1"
  have n: "n = ?n" and tm': "tm' = tm\<lparr>m_ulCountNodes := ?n, tree_nodes := (tree_nodes tm)(?n := CTreeNode_new ?n (Some v)),
      m_ptmap := InsertUnique HashFn v (Some ?n) (m_ptmap tm)\<rparr>"
    using ptn fnd by (auto simp: Ptn_def Let_def eq_keys.Insert_unique)
  note ins = eq_keys.InsertUnique_ok [OF mo fnd, of ?n]
  have "node_of HashFn tm' w = (if w = v then Some ?n else node_of HashFn tm w)" for w
    using eq_keys.Find_InsertUnique [OF mo fnd, of w ?n] by (auto simp: node_of_def tm')
  then show "fresh_node HashFn v n tm tm'" using none unfolding fresh_node_def n by (simp add: tm')
  show "map_ok HashFn (=) (m_ptmap tm')" "keys_ok (=) (m_ptmap tm')" "set (m_keys (m_ptmap tm')) = insert v X"
    using ins ko by (auto simp: tm')
  show "m_plinkmap tm' = m_plinkmap tm" by (simp add: tm')
qed

lemma fresh_names:
  assumes names: "names_ok HashFn X tm" and f: "fresh_node HashFn v k tm tm'"
    and m: "map_ok HashFn (=) (m_ptmap tm')" "keys_ok (=) (m_ptmap tm')" "set (m_keys (m_ptmap tm')) = insert v X"
  shows "names_ok HashFn (insert v X) tm'"
proof -
  have b: "0 < m \<and> m \<le> m_ulCountNodes tm' \<and> m_value (tree_nodes tm' m) = Some w \<and> m_ul (tree_nodes tm' m) = m"
    if "node_of HashFn tm' w = Some m" for w m
    using f names that
  proof (cases rule: fresh_node_cases)
    case New
    then show ?thesis using fresh_nodeD(1-3) [OF f] by (simp add: CTreeNode_new_def)
  next
    case Old
    then show ?thesis using node_ofD [OF names Old(2)] fresh_nodeD(1,2) [OF f] by simp
  qed
  have c: "\<exists>w. node_of HashFn tm' w = Some m" if m: "0 < m" "m \<le> m_ulCountNodes tm'" for m
  proof (cases "m = k")
    case True
    then show ?thesis using fresh_nodeD(5) [OF f, of v] by auto
  next
    case False
    then have "m \<le> m_ulCountNodes tm" using m fresh_nodeD(1,2) [OF f] by simp
    then obtain w where w: "node_of HashFn tm w = Some m" using names m(1) unfolding names_ok_def by blast
    then have "w \<noteq> v" using fresh_nodeD(4) [OF f] by auto
    then show ?thesis using w fresh_nodeD(5) [OF f, of w] by auto
  qed
  have d: "tree_nodes tm' m = CTreeNode_new 0 None" if "m_ulCountNodes tm' < m" for m
    using names fresh_nodeD(1,2) [OF f] fresh_nodeD(6) [OF f, of m] that by (simp add: names_ok_def)
  have "m_ul (tree_nodes tm' 0) = 0" using names fresh_nodeD(1) [OF f] fresh_nodeD(6) [OF f, of 0] by (simp add: names_ok_def)
  then show ?thesis using m b c d unfolding names_ok_def by simp
qed

lemma fresh_kids:
  assumes names: "names_ok HashFn X tm" and f: "fresh_node HashFn v k tm tm'" and kids: "kids_ok HashFn E tm"
    and E: "\<forall>(p, i, c)\<in>E. p \<in> X \<and> c \<in> X"
  shows "kids_ok HashFn E tm'"
proof -
  have vX: "v \<notin> X" using node_of_iff [OF names, of v] fresh_nodeD(4) [OF f] by simp
  have av: "arity E v = 0" using E vX by (intro arity_zero) auto
  have edge: "(u, i, w) \<in> E \<and> node_of HashFn tm' w = Some c \<longleftrightarrow> (u, i, w) \<in> E \<and> node_of HashFn tm w = Some c" for u i w c
    using E vX fresh_nodeD(5) [OF f, of w] by auto
  show ?thesis unfolding kids_ok_def edge
  proof (intro allI impI)
    fix w m assume w: "node_of HashFn tm' w = Some m"
    show "length (m_pdrgdrgptn (tree_nodes tm' m)) = arity E w
      \<and> (\<forall>i<arity E w. distinct (m_pdrgdrgptn (tree_nodes tm' m) ! i)
        \<and> (\<forall>c. c \<in> set (m_pdrgdrgptn (tree_nodes tm' m) ! i) \<longleftrightarrow> (\<exists>x. (w, i, x) \<in> E \<and> node_of HashFn tm x = Some c)))"
      using f names w
    proof (cases rule: fresh_node_cases)
      case New
      then show ?thesis using fresh_nodeD(3) [OF f] av by (simp add: CTreeNode_new_def)
    next
      case Old
      then show ?thesis using kids unfolding kids_ok_def Old(4) by blast
    qed
  qed
qed

lemma fresh_incoming:
  assumes names: "names_ok HashFn X tm" and f: "fresh_node HashFn v k tm tm'" and inc: "incoming_ok HashFn E R tm"
    and v: "v \<notin> targets E" "v \<notin> set R"
  shows "incoming_ok HashFn E R tm'"
  unfolding incoming_ok_def
proof (intro allI impI)
  fix w m assume w: "node_of HashFn tm' w = Some m"
  show "m_ulIncoming (tree_nodes tm' m) = 0 \<longleftrightarrow> w \<notin> targets E \<and> w \<notin> set R"
    using f names w
  proof (cases rule: fresh_node_cases)
    case New
    then show ?thesis using fresh_nodeD(3) [OF f] v by (simp add: CTreeNode_new_def)
  next
    case Old
    then show ?thesis using inc by (simp add: incoming_ok_def)
  qed
qed

lemma fresh_ok:
  assumes ok: "tree_ok HashFn X E R tm" and f: "fresh_node HashFn v k tm tm'" and names': "names_ok HashFn (insert v X) tm'"
  shows "tree_ok HashFn (insert v X) E R tm'"
proof -
  have names: "names_ok HashFn X tm" and E: "\<forall>(p, i, c)\<in>E. p \<in> X \<and> c \<in> X" "set R \<subseteq> X" "finite E"
    and parts: "kids_ok HashFn E tm" "incoming_ok HashFn E R tm" "roots_ok HashFn R tm" "\<forall>n. \<not> FCounted (tree_nodes tm n)"
    using ok by (auto simp: tree_ok_def)
  have vX: "v \<notin> X" using node_of_iff [OF names, of v] fresh_nodeD(4) [OF f] by simp
  then have v: "v \<notin> targets E" "v \<notin> set R" using E by (auto simp: targets_def)
  have "map (\<lambda>v. the (node_of HashFn tm' v)) R = map (\<lambda>v. the (node_of HashFn tm v)) R"
    using v(2) fresh_nodeD(5) [OF f] by (intro map_cong) auto
  then have "roots_ok HashFn R tm'"
    using parts(3) fresh_nodeD(1) [OF f] fresh_nodeD(6) [OF f, of 0] by (simp add: roots_ok_def)
  moreover have "\<not> FCounted (tree_nodes tm' m)" for m
    using parts(4) fresh_nodeD(3) [OF f] fresh_nodeD(6) [OF f, of m] by (cases "m = k") (auto simp: FCounted_def CTreeNode_new_def)
  ultimately show ?thesis
    using names' fresh_kids [OF names f parts(1) E(1)] fresh_incoming [OF names f parts(2) v] E unfolding tree_ok_def by auto
qed

lemma Ptn_ok:
  assumes ok: "tree_ok HashFn X E R tm" and ptn: "Ptn HashFn v tm = (n, tm')"
  shows "tree_ok HashFn (insert v X) E R tm'" "node_of HashFn tm' v = Some n"
    "\<And>w m. node_of HashFn tm w = Some m \<Longrightarrow> node_of HashFn tm' w = Some m" "m_plinkmap tm' = m_plinkmap tm"
proof -
  have names: "names_ok HashFn X tm" using ok by (simp add: tree_ok_def)
  have "tree_ok HashFn (insert v X) E R tm' \<and> node_of HashFn tm' v = Some n
    \<and> (\<forall>w m. node_of HashFn tm w = Some m \<longrightarrow> node_of HashFn tm' w = Some m) \<and> m_plinkmap tm' = m_plinkmap tm"
  proof (cases "node_of HashFn tm v")
    case (Some k)
    then have "n = k" "tm' = tm" using ptn by (auto simp: Ptn_def node_of_def)
    moreover have "v \<in> X" using node_of_iff [OF names, of v] Some by simp
    ultimately show ?thesis using ok Some by (simp add: insert_absorb)
  next
    case None
    note f = Ptn_fresh [OF names None ptn]
    show ?thesis using fresh_ok [OF ok f(1) fresh_names [OF names f(1-4)]] fresh_nodeD(4,5) [OF f(1)] f(5) by auto
  qed
  then show "tree_ok HashFn (insert v X) E R tm'" "node_of HashFn tm' v = Some n"
    "\<And>w m. node_of HashFn tm w = Some m \<Longrightarrow> node_of HashFn tm' w = Some m" "m_plinkmap tm' = m_plinkmap tm" by blast+
qed

text \<open>An added alternative.\<close>

definition add_alt :: "nat \<Rightarrow> nat \<Rightarrow> nat list list \<Rightarrow> nat list list" where
  "add_alt i c ks = (let ks = ks @ replicate (i + 1 - length ks) [] in ks[i := ks ! i @ [c]])"

lemma add_alt_nth:
  "length (add_alt i c ks) = max (length ks) (Suc i)"
  "j < max (length ks) (Suc i) \<Longrightarrow>
    add_alt i c ks ! j = (if j < length ks then ks ! j else []) @ (if j = i then [c] else [])"
  by (auto simp: add_alt_def Let_def nth_append nth_list_update)

lemma Add_node_fields [simp]:
  "m_ul (tree_nodes (Add_node t i c tm) m) = m_ul (tree_nodes tm m)"
  "m_value (tree_nodes (Add_node t i c tm) m) = m_value (tree_nodes tm m)"
  "m_ens (tree_nodes (Add_node t i c tm) m) = m_ens (tree_nodes tm m)"
  "m_ulIncoming (tree_nodes (Add_node t i c tm) m) = m_ulIncoming (tree_nodes tm m) + (if m = c then 1 else 0)"
  "m_pdrgdrgptn (tree_nodes (Add_node t i c tm) m) =
    (if m = t then add_alt i c (m_pdrgdrgptn (tree_nodes tm m)) else m_pdrgdrgptn (tree_nodes tm m))"
  "m_ptmap (Add_node t i c tm) = m_ptmap tm" "m_plinkmap (Add_node t i c tm) = m_plinkmap tm"
  "m_ulCountNodes (Add_node t i c tm) = m_ulCountNodes tm"
  by (auto simp: Add_node_def add_alt_def Let_def upd_node_def)

lemma node_of_Add [simp]: "node_of HashFn (Add_node t i c tm) v = node_of HashFn tm v"
  by (simp add: node_of_def)

lemma Add_node_other: "m \<noteq> t \<Longrightarrow> m \<noteq> c \<Longrightarrow> tree_nodes (Add_node t i c tm) m = tree_nodes tm m"
  by (simp add: Add_node_def Let_def upd_node_def)

lemma names_Add:
  assumes n: "names_ok HashFn X tm" and "t \<le> m_ulCountNodes tm" "c \<le> m_ulCountNodes tm"
  shows "names_ok HashFn X (Add_node t i c tm)"
proof -
  have "tree_nodes (Add_node t i c tm) m = CTreeNode_new 0 None" if "m_ulCountNodes tm < m" for m
    using Add_node_other [of m t c i tm] n assms(2,3) that by (simp add: names_ok_def)
  then show ?thesis using n unfolding names_ok_def by simp
qed

lemma Add_kids_ok:
  assumes names: "names_ok HashFn X tm" and kids: "kids_ok HashFn E tm" and fin: "finite E"
    and p: "node_of HashFn tm p = Some np" and c: "node_of HashFn tm c = Some nc" and new: "(p, i, c) \<notin> E"
  shows "kids_ok HashFn (insert (p, i, c) E) (Add_node np i nc tm)"
  unfolding kids_ok_def node_of_Add
proof (intro allI impI)
  fix v n assume v: "node_of HashFn tm v = Some n"
  let ?E = "insert (p, i, c) E" and ?ks = "m_pdrgdrgptn (tree_nodes tm n)"
  have old: "length ?ks = arity E v" "\<And>j. j < arity E v \<Longrightarrow> distinct (?ks ! j)"
    "\<And>j d. j < arity E v \<Longrightarrow> d \<in> set (?ks ! j) \<longleftrightarrow> (\<exists>w. (v, j, w) \<in> E \<and> node_of HashFn tm w = Some d)"
    using kids v by (auto simp: kids_ok_def)
  show "length (m_pdrgdrgptn (tree_nodes (Add_node np i nc tm) n)) = arity ?E v
    \<and> (\<forall>j<arity ?E v. distinct (m_pdrgdrgptn (tree_nodes (Add_node np i nc tm) n) ! j)
      \<and> (\<forall>d. d \<in> set (m_pdrgdrgptn (tree_nodes (Add_node np i nc tm) n) ! j) \<longleftrightarrow> (\<exists>w. (v, j, w) \<in> ?E \<and> node_of HashFn tm w = Some d)))"
  proof (cases "v = p")
    case False
    then have "n \<noteq> np" using node_of_inj [OF names v] p by auto
    then show ?thesis using old False by (simp add: arity_insert [OF fin])
  next
    case True
    then have n: "n = np" using v p by simp
    have ar: "arity ?E v = max (length ?ks) (Suc i)" using True old(1) by (simp add: arity_insert [OF fin])
    have mem: "d \<in> set (if j < length ?ks then ?ks ! j else []) \<longleftrightarrow> (\<exists>w. (v, j, w) \<in> E \<and> node_of HashFn tm w = Some d)" for j d
      using old(1) old(3) [of j d] arity_less [OF fin, of v j] by auto
    have nin: "nc \<notin> set (if i < length ?ks then ?ks ! i else [])"
      unfolding mem using new True node_of_inj [OF names c] by auto
    have "distinct (add_alt i nc ?ks ! j) \<and> (\<forall>d. d \<in> set (add_alt i nc ?ks ! j) \<longleftrightarrow> (\<exists>w. (v, j, w) \<in> ?E \<and> node_of HashFn tm w = Some d))"
      if j: "j < max (length ?ks) (Suc i)" for j
    proof
      show "distinct (add_alt i nc ?ks ! j)" unfolding add_alt_nth(2) [OF j] using old(1,2) nin by auto
      show "\<forall>d. d \<in> set (add_alt i nc ?ks ! j) \<longleftrightarrow> (\<exists>w. (v, j, w) \<in> ?E \<and> node_of HashFn tm w = Some d)"
        unfolding add_alt_nth(2) [OF j] set_append Un_iff mem using True c by auto
    qed
    then show ?thesis using n ar by (simp add: add_alt_nth(1))
  qed
qed

lemma Add_link_ok:
  assumes ok: "tree_ok HashFn X E R tm" and p: "node_of HashFn tm p = Some np" and c: "node_of HashFn tm c = Some nc"
    and new: "(p, i, c) \<notin> E"
  shows "tree_ok HashFn X (insert (p, i, c) E) R (Add_node np i nc tm)"
proof -
  let ?t = "Add_node np i nc tm" and ?E = "insert (p, i, c) E"
  have names: "names_ok HashFn X tm" and kids: "kids_ok HashFn E tm" and roots: "roots_ok HashFn R tm"
    and inc: "incoming_ok HashFn E R tm" and fin: "finite E" and EX: "\<forall>(p, i, c)\<in>E. p \<in> X \<and> c \<in> X"
    using ok by (simp_all add: tree_ok_def)
  note np = node_ofD [OF names p] and nc = node_ofD [OF names c]
  have pX: "p \<in> X" "c \<in> X" using node_of_iff [OF names, of p] node_of_iff [OF names, of c] p c by auto
  have "kids_ok HashFn ?E ?t" by (rule Add_kids_ok [OF names kids fin p c new])
  moreover have "roots_ok HashFn R ?t" using roots np(1) by (simp add: roots_ok_def)
  moreover have "incoming_ok HashFn ?E R ?t" unfolding incoming_ok_def node_of_Add
  proof (intro allI impI)
    fix v n assume v: "node_of HashFn tm v = Some n"
    have "targets ?E = insert c (targets E)" by (auto simp: targets_def)
    then show "m_ulIncoming (tree_nodes ?t n) = 0 \<longleftrightarrow> v \<notin> targets ?E \<and> v \<notin> set R"
      using inc v node_of_eq [OF names v c] by (simp add: incoming_ok_def)
  qed
  moreover have "names_ok HashFn X ?t" by (rule names_Add [OF names np(2) nc(2)])
  ultimately show ?thesis using ok pX by (auto simp: tree_ok_def FCounted_def)
qed

lemma Add_root_ok:
  assumes ok: "tree_ok HashFn X E R tm" and v: "node_of HashFn tm v = Some n"
  shows "tree_ok HashFn X E (R @ [v]) (Add_node 0 0 n tm)"
proof -
  let ?t = "Add_node 0 0 n tm"
  have names: "names_ok HashFn X tm" and kids: "kids_ok HashFn E tm" and roots: "roots_ok HashFn R tm"
    and inc: "incoming_ok HashFn E R tm" using ok by (simp_all add: tree_ok_def)
  note n = node_ofD [OF names v]
  have vX: "v \<in> X" using node_of_iff [OF names, of v] v by auto
  have ne: "node_of HashFn tm w \<noteq> Some 0" for w using node_ofD(1) [OF names, of w 0] by auto
  have "kids_ok HashFn E ?t" using kids ne unfolding kids_ok_def node_of_Add by simp
  moreover have "roots_ok HashFn (R @ [v]) ?t"
    using roots v by (auto simp: roots_ok_def add_alt_def Let_def)
  moreover have "incoming_ok HashFn E (R @ [v]) ?t" unfolding incoming_ok_def node_of_Add
  proof (intro allI impI)
    fix w m assume w: "node_of HashFn tm w = Some m"
    show "m_ulIncoming (tree_nodes ?t m) = 0 \<longleftrightarrow> w \<notin> targets E \<and> w \<notin> set (R @ [v])"
      using inc w node_of_eq [OF names w v] by (auto simp: incoming_ok_def)
  qed
  moreover have "names_ok HashFn X ?t" by (rule names_Add [OF names _ n(2)]) simp
  ultimately show ?thesis using ok vX by (auto simp: tree_ok_def FCounted_def)
qed

subsection \<open>Sequences of insertions\<close>

definition links_ok :: "('a \<Rightarrow> nat) \<Rightarrow> ('a \<times> nat \<times> 'a) set \<Rightarrow> 'a CTreeMap \<Rightarrow> bool" where
  "links_ok HashFn E tm \<longleftrightarrow> map_ok (STreeLink_HashValue HashFn) (=) (m_plinkmap tm)
    \<and> (\<forall>l. Find_map (STreeLink_HashValue HashFn) (=) l (m_plinkmap tm) \<noteq> None \<longleftrightarrow> l \<in> E)"

lemma tree_ok_link_fields: "tree_ok HashFn X E R (tm\<lparr>m_ulCountLinks := a, m_plinkmap := b\<rparr>) = tree_ok HashFn X E R tm"
  by (simp add: tree_ok_def names_ok_def kids_ok_def roots_ok_def incoming_ok_def node_of_def)

lemma Insert_link_ok:
  assumes ok: "tree_ok HashFn X E R tm" and links: "links_ok HashFn E tm"
  shows "tree_ok HashFn (insert p (insert c X)) (insert (p, i, c) E) R (Insert_link HashFn p i c tm)"
    "links_ok HashFn (insert (p, i, c) E) (Insert_link HashFn p i c tm)"
proof -
  let ?h = "STreeLink_HashValue HashFn" and ?l = "(p, i, c)"
  have "tree_ok HashFn (insert p (insert c X)) (insert ?l E) R (Insert_link HashFn p i c tm)
    \<and> links_ok HashFn (insert ?l E) (Insert_link HashFn p i c tm)"
  proof (cases "?l \<in> E")
    case True
    then have "Insert_link HashFn p i c tm = tm" using links by (simp add: Insert_link_def links_ok_def)
    moreover have "p \<in> X" "c \<in> X" using ok True by (auto simp: tree_ok_def)
    ultimately show ?thesis using ok links True by (simp add: insert_absorb)
  next
    case False
    obtain np t1 where p: "Ptn HashFn p tm = (np, t1)" by force
    obtain nc t2 where c: "Ptn HashFn c t1 = (nc, t2)" by force
    note s1 = Ptn_ok [OF ok p]
    note s2 = Ptn_ok [OF s1(1) c]
    have none: "Find_map ?h (=) ?l (m_plinkmap t2) = None" using links False s1(4) s2(4) unfolding links_ok_def by metis
    have lm: "map_ok ?h (=) (m_plinkmap t2)" using links s1(4) s2(4) by (simp add: links_ok_def)
    have step: "Insert_link HashFn p i c tm = (Add_node np i nc t2)\<lparr>m_ulCountLinks := m_ulCountLinks (Add_node np i nc t2) + 1,
        m_plinkmap := InsertUnique ?h ?l (Some True) (m_plinkmap t2)\<rparr>"
      using none s1(4) s2(4) by (simp add: Insert_link_def Let_def p c eq_keys.Insert_unique)
    have "tree_ok HashFn (insert c (insert p X)) (insert ?l E) R (Add_node np i nc t2)"
      by (rule Add_link_ok [OF s2(1) s2(3) [OF s1(2)] s2(2) False])
    moreover have "links_ok HashFn (insert ?l E) (Insert_link HashFn p i c tm)"
      using eq_keys.InsertUnique_ok(1) [OF lm none, of True] eq_keys.Find_InsertUnique [OF lm none, of _ True] links s1(4) s2(4)
      by (auto simp: step links_ok_def)
    ultimately show ?thesis unfolding step tree_ok_link_fields by (simp add: insert_commute)
  qed
  then show "tree_ok HashFn (insert p (insert c X)) (insert ?l E) R (Insert_link HashFn p i c tm)"
    "links_ok HashFn (insert ?l E) (Insert_link HashFn p i c tm)" by blast+
qed

lemma InsertRoot_ok:
  assumes "tree_ok HashFn X E R tm" "links_ok HashFn E tm"
  shows "tree_ok HashFn (insert v X) E (R @ [v]) (InsertRoot HashFn v tm)" "links_ok HashFn E (InsertRoot HashFn v tm)"
proof -
  obtain n t where p: "Ptn HashFn v tm = (n, t)" by force
  note s = Ptn_ok [OF assms(1) p]
  show "tree_ok HashFn (insert v X) E (R @ [v]) (InsertRoot HashFn v tm)"
    using Add_root_ok [OF s(1,2)] by (simp add: InsertRoot_def p)
  show "links_ok HashFn E (InsertRoot HashFn v tm)" using assms(2) s(4) by (simp add: InsertRoot_def p links_ok_def)
qed

text \<open>The calls of a client, in their order.\<close>

datatype 'a tree_op = LinkOp 'a nat 'a | RootOp 'a

fun run_tree_op :: "('a \<Rightarrow> nat) \<Rightarrow> 'a tree_op \<Rightarrow> 'a CTreeMap \<Rightarrow> 'a CTreeMap" where
  "run_tree_op HashFn (LinkOp p i c) tm = Insert_link HashFn p i c tm"
| "run_tree_op HashFn (RootOp v) tm = InsertRoot HashFn v tm"

definition build_map :: "('a \<Rightarrow> nat) \<Rightarrow> 'a tree_op list \<Rightarrow> 'a CTreeMap" where
  "build_map HashFn ops = fold (run_tree_op HashFn) ops CTreeMap_new"

definition links_of :: "'a tree_op list \<Rightarrow> ('a \<times> nat \<times> 'a) set" where
  "links_of ops = {(p, i, c). LinkOp p i c \<in> set ops}"

fun root_list :: "'a tree_op list \<Rightarrow> 'a list" where
  "root_list [] = []"
| "root_list (LinkOp _ _ _ # ops) = root_list ops"
| "root_list (RootOp v # ops) = v # root_list ops"

definition elements :: "'a tree_op list \<Rightarrow> 'a set" where
  "elements ops = {v. RootOp v \<in> set ops \<or> (\<exists>i c. LinkOp v i c \<in> set ops \<or> LinkOp c i v \<in> set ops)}"

lemma root_list_append [simp]: "root_list (xs @ ys) = root_list xs @ root_list ys"
  by (induction xs rule: root_list.induct) auto

lemma build_map_ok:
  "tree_ok HashFn (elements ops) (links_of ops) (root_list ops) (build_map HashFn ops) \<and> links_ok HashFn (links_of ops) (build_map HashFn ops)"
proof (induction ops rule: rev_induct)
  case Nil
  have "Find_map (STreeLink_HashValue HashFn) (=) l (m_plinkmap (CTreeMap_new :: 'a CTreeMap)) = None" for l
    by (simp add: CTreeMap_new_def CHashMap_new_def Find_map_def Lookup_map_def GetChain_def chain_Find_def)
  moreover have "map_ok (STreeLink_HashValue HashFn) (=) (m_plinkmap (CTreeMap_new :: 'a CTreeMap))"
    unfolding CTreeMap_new_def CTreeMap.simps by (rule map_ok_new [THEN conjunct1]) simp
  ultimately have "links_ok HashFn {} CTreeMap_new" by (simp add: links_ok_def)
  moreover have "links_of ([] :: 'a tree_op list) = {}" by (auto simp: links_of_def)
  ultimately show ?case using tree_ok_new by (simp add: build_map_def elements_def)
next
  case (snoc op ops)
  then have ok: "tree_ok HashFn (elements ops) (links_of ops) (root_list ops) (build_map HashFn ops)"
    "links_ok HashFn (links_of ops) (build_map HashFn ops)" by auto
  have step: "build_map HashFn (ops @ [op]) = run_tree_op HashFn op (build_map HashFn ops)" for op by (simp add: build_map_def)
  show ?case
  proof (cases op)
    case (LinkOp p i c)
    then have "elements (ops @ [op]) = insert p (insert c (elements ops))" "links_of (ops @ [op]) = insert (p, i, c) (links_of ops)"
      by (auto simp: elements_def links_of_def)
    then show ?thesis using Insert_link_ok [OF ok, where p = p and c = c and i = i] by (simp add: step LinkOp)
  next
    case (RootOp v)
    then have "elements (ops @ [op]) = insert v (elements ops)" "links_of (ops @ [op]) = links_of ops"
      by (auto simp: elements_def links_of_def)
    then show ?thesis using InsertRoot_ok [OF ok, of v] by (simp add: step RootOp)
  qed
qed

text \<open>Hooking up the nodes without incoming edges.\<close>

lemma hook_fold:
  "tree_ok HashFn X E R tm \<Longrightarrow> distinct ks \<Longrightarrow> set ks \<subseteq> X \<Longrightarrow>
    tree_ok HashFn X E (R @ filter (\<lambda>v. v \<notin> targets E \<and> v \<notin> set R) ks)
      (fold (\<lambda>(_, ptn) tm. if 0 = m_ulIncoming (tree_nodes tm (the ptn)) then Add_node 0 0 (the ptn) tm else tm)
        (map (\<lambda>k. (Some k, node_of HashFn tm k)) ks) tm)"
proof (induction ks arbitrary: R tm)
  case (Cons k ks)
  have names: "names_ok HashFn X tm" and inc: "incoming_ok HashFn E R tm" using Cons.prems by (auto simp: tree_ok_def)
  have incD: "m_ulIncoming (tree_nodes tm n) = 0 \<longleftrightarrow> k \<notin> targets E \<and> k \<notin> set R" if "node_of HashFn tm k = Some n" for n
    using inc that unfolding incoming_ok_def by (elim allE [of _ k] allE [of _ n]) (erule mp)
  obtain n where n: "node_of HashFn tm k = Some n" using node_of_iff [OF names, of k] Cons.prems(3) by auto
  show ?case
  proof (cases "m_ulIncoming (tree_nodes tm n) = 0")
    case True
    then have k: "k \<notin> targets E" "k \<notin> set R" using True incD [OF n] by simp_all
    have "filter (\<lambda>v. v \<notin> targets E \<and> v \<notin> set (R @ [k])) ks = filter (\<lambda>v. v \<notin> targets E \<and> v \<notin> set R) ks"
      using Cons.prems(2) by (intro filter_cong) auto
    then show ?thesis using Cons.IH [OF Add_root_ok [OF Cons.prems(1) n]] Cons.prems(2,3) True n k by simp
  next
    case False
    then have "\<not> (k \<notin> targets E \<and> k \<notin> set R)" using incD [OF n] by simp
    then show ?thesis using Cons.IH [OF Cons.prems(1)] Cons.prems(2,3) False n by (cases "k \<in> targets E") simp_all
  qed
qed simp

lemma hook_roots_ok:
  assumes ok: "tree_ok HashFn X E R tm"
  shows "tree_ok HashFn X E (R @ filter (\<lambda>v. v \<notin> targets E \<and> v \<notin> set R) (m_keys (m_ptmap tm))) (hook_roots HashFn tm)"
    "length (iterate_map HashFn (=) (m_ptmap tm) 0) = 0 \<longleftrightarrow> X = {}"
proof -
  have mo: "map_ok HashFn (=) (m_ptmap tm)" "keys_ok (=) (m_ptmap tm)" and X: "set (m_keys (m_ptmap tm)) = X"
    using ok by (auto simp: tree_ok_def names_ok_def)
  have it: "iterate_map HashFn (=) (m_ptmap tm) 0 = map (\<lambda>k. (Some k, node_of HashFn tm k)) (m_keys (m_ptmap tm))"
    unfolding node_of_def by (rule eq_keys.iterate_entries [OF mo])
  show "tree_ok HashFn X E (R @ filter (\<lambda>v. v \<notin> targets E \<and> v \<notin> set R) (m_keys (m_ptmap tm))) (hook_roots HashFn tm)"
    unfolding hook_roots_def it by (rule hook_fold [OF ok]) (use eq_keys.distinct_keys [OF mo(2)] X in auto)
  show "length (iterate_map HashFn (=) (m_ptmap tm) 0) = 0 \<longleftrightarrow> X = {}" unfolding it using X by auto
qed

end
