(* ===== verification/TreeMapCount.thy ===== *)
theory TreeMapCount
  imports TreeMapPlans
begin

text \<open>
  The trees below the global root of a \<^verbatim>\<open>CTreeMap\<close> are the plans over the inserted links: \<^verbatim>\<open>UllCount\<close> returns
  their number or detects an overflow, and \<^verbatim>\<open>PrUnrank\<close> maps the ranks below the count onto them one to one.
\<close>

subsection \<open>A rank that decreases along the links\<close>

definition depends :: "('a \<times> nat \<times> 'a) set \<Rightarrow> ('a \<times> 'a) set" where
  "depends E = {(c, p). \<exists>i. (p, i, c) \<in> E}"

lemma finite_depends: "finite E \<Longrightarrow> finite (depends E)"
  by (rule finite_subset [of _ "(\<lambda>(p, _, c). (c, p)) ` E"]) (force simp: depends_def)+

lemma rank_exists:
  assumes fin: "finite E" and ac: "acyclic (depends E)"
  shows "\<exists>hv :: 'a \<Rightarrow> nat. \<forall>p i c. (p, i, c) \<in> E \<longrightarrow> hv c < hv p"
proof (intro exI [of _ "\<lambda>v. card {w. (w, v) \<in> (depends E)\<^sup>+}"] allI impI psubset_card_mono)
  fix p i c assume "(p, i, c) \<in> E"
  then have e: "(c, p) \<in> depends E" by (auto simp: depends_def)
  have "{w. (w, p) \<in> (depends E)\<^sup>+} \<subseteq> fst ` ((depends E)\<^sup>+)" by force
  then show "finite {w. (w, p) \<in> (depends E)\<^sup>+}" using finite_depends [OF fin] by (auto intro: finite_subset)
  have "c \<notin> {w. (w, c) \<in> (depends E)\<^sup>+}" using ac by (auto simp: acyclic_def)
  then show "{w. (w, c) \<in> (depends E)\<^sup>+} \<subset> {w. (w, p) \<in> (depends E)\<^sup>+}" using e by (auto intro: trancl_into_trancl)
qed

text \<open>Some element is no target.\<close>

lemma source_exists:
  assumes "finite E" "acyclic (depends E)" "X \<noteq> {}" "\<forall>(p, i, c)\<in>E. p \<in> X \<and> c \<in> X"
  shows "\<exists>v\<in>X. v \<notin> targets E"
proof -
  have "wf ((depends E)\<inverse>)" using finite_depends assms by (intro finite_acyclic_wf_converse) auto
  then obtain v where v: "v \<in> X" "\<And>y. (y, v) \<in> (depends E)\<inverse> \<Longrightarrow> y \<notin> X" using assms(3) by (metis all_not_in_conv wf_eq_minimal)
  then have "v \<notin> targets E" using assms(4) by (fastforce simp: targets_def depends_def)
  then show ?thesis using v(1) by blast
qed

subsection \<open>The trees of the nodes\<close>

definition node_kids :: "'a CTreeMap \<Rightarrow> nat \<Rightarrow> nat list list" where
  "node_kids tm n = m_pdrgdrgptn (tree_nodes tm n)"

definition node_value :: "'a CTreeMap \<Rightarrow> nat \<Rightarrow> 'a" where
  "node_value tm n = the (m_value (tree_nodes tm n))"

definition node_rank :: "('a \<Rightarrow> nat) \<Rightarrow> 'a set \<Rightarrow> 'a CTreeMap \<Rightarrow> nat \<Rightarrow> nat" where
  "node_rank hv X tm n = (if n = 0 then Suc (Max (insert 0 (hv ` X))) else hv (node_value tm n))"

definition node_trees :: "('a \<Rightarrow> nat) \<Rightarrow> 'a set \<Rightarrow> 'a CTreeMap \<Rightarrow> nat \<Rightarrow> 'a plan_tree list" where
  "node_trees hv X tm = trees_of (node_value tm) (node_kids tm) (node_rank hv X tm)"

definition links_rank :: "('a \<Rightarrow> nat) \<Rightarrow> ('a \<times> nat \<times> 'a) set \<Rightarrow> bool" where
  "links_rank hv E \<longleftrightarrow> (\<forall>p i c. (p, i, c) \<in> E \<longrightarrow> hv c < hv p)"

lemma node_cases [consumes 1, case_names Root Elem Free]:
  assumes "names_ok HashFn X tm"
  obtains "n = 0" | v where "node_of HashFn tm v = Some n" "n \<noteq> 0" "node_value tm n = v" "v \<in> X" | "n \<noteq> 0" "node_kids tm n = []"
proof (cases "n = 0 \<or> m_ulCountNodes tm < n")
  case True
  then show ?thesis using that(1,3) assms by (auto simp: names_ok_def node_kids_def CTreeNode_new_def)
next
  case False
  then have "0 < n" "n \<le> m_ulCountNodes tm" by auto
  then obtain v where v: "node_of HashFn tm v = Some n" using assms unfolding names_ok_def by blast
  then have "v \<in> X" using node_of_iff [OF assms, of v] by simp
  then show ?thesis using that(2) v node_ofD [OF assms v] by (simp add: node_value_def)
qed

text \<open>The alternatives of an element and those of the global root.\<close>

lemma alt_iff:
  assumes ok: "tree_ok HashFn X E R tm" and n: "node_of HashFn tm v = Some n"
  shows "length (node_kids tm n) = arity E v"
    "i < arity E v \<Longrightarrow> distinct (node_kids tm n ! i)"
    "i < arity E v \<Longrightarrow> c \<in> set (node_kids tm n ! i) \<longleftrightarrow> (\<exists>w. (v, i, w) \<in> E \<and> node_of HashFn tm w = Some c)"
  using ok n by (auto simp: tree_ok_def kids_ok_def node_kids_def)

lemma root_alts:
  assumes ok: "tree_ok HashFn X E R tm"
  shows "alts \<in> set (node_kids tm 0) \<longleftrightarrow> R \<noteq> [] \<and> alts = map (\<lambda>v. the (node_of HashFn tm v)) R"
    "R \<noteq> [] \<Longrightarrow> node_kids tm 0 = [map (\<lambda>v. the (node_of HashFn tm v)) R]"
    "v \<in> set R \<Longrightarrow> \<exists>c. node_of HashFn tm v = Some c"
proof -
  show "alts \<in> set (node_kids tm 0) \<longleftrightarrow> R \<noteq> [] \<and> alts = map (\<lambda>v. the (node_of HashFn tm v)) R"
    "R \<noteq> [] \<Longrightarrow> node_kids tm 0 = [map (\<lambda>v. the (node_of HashFn tm v)) R]"
    using ok by (auto simp: tree_ok_def roots_ok_def node_kids_def)
  show "\<exists>c. node_of HashFn tm v = Some c" if "v \<in> set R"
    using node_of_iff [of HashFn X tm v] ok that by (auto simp: tree_ok_def)
qed

lemma alts_elements:
  assumes ok: "tree_ok HashFn X E R tm" and a: "alts \<in> set (node_kids tm n)" "c \<in> set alts"
  shows "\<exists>w\<in>X. node_of HashFn tm w = Some c \<and> node_value tm c = w \<and> c \<noteq> 0
    \<and> (n \<noteq> 0 \<longrightarrow> (\<exists>i. (node_value tm n, i, w) \<in> E))"
proof -
  have names: "names_ok HashFn X tm" and RX: "set R \<subseteq> X" using ok by (auto simp: tree_ok_def)
  have elem: "w \<in> X \<and> node_value tm c = w \<and> c \<noteq> 0" if "node_of HashFn tm w = Some c" for w
    using node_ofD [OF names that] node_of_iff [OF names, of w] that by (simp add: node_value_def)
  from names show ?thesis
  proof (cases rule: node_cases [where n = n])
    case Root
    then obtain w where "w \<in> set R" "node_of HashFn tm w = Some c" using a root_alts [OF ok] by fastforce
    then show ?thesis using elem Root by blast
  next
    case (Elem v)
    then obtain i where i: "i < arity E v" "alts = node_kids tm n ! i" using a(1) alt_iff(1) [OF ok Elem(1)] by (auto simp: in_set_conv_nth)
    then obtain w where "(v, i, w) \<in> E" "node_of HashFn tm w = Some c" using alt_iff(3) [OF ok Elem(1) i(1)] a(2) by auto
    then show ?thesis using elem Elem(3) by blast
  next
    case Free
    then show ?thesis using a by simp
  qed
qed

lemma ranked_nodes:
  assumes ok: "tree_ok HashFn X E R tm" and rank: "links_rank hv E"
  shows "ranked (node_kids tm) (node_rank hv X tm)"
  unfolding ranked_def
proof (intro allI ballI)
  fix n alts c assume a: "alts \<in> set (node_kids tm n)" "c \<in> set alts"
  obtain w where w: "w \<in> X" "node_value tm c = w" "c \<noteq> 0" "n \<noteq> 0 \<longrightarrow> (\<exists>i. (node_value tm n, i, w) \<in> E)"
    using alts_elements [OF ok a] by blast
  have "set (m_keys (m_ptmap tm)) = X" using ok by (simp add: tree_ok_def names_ok_def)
  then have "finite X" using finite_set by metis
  then have "hv w \<le> Max (insert 0 (hv ` X))" using w(1) by (intro Max_ge) auto
  then show "node_rank hv X tm c < node_rank hv X tm n" using w(2-4) rank by (auto simp: node_rank_def links_rank_def)
qed

lemma list_all2_nthI: "list_all2 P xs ys \<longleftrightarrow> length xs = length ys \<and> (\<forall>i<length xs. P (xs ! i) (ys ! i))"
  by (auto simp: list_all2_conv_all_nth)

lemma mem_node_trees:
  assumes ok: "tree_ok HashFn X E R tm" and rank: "links_rank hv E"
  shows "node_of HashFn tm v = Some n \<Longrightarrow> t \<in> set (node_trees hv X tm n) \<longleftrightarrow> plan_value t = v \<and> plan_in E t"
proof (induction t arbitrary: v n)
  case (Plan x ts)
  have names: "names_ok HashFn X tm" and E: "\<forall>(p, i, c)\<in>E. p \<in> X \<and> c \<in> X" using ok by (auto simp: tree_ok_def)
  have v: "node_value tm n = v" using node_ofD(3) [OF names Plan.prems] by (simp add: node_value_def)
  have alt: "(\<exists>c\<in>set (node_kids tm n ! i). ts ! i \<in> set (node_trees hv X tm c)) \<longleftrightarrow> (v, i, plan_value (ts ! i)) \<in> E \<and> plan_in E (ts ! i)"
    if i: "i < length ts" "i < arity E v" for i
  proof
    assume "\<exists>c\<in>set (node_kids tm n ! i). ts ! i \<in> set (node_trees hv X tm c)"
    then obtain c w where "ts ! i \<in> set (node_trees hv X tm c)" "(v, i, w) \<in> E" "node_of HashFn tm w = Some c"
      using alt_iff(3) [OF ok Plan.prems i(2)] by blast
    then show "(v, i, plan_value (ts ! i)) \<in> E \<and> plan_in E (ts ! i)" using Plan.IH [of "ts ! i" w c] i(1) by auto
  next
    assume r: "(v, i, plan_value (ts ! i)) \<in> E \<and> plan_in E (ts ! i)"
    then obtain c where c: "node_of HashFn tm (plan_value (ts ! i)) = Some c" using E node_of_iff [OF names] by fastforce
    then show "\<exists>c\<in>set (node_kids tm n ! i). ts ! i \<in> set (node_trees hv X tm c)"
      using r Plan.IH [of "ts ! i" "plan_value (ts ! i)" c] i alt_iff(3) [OF ok Plan.prems i(2)] by auto
  qed
  have "Plan x ts \<in> set (node_trees hv X tm n) \<longleftrightarrow> x = v \<and> length ts = arity E v
      \<and> (\<forall>i<length ts. \<exists>c\<in>set (node_kids tm n ! i). ts ! i \<in> set (node_trees hv X tm c))"
    unfolding node_trees_def mem_trees [OF ranked_nodes [OF ok rank], of "Plan x ts" _ n] list_all2_nthI v
    using alt_iff(1) [OF ok Plan.prems] by auto
  also have "\<dots> \<longleftrightarrow> x = v \<and> length ts = arity E v \<and> (\<forall>i<length ts. (v, i, plan_value (ts ! i)) \<in> E \<and> plan_in E (ts ! i))"
    using alt by auto
  also have "\<dots> \<longleftrightarrow> plan_value (Plan x ts) = v \<and> plan_in E (Plan x ts)" by (auto simp: all_set_conv_all_nth)
  finally show ?case .
qed

lemma distinct_alt_trees:
  assumes ok: "tree_ok HashFn X E R tm" and rank: "links_rank hv E" and d: "distinct alts"
    and el: "\<And>c. c \<in> set alts \<Longrightarrow> \<exists>w. node_of HashFn tm w = Some c"
  shows "distinct (concat (map (node_trees hv X tm) alts))"
proof -
  have names: "names_ok HashFn X tm" using ok by (simp add: tree_ok_def)
  let ?N = "{c. \<exists>w. node_of HashFn tm w = Some c}"
  have val: "node_value tm c = w" if "node_of HashFn tm w = Some c" for c w using node_ofD(3) [OF names that] by (simp add: node_value_def)
  have inj: "inj_on (node_value tm) ?N" using val by (auto simp: inj_on_def)
  have N: "distinct as \<and> set as \<subseteq> ?N" if n: "n \<in> ?N" and as: "as \<in> set (node_kids tm n)" for n as
  proof -
    obtain v where v: "node_of HashFn tm v = Some n" using n by auto
    then obtain i where "i < arity E v" "as = node_kids tm n ! i" using as alt_iff(1) [OF ok v] by (auto simp: in_set_conv_nth)
    then have "distinct as" using alt_iff(2) [OF ok v] by auto
    then show ?thesis using alts_elements [OF ok as] by blast
  qed
  have "distinct (node_trees hv X tm c)" if "c \<in> set alts" for c
    unfolding node_trees_def by (rule distinct_trees [OF ranked_nodes [OF ok rank] N inj]) (use el [OF that] in auto)
  moreover have "inj_on (node_value tm) (set alts)" using el by (intro inj_on_subset [OF inj]) auto
  ultimately show ?thesis unfolding node_trees_def by (intro distinct_alts [OF d _ _ ranked_nodes [OF ok rank]])
qed

definition alternatives :: "('a \<times> nat \<times> 'a) set \<Rightarrow> 'a \<Rightarrow> nat \<Rightarrow> 'a plan_tree set" where
  "alternatives E v i = {t. plan_in E t \<and> (v, i, plan_value t) \<in> E}"

lemma card_alternatives:
  assumes ok: "tree_ok HashFn X E R tm" and rank: "links_rank hv E" and n: "node_of HashFn tm v = Some n" and i: "i < arity E v"
  shows "alt_sum (\<lambda>c. length (node_trees hv X tm c)) (node_kids tm n ! i) = card (alternatives E v i)"
proof -
  let ?ts = "concat (map (node_trees hv X tm) (node_kids tm n ! i))"
  have names: "names_ok HashFn X tm" and E: "\<forall>(p, i, c)\<in>E. p \<in> X \<and> c \<in> X" using ok by (auto simp: tree_ok_def)
  have node: "\<exists>c. node_of HashFn tm w = Some c" if "(v, i, w) \<in> E" for w using node_of_iff [OF names, of w] E that by auto
  have "t \<in> set ?ts \<longleftrightarrow> t \<in> alternatives E v i" for t
  proof
    assume "t \<in> set ?ts"
    then obtain c where c: "c \<in> set (node_kids tm n ! i)" "t \<in> set (node_trees hv X tm c)" by auto
    then obtain w where "(v, i, w) \<in> E" "node_of HashFn tm w = Some c" using alt_iff(3) [OF ok n i] by blast
    then show "t \<in> alternatives E v i" using mem_node_trees [OF ok rank, of w c t] c(2) by (simp add: alternatives_def)
  next
    assume t: "t \<in> alternatives E v i"
    then obtain c where c: "node_of HashFn tm (plan_value t) = Some c" using node by (auto simp: alternatives_def)
    then have "c \<in> set (node_kids tm n ! i)" using t alt_iff(3) [OF ok n i, of c] by (auto simp: alternatives_def)
    then show "t \<in> set ?ts" using mem_node_trees [OF ok rank c, of t] t by (auto simp: alternatives_def)
  qed
  then have "set ?ts = alternatives E v i" by blast
  moreover have "distinct ?ts" using alt_iff(2,3) [OF ok n i] by (intro distinct_alt_trees [OF ok rank]) auto
  ultimately show ?thesis using distinct_card [of ?ts] by (simp add: length_concat_sum)
qed

lemma root_trees:
  assumes ok: "tree_ok HashFn X E R tm" and rank: "links_rank hv E" and R: "R \<noteq> []" "distinct R"
  shows "set (concat (map (node_trees hv X tm) (node_kids tm 0 ! 0))) = {t. plan_in E t \<and> plan_value t \<in> set R}"
    "distinct (concat (map (node_trees hv X tm) (node_kids tm 0 ! 0)))"
proof -
  have names: "names_ok HashFn X tm" using ok by (simp add: tree_ok_def)
  have k: "node_kids tm 0 ! 0 = map (\<lambda>v. the (node_of HashFn tm v)) R" using root_alts(2) [OF ok R(1)] by simp
  have "t \<in> set (node_trees hv X tm (the (node_of HashFn tm v))) \<longleftrightarrow> plan_value t = v \<and> plan_in E t" if "v \<in> set R" for v t
    using root_alts(3) [OF ok that] mem_node_trees [OF ok rank] by auto
  then show "set (concat (map (node_trees hv X tm) (node_kids tm 0 ! 0))) = {t. plan_in E t \<and> plan_value t \<in> set R}"
    unfolding k by auto
  have "inj_on (\<lambda>v. the (node_of HashFn tm v)) (set R)"
  proof (rule inj_onI)
    fix v w assume "v \<in> set R" "w \<in> set R" and eq: "the (node_of HashFn tm v) = the (node_of HashFn tm w)"
    then obtain c d where "node_of HashFn tm v = Some c" "node_of HashFn tm w = Some d" using root_alts(3) [OF ok] by blast
    then show "v = w" using eq node_of_inj [OF names] by simp
  qed
  then have "distinct (node_kids tm 0 ! 0)" unfolding k using R(2) by (simp add: distinct_map)
  then show "distinct (concat (map (node_trees hv X tm) (node_kids tm 0 ! 0)))"
    by (rule distinct_alt_trees [OF ok rank]) (use k root_alts(3) [OF ok] in auto)
qed

subsection \<open>Counting and unranking below the global root\<close>

lemma prod_list_prod: "prod_list (map f xs) = (\<Prod>i<length xs. f (xs ! i))" for f :: "'b \<Rightarrow> nat"
  using prod.list_conv_set_nth [of "map f xs"] by (simp add: atLeast0LessThan)

text \<open>Where the room of a node is exhausted, the plans or the alternatives of an element do not fit.\<close>

definition too_many :: "('a \<times> nat \<times> 'a) set \<Rightarrow> 'a set \<Rightarrow> bool" where
  "too_many E rs \<longleftrightarrow> 2 ^ 64 \<le> card {t. plan_in E t \<and> plan_value t \<in> rs}
    \<or> (\<exists>v. 2 ^ 64 \<le> (\<Prod>i<arity E v. max 1 (card (alternatives E v i))))"

lemma room_too_many:
  assumes ok: "tree_ok HashFn X E R tm" and rank: "links_rank hv E" and R: "R \<noteq> []" "distinct R"
    and rm: "ull_bound \<le> room (node_kids tm) (\<lambda>c. length (node_trees hv X tm c)) n"
  shows "too_many E (set R)"
proof -
  let ?nt = "\<lambda>c. length (node_trees hv X tm c)"
  have names: "names_ok HashFn X tm" using ok by (simp add: tree_ok_def)
  have one: "1 < ull_bound" by (simp add: ull_bound_def)
  from names show ?thesis
  proof (cases rule: node_cases [where n = n])
    case Root
    obtain alts where "node_kids tm 0 = [alts]" using root_alts(2) [OF ok R(1)] by simp
    then have "room (node_kids tm) ?nt 0 = max 1 (alt_sum ?nt (node_kids tm 0 ! 0))" by (simp add: room_def)
    also have "alt_sum ?nt (node_kids tm 0 ! 0) = card {t. plan_in E t \<and> plan_value t \<in> set R}"
      using distinct_card [OF root_trees(2) [OF ok rank R]] root_trees(1) [OF ok rank R] by (simp add: length_concat_sum)
    finally have "ull_bound \<le> card {t. plan_in E t \<and> plan_value t \<in> set R}" using rm Root one by simp
    then show ?thesis unfolding too_many_def ull_bound_def by blast
  next
    case (Elem v)
    have "room (node_kids tm) ?nt n = (\<Prod>i<arity E v. max 1 (alt_sum ?nt (node_kids tm n ! i)))"
      unfolding room_def prod_list_prod alt_iff(1) [OF ok Elem(1)] ..
    also have "\<dots> = (\<Prod>i<arity E v. max 1 (card (alternatives E v i)))"
      by (intro prod.cong refl) (simp add: card_alternatives [OF ok rank Elem(1)])
    finally show ?thesis using rm unfolding too_many_def ull_bound_def by metis
  next
    case Free
    then show ?thesis using rm one by (simp add: room_def)
  qed
qed

lemma memo_ok_start:
  "tree_ok HashFn X E R tm \<Longrightarrow> memo_ok (node_kids tm) nt tm"
  by (simp add: tree_ok_def memo_ok_def node_kids_def)

lemma count_root:
  assumes ok: "tree_ok HashFn X E R tm" and rank: "links_rank hv E" and R: "R \<noteq> []" "distinct R"
  obtains tm' where "UllCount_node 0 tm = Some (None, tm')" "too_many E (set R)"
  | n tm' where "UllCount_node 0 tm = Some (Some n, tm')" "unat n = length (concat (map (node_trees hv X tm) (node_kids tm 0 ! 0)))"
      "memo_ok (node_kids tm) (\<lambda>c. length (node_trees hv X tm c)) tm'" "counted_more tm tm'" "FCounted (tree_nodes tm' 0)"
proof -
  let ?nt = "\<lambda>c. length (node_trees hv X tm c)"
  note rk = ranked_nodes [OF ok rank]
  have nt: "?nt n = prod_list (map (alt_sum ?nt) (node_kids tm n))" for n
    unfolding node_trees_def by (rule ntrees_unfold [OF rk])
  obtain alts where "node_kids tm 0 = [alts]" using root_alts(2) [OF ok R(1)] by simp
  then have nt0: "?nt 0 = length (concat (map (node_trees hv X tm) (node_kids tm 0 ! 0)))"
    using nt [of 0] by (simp add: length_concat_sum)
  have "counts (node_kids tm) ?nt tm (CountNode 0) (?nt 0) {0} False"
    by (rule counts_node [OF rk nt memo_ok_start [OF ok]])
  then show ?thesis
  proof (cases rule: counts_cases)
    case (Overflow t)
    then show ?thesis using that(1) room_too_many [OF ok rank R] by (auto simp: UllCount_node_def)
  next
    case (Value n t)
    then show ?thesis using that(2) nt0 by (simp add: UllCount_node_def)
  qed
qed

lemma unrank_root:
  assumes ok: "tree_ok HashFn X E R tm" and rank: "links_rank hv E" and R: "R \<noteq> []"
    and memo: "memo_ok (node_kids tm) (\<lambda>c. length (node_trees hv X tm c)) tm'" and more: "counted_more tm tm'"
    and c: "FCounted (tree_nodes tm' 0)" and r: "unat r < length (concat (map (node_trees hv X tm) (node_kids tm 0 ! 0)))"
  shows "PrUnrank prfn r u tm' = Some (Some (rehydrate_list prfn [concat (map (node_trees hv X tm) (node_kids tm 0 ! 0)) ! unat r] u), tm')"
proof -
  let ?T = "node_trees hv X tm"
  have names: "names_ok HashFn X tm" using ok by (simp add: tree_ok_def)
  note rk = ranked_nodes [OF ok rank]
  obtain alts where k0: "node_kids tm 0 = [alts]" using root_alts(2) [OF ok R] by simp
  have same: "m_ul (tree_nodes tm' n) = m_ul (tree_nodes tm n)" "m_value (tree_nodes tm' n) = m_value (tree_nodes tm n)" for n
    using more by (auto simp: counted_more_def)
  have ul: "m_ul (tree_nodes tm' c) \<noteq> 0" if a: "alts \<in> set (node_kids tm n)" "c \<in> set alts" for n alts c
  proof -
    obtain w where "node_of HashFn tm w = Some c" using alts_elements [OF ok a] by blast
    from node_ofD(1,4) [OF names this] show ?thesis by (simp add: same)
  qed
  have un: "unrankable (node_value tm) (node_kids tm) (\<lambda>c. length (trees_of (node_value tm) (node_kids tm) (node_rank hv X tm) c)) tm'"
    unfolding unrankable_def using memo ul same(2) by (simp add: node_trees_def node_value_def)
  have "length (?T 0) = length (concat (map ?T alts))"
    using ntrees_unfold [OF rk, of "node_value tm" 0] by (simp add: k0 node_trees_def length_concat_sum)
  then have pos: "0 < length (?T 0)" using r unfolding k0 nth_Cons_0 by linarith
  have "\<forall>alts\<in>set (node_kids tm 0). \<forall>c\<in>set alts. FCounted (tree_nodes tm' c)"
    using memo c pos unfolding memo_ok_def by blast
  then have below: "\<forall>c\<in>set alts. FCounted (tree_nodes tm' c)" by (simp add: k0)
  have "unranks prfn tm' (UnrankAlts alts None r) [concat (map ?T alts) ! unat r]"
  proof (rule unranks_alts [OF memo _ below])
    fix c and x :: ullong assume "c \<in> set alts" "unat x < length (?T c)"
    then show "unranks prfn tm' (UnrankNode c x) [?T c ! unat x]"
      unfolding node_trees_def using unranks_node [OF rk un, of c x prfn] below ul [of alts 0 c] k0
      by (simp add: node_trees_def)
  qed (use r k0 in simp)
  moreover have "m_ul (tree_nodes tm' 0) = 0" using names same by (simp add: names_ok_def)
  moreover have "m_pdrgdrgptn (tree_nodes tm' 0) = node_kids tm 0" using memo by (simp add: memo_ok_def)
  ultimately show ?thesis unfolding PrUnrank_def PrUnrank_node_def unranks_def by (subst unrank_run.simps) (simp add: k0)
qed

subsection \<open>The plans of a sequence of insertions\<close>

definition plan_roots :: "'a tree_op list \<Rightarrow> 'a set" where
  "plan_roots ops = set (root_list ops) \<union> (elements ops - targets (links_of ops))"

definition plans :: "'a tree_op list \<Rightarrow> 'a plan_tree set" where
  "plans ops = {t. plan_in (links_of ops) t \<and> plan_value t \<in> plan_roots ops}"

lemma build_hooked:
  assumes ac: "acyclic (depends (links_of ops))" and d: "distinct (root_list ops)" and ne: "elements ops \<noteq> {}"
  obtains R hv where "tree_ok HashFn (elements ops) (links_of ops) R (hook_roots HashFn (build_map HashFn ops))" "links_rank hv (links_of ops)"
    "R \<noteq> []" "distinct R" "set R = plan_roots ops"
proof -
  let ?tm = "build_map HashFn ops" and ?E = "links_of ops" and ?ks = "m_keys (m_ptmap (build_map HashFn ops))"
  let ?R = "root_list ops @ filter (\<lambda>v. v \<notin> targets ?E \<and> v \<notin> set (root_list ops)) ?ks"
  have ok: "tree_ok HashFn (elements ops) ?E (root_list ops) ?tm" using build_map_ok by blast
  have fin: "finite ?E" and E: "\<forall>(p, i, c)\<in>?E. p \<in> elements ops \<and> c \<in> elements ops" using ok by (auto simp: tree_ok_def)
  have ks: "set ?ks = elements ops" "distinct ?ks"
    using ok eq_keys.distinct_keys [of "m_ptmap ?tm"] by (auto simp: tree_ok_def names_ok_def)
  obtain hv :: "'a \<Rightarrow> nat" where hv: "links_rank hv ?E" using rank_exists [OF fin ac] by (auto simp: links_rank_def)
  have set: "set ?R = plan_roots ops" using ks(1) by (auto simp: plan_roots_def)
  moreover have "plan_roots ops \<noteq> {}" using source_exists [OF fin ac ne E] by (auto simp: plan_roots_def)
  then have "?R \<noteq> []" unfolding set [symmetric] set_empty .
  moreover have "distinct ?R" using d ks(2) by auto
  ultimately show ?thesis using that hook_roots_ok(1) [OF ok] hv by blast
qed

lemma count_unrank_plans:
  assumes ac: "acyclic (depends (links_of ops))" and d: "distinct (root_list ops)"
  obtains tm where "UllCount HashFn (build_map HashFn ops) = Some (None, tm)" "too_many (links_of ops) (plan_roots ops)"
  | n tm ts where "UllCount HashFn (build_map HashFn ops) = Some (Some n, tm)" "distinct ts" "set ts = plans ops" "length ts = unat n"
      "\<And>(prfn :: ('a, 'r, 'u) PrFn) r u. r < n \<Longrightarrow> PrUnrank prfn r u tm = Some (Some (rehydrate_list prfn [ts ! unat r] u), tm)"
proof (cases "elements ops = {}")
  let ?h = "hook_roots HashFn (build_map HashFn ops)"
  have ok: "tree_ok HashFn (elements ops) (links_of ops) (root_list ops) (build_map HashFn ops)" using build_map_ok by blast
  note empty = hook_roots_ok(2) [OF ok]
  {
    case True
    then have "UllCount HashFn (build_map HashFn ops) = Some (Some 0, ?h)" using empty by (simp add: UllCount_def)
    moreover have "plans ops = {}" using True by (auto simp: plans_def plan_roots_def) (use ok in \<open>auto simp: tree_ok_def\<close>)
    ultimately show ?thesis using that(2) [of 0 ?h "[]"] by simp
  next
    case False
    then have cnt: "UllCount HashFn (build_map HashFn ops) = UllCount_node 0 ?h" using empty by (simp add: UllCount_def)
    obtain R hv where R: "tree_ok HashFn (elements ops) (links_of ops) R ?h" "links_rank hv (links_of ops)"
      "R \<noteq> []" "distinct R" "set R = plan_roots ops" by (rule build_hooked [OF ac d False])
    let ?ts = "concat (map (node_trees hv (elements ops) ?h) (node_kids ?h 0 ! 0))"
    have ts: "distinct ?ts" "set ?ts = plans ops" using root_trees [OF R(1-4)] R(5) by (simp_all add: plans_def)
    from R(1-4) show ?thesis
    proof (cases rule: count_root)
      case (1 tm)
      then show ?thesis using that(1) cnt R(5) by simp
    next
      case (2 n tm)
      have "PrUnrank prfn r u tm = Some (Some (rehydrate_list prfn [?ts ! unat r] u), tm)" if "r < n" for prfn :: "('a, 'r, 'u) PrFn" and r u
        by (rule unrank_root [OF R(1-3) 2(3-5)]) (use that 2(2) in \<open>simp add: word_less_nat_alt\<close>)
      then show ?thesis using that(2) [OF cnt [unfolded 2(1)] ts 2(2) [symmetric]] by blast
    qed
  }
qed

text \<open>A root with two alternatives for its only child.\<close>

definition sample_ops :: "nat tree_op list" where
  "sample_ops = [RootOp 1, LinkOp 1 0 2, LinkOp 1 0 3]"

lemma sample_links: "links_of sample_ops = {(1, 0, 2), (1, 0, 3)}" "root_list sample_ops = [1]" "plan_roots sample_ops = {1}"
proof -
  show l: "links_of sample_ops = {(1, 0, 2), (1, 0, 3)}" and "root_list sample_ops = [1]" by (auto simp: links_of_def sample_ops_def)
  have "elements sample_ops = {1, 2, 3}" by (auto simp: elements_def sample_ops_def)
  then show "plan_roots sample_ops = {1}" using l by (auto simp: plan_roots_def targets_def sample_ops_def)
qed

lemma sample_acyclic: "acyclic (depends (links_of sample_ops))"
proof (rule acyclic_subset)
  show "acyclic {(a, b :: nat). b < a}" using wf_acyclic [OF wf_less] acyclic_converse [of "{(a, b :: nat). a < b}"]
    by (simp add: converse_unfold)
  show "depends (links_of sample_ops) \<subseteq> {(a, b). b < a}" by (auto simp: sample_links depends_def)
qed

lemma sample_arity: "arity (links_of sample_ops) v = (if v = 1 then 1 else 0)"
  unfolding sample_links by (simp add: arity_insert arity_zero)

lemma sample_leaf: "v \<noteq> 1 \<Longrightarrow> plan_value t = v \<and> plan_in (links_of sample_ops) t \<longleftrightarrow> t = Plan v []"
  by (cases t) (auto simp: sample_arity)

lemma sample_alternatives: "alternatives (links_of sample_ops) 1 0 = {Plan 2 [], Plan 3 []}"
proof -
  have "t \<in> alternatives (links_of sample_ops) 1 0 \<longleftrightarrow> t = Plan 2 [] \<or> t = Plan 3 []" for t
    using sample_leaf [of 2 t] sample_leaf [of 3 t] by (auto simp: alternatives_def sample_links)
  then show ?thesis by auto
qed

lemma sample_plans: "plans sample_ops = {Plan 1 [Plan 2 []], Plan 1 [Plan 3 []]}"
proof -
  have "t \<in> plans sample_ops \<longleftrightarrow> (\<exists>s. t = Plan 1 [s] \<and> s \<in> alternatives (links_of sample_ops) 1 0)" for t
    by (cases t) (auto simp: plans_def sample_links(3) sample_arity alternatives_def length_Suc_conv)
  then show ?thesis unfolding sample_alternatives by auto
qed

lemma sample_fits: "\<not> too_many (links_of sample_ops) (plan_roots sample_ops)"
proof -
  have "card {t. plan_in (links_of sample_ops) t \<and> plan_value t \<in> plan_roots sample_ops} = 2"
    using sample_plans by (simp add: plans_def)
  moreover have "(\<Prod>i<arity (links_of sample_ops) v. max 1 (card (alternatives (links_of sample_ops) v i))) < 2 ^ 64" for v
  proof -
    have "(\<Prod>i<arity (links_of sample_ops) v. max 1 (card (alternatives (links_of sample_ops) v i))) \<le> 2"
      using sample_alternatives by (simp add: sample_arity)
    also have "(2 :: nat) < 2 ^ 64" by simp
    finally show ?thesis .
  qed
  ultimately show ?thesis by (simp add: too_many_def not_le)
qed

text \<open>
  \<^bold>\<open>C3\<close> Counting.  After any sequence of insertions whose links are acyclic, and whose explicit roots are
  distinct, \<^verbatim>\<open>UllCount\<close> returns.  Its value is the number of plans: trees that choose, from an explicit root
  or an element without incoming links down, one alternative for every child position.  It reports an
  overflow only if the number of plans or the product of the alternatives of one element exceeds 64 bits.
\<close>

theorem UllCount_counts_plans:
  assumes "acyclic (depends (links_of ops))" and "distinct (root_list ops)"
  shows "\<exists>r tm. UllCount HashFn (build_map HashFn ops) = Some (r, tm)
    \<and> (case r of Some n \<Rightarrow> unat n = card (plans ops) | None \<Rightarrow> too_many (links_of ops) (plan_roots ops))"
  using assms
proof (cases rule: count_unrank_plans [where ?'r = unit and ?'u = unit and HashFn = HashFn])
  case (1 tm)
  then show ?thesis by auto
next
  case (2 n tm ts)
  then show ?thesis using distinct_card [OF 2(2)] by auto
qed

theorem UllCount_counts_plans_witness:
  "\<exists>n tm. UllCount id (build_map id sample_ops) = Some (Some n, tm) \<and> unat n = 2"
proof -
  have "distinct (root_list sample_ops)" by (simp add: sample_links)
  from UllCount_counts_plans [OF sample_acyclic this, of id]
  obtain r tm where r: "UllCount id (build_map id sample_ops) = Some (r, tm)"
    "case r of Some n \<Rightarrow> unat n = card (plans sample_ops) | None \<Rightarrow> too_many (links_of sample_ops) (plan_roots sample_ops)" by blast
  then obtain n where "r = Some n" using sample_fits by (cases r) auto
  then show ?thesis using r by (simp add: sample_plans)
qed

text \<open>
  \<^bold>\<open>C4\<close> Unranking.  Unless the count overflows, the ranks below the count are in one-to-one correspondence
  with the plans: there is a list of all plans without repetition, as long as the count, and \<^verbatim>\<open>PrUnrank\<close> of
  rank \<open>r\<close> returns the rehydrated \<open>r\<close>-th plan of that list, for every rehydrate function.
\<close>

theorem PrUnrank_enumerates_plans:
  fixes prfn :: "('a, 'r, 'u) PrFn"
  assumes "acyclic (depends (links_of ops))" and "distinct (root_list ops)" and "\<not> too_many (links_of ops) (plan_roots ops)"
  shows "\<exists>n tm ts. UllCount HashFn (build_map HashFn ops) = Some (Some n, tm) \<and> distinct ts \<and> set ts = plans ops \<and> length ts = unat n
    \<and> (\<forall>r u. r < n \<longrightarrow> PrUnrank prfn r u tm = Some (Some (rehydrate_list prfn [ts ! unat r] u), tm))"
  using assms(1,2)
proof (cases rule: count_unrank_plans [where ?'r = 'r and ?'u = 'u and HashFn = HashFn])
  case (1 tm)
  then show ?thesis using assms(3) by blast
next
  case (2 n tm ts)
  then show ?thesis by blast
qed

theorem PrUnrank_enumerates_plans_witness:
  "\<exists>n tm ts. UllCount id (build_map id sample_ops) = Some (Some n, tm) \<and> distinct ts
    \<and> set ts = {Plan 1 [Plan 2 []], Plan 1 [Plan 3 []]} \<and> PrUnrank (\<lambda>v rs u. (v + sum_list rs, u + 1)) 1 0 tm
      = Some (Some (rehydrate_list (\<lambda>v rs u. (v + sum_list rs, u + (1 :: nat))) [ts ! 1] 0), tm)"
proof -
  have "distinct (root_list sample_ops)" by (simp add: sample_links)
  from PrUnrank_enumerates_plans [OF sample_acyclic this sample_fits, of id "\<lambda>v rs u. (v + sum_list rs, u + (1 :: nat))"]
  obtain n tm ts where r: "UllCount id (build_map id sample_ops) = Some (Some n, tm)" "distinct ts" "set ts = plans sample_ops"
    "length ts = unat n" "\<forall>r u. r < n \<longrightarrow> PrUnrank (\<lambda>v rs u. (v + sum_list rs, u + (1 :: nat))) r u tm
      = Some (Some (rehydrate_list (\<lambda>v rs u. (v + sum_list rs, u + 1)) [ts ! unat r] u), tm)" by blast
  have "unat n = 2" using distinct_card [OF r(2)] r(3,4) by (simp add: sample_plans)
  then have "(1 :: ullong) < n" by (simp add: word_less_nat_alt)
  then show ?thesis using r(1-3) r(5) [rule_format, of 1 0] by (auto simp: sample_plans)
qed

end
