(* ===== verification/Spec2Isabelle.thy ===== *)
theory Spec2Isabelle
  imports SimplifierCorrect IntervalPrint JobDiagrams IntrusiveList JobTest TreeMapCount
begin

text \<open>
  A verification library for pg\_orca, the Orca query optimizer packaged as a PostgreSQL extension.

  The library models the foundations of the optimizer's join enumeration.  \<^verbatim>\<open>Prelude\<close> fixes the machine
  types.  \<^verbatim>\<open>BitVector\<close> models \<^verbatim>\<open>libgpos/src/common/CBitVector.cpp\<close> and the hash functions of
  \<^verbatim>\<open>libgpos/src/utils.cpp\<close>; \<^verbatim>\<open>BitSet\<close> and \<^verbatim>\<open>BitSetCorrect\<close> model the sparse set of
  \<^verbatim>\<open>libgpos/src/common/CBitSet.cpp\<close> with its iterator \<^verbatim>\<open>CBitSetIter.cpp\<close>; \<^verbatim>\<open>SetSpec\<close> is the interface its
  clients rely on.
\<close>

end
